(* ===== verification/Prelude.thy ===== *)
theory Prelude
  imports Main "HOL-Library.Word"
begin

unbundle bit_operations_syntax

text \<open>
  The shared base of the development: the machine-integer types of the C sources, the
  little-endian byte encodings that \<^verbatim>\<open>memcpy\<close> of a scalar produces, and a theory of
  intrusive doubly linked lists.  A list that the C code threads through an array of
  slots is described by its \<^emph>\<open>next\<close> function and its \<^emph>\<open>prev\<close> function from slot index to
  slot index, together with the index that plays the role of NULL.  The locale
  \<open>intrusive_queue\<close> is the interface between a slot array and the list lemmas: an array
  that can read and write the two links of a slot gets the correctness of linking and
  unlinking for free.
\<close>

section \<open>Machine integers\<close>

type_synonym u8 = "8 word"
type_synonym u16 = "16 word"
type_synonym u32 = "32 word"
type_synonym u64 = "64 word"

abbreviation UINT32_MAX :: nat where
  "UINT32_MAX \<equiv> 4294967295"

abbreviation UINT64_MAX :: u64 where
  "UINT64_MAX \<equiv> 0xFFFFFFFFFFFFFFFF"

text \<open>Facts that rewrite word subtraction and comparison to natural numbers.\<close>

named_theorems word_nat "word operations read as natural numbers"

lemma unat_sub_le [word_nat]:
  fixes a b :: "'a::len word"
  assumes "b \<le> a"
  shows "unat (a - b) = unat a - unat b"
  using assms by (simp add: unat_sub)

lemma unat_add_no_wrap [word_nat]:
  fixes a b :: "'a::len word"
  assumes "unat a + unat b < 2 ^ LENGTH('a)"
  shows "unat (a + b) = unat a + unat b"
  using assms by (simp add: unat_word_ariths)

text \<open>Clearing the low bits rounds down to a multiple of a power of two.\<close>

lemma unat_and_not_mask:
  fixes y :: "'a::len word"
  shows "unat (y AND NOT (mask n)) = unat y div 2 ^ n * 2 ^ n"
proof -
  have "y AND NOT (mask n) = push_bit n (drop_bit n y)"
    by (rule bit_word_eqI) (auto simp: bit_simps)
  moreover have "unat (push_bit n (drop_bit n y)) = take_bit LENGTH('a) (unat y div 2 ^ n * 2 ^ n)"
    by (simp only: unsigned_push_bit_eq unsigned_drop_bit_eq)
       (simp add: push_bit_eq_mult drop_bit_eq_div take_bit_nat_eq_self)
  moreover have "unat y div 2 ^ n * 2 ^ n < 2 ^ LENGTH('a)"
    by (rule le_less_trans [OF _ unsigned_less [of y]]) simp
  ultimately show ?thesis by (simp add: take_bit_nat_eq_self)
qed

section \<open>Little-endian scalars\<close>

text \<open>\<open>bytes_le n x\<close> are the \<open>n\<close> bytes of the scalar \<open>x\<close> in memory order.\<close>

fun bytes_le :: "nat \<Rightarrow> nat \<Rightarrow> u8 list" where
  "bytes_le 0 x = []"
| "bytes_le (Suc n) x = of_nat (x mod 256) # bytes_le n (x div 256)"

fun nat_le :: "u8 list \<Rightarrow> nat" where
  "nat_le [] = 0"
| "nat_le (b # bs) = unat b + 256 * nat_le bs"

lemma length_bytes_le [simp]: "length (bytes_le n x) = n"
  by (induction n arbitrary: x) auto

lemma nat_le_bytes_le: "nat_le (bytes_le n x) = x mod 256 ^ n"
proof (induction n arbitrary: x)
  case 0
  then show ?case by simp
next
  case (Suc n)
  have "unat (of_nat (x mod 256) :: u8) = x mod 256"
    by (simp add: unat_of_nat)
  then have "nat_le (bytes_le (Suc n) x) = x mod 256 + 256 * (x div 256 mod 256 ^ n)"
    by (simp add: Suc.IH)
  also have "\<dots> = x mod (256 * 256 ^ n)"
    by (simp add: mod_mult2_eq)
  finally show ?case by simp
qed

lemma nat_le_bytes_le_id [simp]: "x < 256 ^ n \<Longrightarrow> nat_le (bytes_le n x) = x"
  by (simp add: nat_le_bytes_le)

lemma nat_le_bound: "nat_le bs < 256 ^ length bs"
proof (induction bs)
  case Nil
  then show ?case by simp
next
  case (Cons b bs)
  have "unat b < 256" using unsigned_less [of b] by simp
  with Cons.IH show ?case by simp
qed

lemma bytes_le_nat_le: "bytes_le (length bs) (nat_le bs) = bs"
proof (induction bs)
  case Nil
  then show ?case by simp
next
  case (Cons b bs)
  have b: "unat b < 256" using unsigned_less [of b] by simp
  then have "(unat b + 256 * nat_le bs) mod 256 = unat b"
    and "(unat b + 256 * nat_le bs) div 256 = nat_le bs" by simp_all
  with Cons.IH show ?case by simp
qed

section \<open>Chains of next pointers\<close>

text \<open>\<open>seg nul nx i xs j\<close>: following \<open>nx\<close> from \<open>i\<close> visits \<open>xs\<close> and arrives at \<open>j\<close>.\<close>

fun seg :: "nat \<Rightarrow> (nat \<Rightarrow> nat) \<Rightarrow> nat \<Rightarrow> nat list \<Rightarrow> nat \<Rightarrow> bool" where
  "seg nul nx i [] j \<longleftrightarrow> i = j"
| "seg nul nx i (x # xs) j \<longleftrightarrow> i = x \<and> x \<noteq> nul \<and> seg nul nx (nx x) xs j"

abbreviation chain :: "nat \<Rightarrow> (nat \<Rightarrow> nat) \<Rightarrow> nat \<Rightarrow> nat list \<Rightarrow> bool" where
  "chain nul nx i xs \<equiv> seg nul nx i xs nul"

lemma seg_append: "seg nul nx i (xs @ ys) j \<longleftrightarrow> (\<exists>k. seg nul nx i xs k \<and> seg nul nx k ys j)"
  by (induction xs arbitrary: i) auto

lemma seg_upd [simp]: "a \<notin> set xs \<Longrightarrow> seg nul (nx(a := v)) i xs j = seg nul nx i xs j"
  by (induction xs arbitrary: i) auto

lemma seg_cong: "(\<And>x. x \<in> set xs \<Longrightarrow> nx x = nx' x) \<Longrightarrow> seg nul nx i xs j = seg nul nx' i xs j"
  by (induction xs arbitrary: i) auto

lemma seg_not_nul: "seg nul nx i xs j \<Longrightarrow> nul \<notin> set xs"
  by (induction xs arbitrary: i) auto

lemma seg_hd: "seg nul nx i xs j \<Longrightarrow> xs \<noteq> [] \<Longrightarrow> i = hd xs"
  by (cases xs) auto

lemma chain_nul [simp]: "chain nul nx nul xs \<longleftrightarrow> xs = []"
  by (cases xs) auto

lemma chain_start: "chain nul nx i xs \<Longrightarrow> i = (if xs = [] then nul else hd xs)"
  by (cases xs) auto

lemma chain_unique: "chain nul nx i xs \<Longrightarrow> chain nul nx i ys \<Longrightarrow> xs = ys"
proof (induction xs arbitrary: i ys)
  case Nil
  then show ?case by (cases ys) auto
next
  case (Cons x xs)
  then show ?case by (cases ys) auto
qed

lemma chain_distinct: "chain nul nx i xs \<Longrightarrow> distinct xs"
proof (induction xs arbitrary: i)
  case Nil
  then show ?case by simp
next
  case (Cons x xs)
  have "x \<notin> set xs"
  proof
    assume "x \<in> set xs"
    then obtain as bs where xs: "xs = as @ x # bs" by (auto simp: in_set_conv_decomp)
    with Cons.prems have "chain nul nx (nx x) (as @ x # bs)" and "chain nul nx (nx x) bs"
      by (auto simp: seg_append)
    then have "as @ x # bs = bs" by (rule chain_unique)
    then have "length (as @ x # bs) = length bs" by simp
    then show False by simp
  qed
  with Cons show ?case by auto
qed

text \<open>The next pointer inside a chain: the following element, or NULL at the end.\<close>

lemma chain_next:
  assumes "chain nul nx i (xs @ x # ys)"
  shows "nx x = (if ys = [] then nul else hd ys)"
  using assms by (auto simp: seg_append dest: chain_start)

section \<open>Back pointers\<close>

fun blinks :: "(nat \<Rightarrow> nat) \<Rightarrow> nat \<Rightarrow> nat list \<Rightarrow> bool" where
  "blinks pv p [] \<longleftrightarrow> True"
| "blinks pv p (x # xs) \<longleftrightarrow> pv x = p \<and> blinks pv x xs"

lemma blinks_append: "blinks pv p (xs @ ys) \<longleftrightarrow> blinks pv p xs \<and> blinks pv (last (p # xs)) ys"
  by (induction xs arbitrary: p) auto

lemma blinks_upd [simp]: "a \<notin> set xs \<Longrightarrow> blinks (pv(a := v)) p xs = blinks pv p xs"
  by (induction xs arbitrary: p) auto

lemma blinks_cong: "(\<And>x. x \<in> set xs \<Longrightarrow> pv x = pv' x) \<Longrightarrow> blinks pv p xs = blinks pv' p xs"
  by (induction xs arbitrary: p) auto

lemma blinks_prev:
  assumes "blinks pv p (xs @ x # ys)"
  shows "pv x = last (p # xs)"
  using assms by (auto simp: blinks_append)

section \<open>Doubly linked lists\<close>

definition dll :: "nat \<Rightarrow> (nat \<Rightarrow> nat) \<Rightarrow> (nat \<Rightarrow> nat) \<Rightarrow> nat \<Rightarrow> nat list \<Rightarrow> bool" where
  "dll nul nx pv i xs \<longleftrightarrow> chain nul nx i xs \<and> blinks pv nul xs"

lemma dllD:
  assumes "dll nul nx pv i xs"
  shows "chain nul nx i xs" and "blinks pv nul xs" and "distinct xs" and "nul \<notin> set xs"
    and "i = (if xs = [] then nul else hd xs)"
  using assms by (auto simp: dll_def dest: chain_distinct seg_not_nul chain_start)

lemma dll_Nil [simp]: "dll nul nx pv i [] \<longleftrightarrow> i = nul"
  by (simp add: dll_def)

lemma dll_cong:
  assumes "\<And>x. x \<in> set xs \<Longrightarrow> nx x = nx' x" and "\<And>x. x \<in> set xs \<Longrightarrow> pv x = pv' x"
  shows "dll nul nx pv i xs = dll nul nx' pv' i xs"
  using assms by (simp add: dll_def cong: seg_cong blinks_cong)

lemma dll_upd [simp]:
  "a \<notin> set xs \<Longrightarrow> dll nul (nx(a := v)) pv i xs = dll nul nx pv i xs"
  "a \<notin> set xs \<Longrightarrow> dll nul nx (pv(a := v)) i xs = dll nul nx pv i xs"
  by (auto simp: dll_def)

lemma dll_next: "dll nul nx pv i (xs @ x # ys) \<Longrightarrow> nx x = (if ys = [] then nul else hd ys)"
  unfolding dll_def by (blast intro: chain_next)

lemma dll_prev: "dll nul nx pv i (xs @ x # ys) \<Longrightarrow> pv x = (if xs = [] then nul else last xs)"
  unfolding dll_def by (auto dest: blinks_prev)

text \<open>Linking \<open>a\<close> in front of the list.\<close>

lemma dll_push:
  assumes "dll nul nx pv i xs" and "a \<notin> set xs" and "a \<noteq> nul"
  shows "dll nul (nx(a := i)) (if i = nul then pv(a := nul) else pv(a := nul, i := a)) a (a # xs)"
proof (cases xs)
  case Nil
  with assms show ?thesis by (simp add: dll_def)
next
  case (Cons x ys)
  note d = dllD [OF assms(1)]
  have x: "i = x" "x \<noteq> nul" "x \<notin> set ys" using d Cons by auto
  show ?thesis using assms x Cons by (auto simp: dll_def)
qed

text \<open>Linking \<open>a\<close> right after the element \<open>x\<close>.\<close>

lemma dll_insert_after:
  assumes d: "dll nul nx pv i (xs @ x # ys)" and a: "a \<notin> set (xs @ x # ys)" "a \<noteq> nul"
  shows "dll nul (nx(a := nx x, x := a))
           (if nx x = nul then pv(a := x) else pv(a := x, nx x := a)) i (xs @ x # a # ys)"
proof -
  note D = dllD [OF d]
  have n: "nx x = (if ys = [] then nul else hd ys)" by (rule dll_next [OF d])
  have dist: "x \<notin> set xs" "x \<notin> set ys" "set xs \<inter> set ys = {}" using D(3) by auto
  have c: "seg nul nx i xs x" "chain nul nx (nx x) ys" "x \<noteq> nul"
    using D(1) by (auto simp: seg_append)
  have b: "blinks pv nul xs" "pv x = last (nul # xs)" "blinks pv x ys"
    using D(2) by (auto simp: blinks_append)
  show ?thesis
  proof (cases ys)
    case Nil
    with a dist c b n show ?thesis by (auto simp: dll_def seg_append blinks_append)
  next
    case (Cons y zs)
    have y: "nx x = y" "y \<noteq> nul" "y \<notin> set xs" "y \<notin> set zs" "y \<noteq> x" "y \<noteq> a"
      using n Cons D(3,4) a by auto
    with Cons a dist c b show ?thesis by (auto simp: dll_def seg_append blinks_append)
  qed
qed

text \<open>Unlinking the element \<open>x\<close>; its own links may be reset to anything.\<close>

lemma dll_remove:
  assumes d: "dll nul nx pv i (xs @ x # ys)"
  shows "dll nul ((if pv x = nul then nx else nx(pv x := nx x))(x := v))
           ((if nx x = nul then pv else pv(nx x := pv x))(x := w))
           (if xs = [] then nx x else i) (xs @ ys)"
proof -
  note D = dllD [OF d]
  have n: "nx x = (if ys = [] then nul else hd ys)" by (rule dll_next [OF d])
  have p: "pv x = (if xs = [] then nul else last xs)" by (rule dll_prev [OF d])
  have dist: "x \<notin> set xs" "x \<notin> set ys" "set xs \<inter> set ys = {}" "distinct xs" "distinct ys"
    using D(3) by auto
  have c: "seg nul nx i xs x" "chain nul nx (nx x) ys" "x \<noteq> nul"
    using D(1) by (auto simp: seg_append)
  have b: "blinks pv nul xs" "pv x = last (nul # xs)" "blinks pv x ys"
    using D(2) by (auto simp: blinks_append)
  have bl: "blinks ((if nx x = nul then pv else pv(nx x := pv x))(x := w)) nul (xs @ ys)"
  proof (cases ys)
    case Nil
    with n dist b show ?thesis by simp
  next
    case (Cons y zs)
    have "y \<noteq> nul" "y \<notin> set xs" "y \<notin> set zs" using Cons D(3,4) by auto
    with Cons n dist b show ?thesis by (auto simp: blinks_append)
  qed
  have chn: "chain nul ((if pv x = nul then nx else nx(pv x := nx x))(x := v))
      (if xs = [] then nx x else i) (xs @ ys)"
  proof (cases xs rule: rev_exhaust)
    case Nil
    with p dist c show ?thesis by simp
  next
    case (snoc ws u)
    have u: "u \<noteq> nul" "u \<notin> set ws" "u \<notin> set ys" "u \<noteq> x" "pv x = u"
      using snoc D(3,4) p by auto
    have "seg nul nx i ws u" using c(1) snoc by (auto simp: seg_append)
    with u snoc dist c(2) show ?thesis by (auto simp: seg_append)
  qed
  from chn bl show ?thesis by (simp add: dll_def)
qed

text \<open>Linking \<open>a\<close> right before the first element.\<close>

lemma dll_insert_first:
  assumes d: "dll nul nx pv x (x # ys)" and a: "a \<notin> set (x # ys)" "a \<noteq> nul"
  shows "dll nul (nx(a := x)) (pv(a := pv x, x := a)) a (a # x # ys)"
proof -
  have "x \<noteq> nul" "pv x = nul" using d by (auto simp: dll_def)
  with dll_push [OF d a] show ?thesis by simp
qed

text \<open>Putting \<open>a\<close> in the place of the element \<open>x\<close>.\<close>

lemma dll_replace:
  assumes d: "dll nul nx pv i (xs @ x # ys)" and a: "a \<notin> set (xs @ x # ys)" "a \<noteq> nul"
  shows "dll nul ((if pv x = nul then nx(a := nx x) else nx(a := nx x, pv x := a))(x := v))
           ((if nx x = nul then pv(a := pv x) else pv(a := pv x, nx x := a))(x := w))
           (if xs = [] then a else i) (xs @ a # ys)"
proof -
  note D = dllD [OF d]
  have n: "nx x = (if ys = [] then nul else hd ys)" by (rule dll_next [OF d])
  have p: "pv x = (if xs = [] then nul else last xs)" by (rule dll_prev [OF d])
  have dist: "x \<notin> set xs" "x \<notin> set ys" "set xs \<inter> set ys = {}" "distinct xs" "distinct ys" using D(3) by auto
  have c: "seg nul nx i xs x" "chain nul nx (nx x) ys" using D(1) by (auto simp: seg_append)
  have b: "blinks pv nul xs" "blinks pv x ys" using D(2) by (auto simp: blinks_append)
  have chn: "chain nul ((if pv x = nul then nx(a := nx x) else nx(a := nx x, pv x := a))(x := v))
      (if xs = [] then a else i) (xs @ a # ys)"
  proof (cases xs rule: rev_exhaust)
    case Nil
    then show ?thesis using p dist c a by simp
  next
    case (snoc zs z)
    then have "pv x = z" "z \<noteq> nul" "z \<notin> set zs" "z \<notin> set ys" "z \<noteq> x" "z \<noteq> a" "a \<notin> set zs" "x \<notin> set zs"
      using p D(4) dist a by auto
    moreover have "seg nul nx i zs z" using c(1) snoc by (auto simp: seg_append)
    ultimately show ?thesis using snoc dist c(2) a by (auto simp: seg_append)
  qed
  have "blinks ((if nx x = nul then pv(a := pv x) else pv(a := pv x, nx x := a))(x := w)) nul (xs @ a # ys)"
  proof (cases ys)
    case Nil
    then show ?thesis using n p dist b a by (auto simp: blinks_append)
  next
    case (Cons z zs)
    then have "nx x = z" "z \<noteq> nul" "z \<notin> set xs" "z \<notin> set zs" "z \<noteq> x" "z \<noteq> a" using n D(3,4) a by auto
    then show ?thesis using Cons p dist b a by (auto simp: blinks_append)
  qed
  with chn show ?thesis by (simp add: dll_def)
qed

section \<open>First-in first-out lists whose head keeps the tail index\<close>

text \<open>
  The time queue of a price level is a doubly linked list without a header: the back link
  of its first element holds the index of the last one, or NULL when it is alone.
\<close>

definition fifo :: "nat \<Rightarrow> (nat \<Rightarrow> nat) \<Rightarrow> (nat \<Rightarrow> nat) \<Rightarrow> nat list \<Rightarrow> bool" where
  "fifo nul nx pv l \<longleftrightarrow> l \<noteq> [] \<and> chain nul nx (hd l) l \<and> blinks pv (hd l) (tl l) \<and>
     pv (hd l) = (if tl l = [] then nul else last l)"

lemma fifoD:
  assumes "fifo nul nx pv l"
  shows "l \<noteq> []" and "chain nul nx (hd l) l" and "distinct l" and "nul \<notin> set l"
    and "pv (hd l) = (if tl l = [] then nul else last l)"
  using assms by (auto simp: fifo_def dest: chain_distinct seg_not_nul)

lemma fifo_cong:
  assumes "\<And>x. x \<in> set l \<Longrightarrow> nx x = nx' x" and "\<And>x. x \<in> set l \<Longrightarrow> pv x = pv' x"
  shows "fifo nul nx pv l = fifo nul nx' pv' l"
proof (cases l)
  case Nil
  then show ?thesis by (simp add: fifo_def)
next
  case (Cons h t)
  have "blinks pv h t = blinks pv' h t" by (rule blinks_cong) (use assms Cons in auto)
  moreover have "chain nul nx (hd l) l = chain nul nx' (hd l) l"
    by (rule seg_cong) (use assms in auto)
  ultimately show ?thesis using Cons assms by (simp add: fifo_def)
qed

lemma fifo_upd [simp]:
  "a \<notin> set l \<Longrightarrow> fifo nul (nx(a := v)) pv l = fifo nul nx pv l"
  "a \<notin> set l \<Longrightarrow> fifo nul nx (pv(a := v)) l = fifo nul nx pv l"
  by (auto intro!: fifo_cong)

lemma fifo_single: "fifo nul (nx(a := nul)) (pv(a := nul)) [a] \<longleftrightarrow> a \<noteq> nul"
  by (auto simp: fifo_def)

text \<open>The tail is the head's back link, or the head itself when that link is NULL.\<close>

lemma fifo_tail:
  assumes "fifo nul nx pv l"
  shows "(if pv (hd l) = nul then hd l else pv (hd l)) = last l"
proof (cases "tl l = []")
  case True
  with fifoD [OF assms] show ?thesis by (cases l) auto
next
  case False
  then have "last l \<in> set l" by (cases l) auto
  with fifoD [OF assms] False show ?thesis by auto
qed

lemma fifo_append:
  assumes f: "fifo nul nx pv l" and a: "a \<notin> set l" "a \<noteq> nul" and t: "t = last l"
  shows "fifo nul (nx(a := nul, t := a)) (pv(a := t, hd l := a)) (l @ [a])"
proof -
  obtain ys where l: "l = ys @ [t]" using fifoD(1) [OF f] t by (metis append_butlast_last_id)
  note F = fifoD [OF f]
  have tn: "t \<notin> set ys" "t \<noteq> a" "t \<noteq> nul" using F l a by auto
  have c: "seg nul nx (hd l) ys t" using F(2) l by (auto simp: seg_append)
  have c': "chain nul (nx(a := nul, t := a)) (hd l) (l @ [a])"
    using c tn a l by (auto simp: seg_append)
  have hd: "hd (l @ [a]) = hd l" using F(1) by simp
  have "blinks (pv(a := t, hd l := a)) (hd l) (tl l @ [a])"
  proof (cases ys)
    case Nil
    then show ?thesis using l tn by simp
  next
    case (Cons h zs)
    have tl: "tl l = zs @ [t]" and h: "hd l = h" "h \<notin> set zs" "h \<noteq> t" "h \<noteq> a" "a \<notin> set zs"
      using Cons l F(3) a by auto
    have "blinks pv h (zs @ [t])" using f tl h by (simp add: fifo_def)
    then show ?thesis using tl h tn by (auto simp: blinks_append)
  qed
  moreover have "tl (l @ [a]) = tl l @ [a]" using F(1) by simp
  ultimately show ?thesis using c' hd F(1) by (simp add: fifo_def)
qed

text \<open>Removing an element behind the head.\<close>

lemma fifo_remove:
  assumes f: "fifo nul nx pv (h # xs @ x # ys)"
  defines "pv1 \<equiv> (if nx x = nul then pv else pv(nx x := pv x))(x := nul)"
  shows "fifo nul (nx(pv x := nx x, x := nul))
     (if nx x = nul then pv1(h := if pv x = h then nul else pv x) else pv1) (h # xs @ ys)"
proof -
  note F = fifoD [OF f]
  have n: "nx x = (if ys = [] then nul else hd ys)"
    using chain_next [of nul nx h "h # xs" x ys] F(2) by simp
  have bx: "blinks pv h (xs @ x # ys)" using f by (simp add: fifo_def)
  then have p: "pv x = last (h # xs)" by (rule blinks_prev)
  have dist: "h \<notin> set xs" "h \<notin> set ys" "h \<noteq> x" "x \<notin> set xs" "x \<notin> set ys"
    "set xs \<inter> set ys = {}" "distinct xs" "distinct ys" using F(3) by auto
  have "pv x \<in> set (h # xs)" using p by (metis last_in_set list.distinct(1))
  then have pvx: "pv x \<noteq> x" "pv x \<notin> set ys" using dist by auto
  have c: "seg nul nx h (h # xs) x" "chain nul nx (nx x) ys" "x \<noteq> nul" "h \<noteq> nul"
    using F(2) by (auto simp: seg_append)
  have chn: "chain nul (nx(pv x := nx x, x := nul)) h (h # xs @ ys)"
  proof -
    obtain ws where ws: "h # xs = ws @ [pv x]" using p by (metis append_butlast_last_id list.distinct(1))
    have "pv x \<notin> set ws" using ws F(3)
      by (metis append_Cons append_assoc append_eq_Cons_conv distinct_append not_distinct_conv_prefix
          in_set_conv_decomp)
    moreover have "x \<notin> set ws" using ws dist by (metis UnCI set_ConsD set_append)
    moreover have "seg nul nx h ws (pv x)" "pv x \<noteq> nul" using c(1) ws by (auto simp: seg_append)
    ultimately have "chain nul (nx(pv x := nx x, x := nul)) h (ws @ pv x # ys)"
      using c(2) pvx dist by (auto simp: seg_append)
    then show ?thesis using ws by (metis append_Cons append_assoc append_Nil)
  qed
  have bl: "blinks pv h xs" "blinks pv x ys" using bx by (auto simp: blinks_append)
  show ?thesis
  proof (cases ys)
    case Nil
    have "blinks (pv1(h := if pv x = h then nul else pv x)) h xs"
      using bl(1) dist n Nil by (simp add: pv1_def)
    then show ?thesis using chn Nil n p dist by (auto simp: fifo_def pv1_def)
  next
    case (Cons y zs)
    have y: "nx x = y" "y \<noteq> nul" "y \<notin> set xs" "y \<notin> set zs" "y \<noteq> h" "y \<noteq> x"
      using n Cons F(3,4) by auto
    have "blinks pv1 h (xs @ ys)"
      using bl y dist Cons p by (auto simp: pv1_def blinks_append)
    moreover have "pv1 h = last (xs @ ys)" using F(5) y dist Cons by (simp add: pv1_def)
    ultimately show ?thesis using chn y Cons by (auto simp: fifo_def)
  qed
qed

text \<open>Removing the head promotes its successor, which takes over the tail index.\<close>

lemma fifo_pop:
  assumes f: "fifo nul nx pv (h # y # zs)"
  shows "fifo nul (nx(h := nul)) (pv(y := if nx y = nul then nul else pv h, h := v)) (y # zs)"
proof -
  note F = fifoD [OF f]
  have d: "h \<noteq> y" "h \<notin> set zs" "y \<notin> set zs" using F(3) by auto
  have c: "chain nul nx y (y # zs)" using F(2) by auto
  then have "nx y = (if zs = [] then nul else hd zs)" using chain_next [of nul nx y "[]" y zs] by simp
  moreover have "zs \<noteq> [] \<Longrightarrow> hd zs \<noteq> nul" using F(4) by (cases zs) auto
  ultimately have ny: "(nx y = nul) = (zs = [])" by simp
  show ?thesis using f c d ny by (auto simp: fifo_def)
qed

section \<open>The interface of an array of linked slots\<close>

text \<open>
  A slot array whose slots carry a pair of links: reading them (\<open>nx\<close>, \<open>pv\<close>) and writing
  them (\<open>set_nx\<close>, \<open>set_pv\<close>), the writes touching one link of one slot.
\<close>

locale intrusive_queue =
  fixes nx :: "'s \<Rightarrow> nat \<Rightarrow> nat"
    and pv :: "'s \<Rightarrow> nat \<Rightarrow> nat"
    and set_nx :: "nat \<Rightarrow> nat \<Rightarrow> 's \<Rightarrow> 's"
    and set_pv :: "nat \<Rightarrow> nat \<Rightarrow> 's \<Rightarrow> 's"
    and nul :: nat
  assumes nx_set_nx: "nx (set_nx i v s) = (nx s)(i := v)"
    and pv_set_nx: "pv (set_nx i v s) = pv s"
    and nx_set_pv: "nx (set_pv i v s) = nx s"
    and pv_set_pv: "pv (set_pv i v s) = (pv s)(i := v)"
begin

lemmas link_laws = nx_set_nx pv_set_nx nx_set_pv pv_set_pv

lemma link_after_dll:
  assumes "dll nul (nx s) (pv s) i (xs @ x # ys)" and "a \<notin> set (xs @ x # ys)" and "a \<noteq> nul"
    and "s1 = set_nx x a (set_nx a (nx s x) (set_pv a x s))"
    and "s2 = (if nx s x = nul then s1 else set_pv (nx s x) a s1)"
  shows "dll nul (nx s2) (pv s2) i (xs @ x # a # ys)"
  using dll_insert_after [OF assms(1-3)] assms(4,5) by (simp add: link_laws split: if_splits)

lemma push_front_dll:
  assumes "dll nul (nx s) (pv s) i xs" and "a \<notin> set xs" and "a \<noteq> nul"
    and "s1 = set_nx a i (set_pv a nul s)"
    and "s2 = (if i = nul then s1 else set_pv i a s1)"
  shows "dll nul (nx s2) (pv s2) a (a # xs)"
  using dll_push [OF assms(1-3)] assms(4,5) by (simp add: link_laws split: if_splits)

lemma unlink_dll:
  assumes "dll nul (nx s) (pv s) i (xs @ x # ys)"
    and "s1 = (if pv s x = nul then s else set_nx (pv s x) (nx s x) s)"
    and "s2 = (if nx s x = nul then s1 else set_pv (nx s x) (pv s x) s1)"
    and "s3 = set_pv x w (set_nx x v s2)"
  shows "dll nul (nx s3) (pv s3) (if xs = [] then nx s x else i) (xs @ ys)"
  using dll_remove [OF assms(1), of v w] assms(2-4) by (simp add: link_laws split: if_splits)

end

section \<open>The interface of a slot allocator\<close>

text \<open>
  An allocator hands out slot indices from a free list and takes them back at its front.
  \<open>inv s F\<close> says that the free list of \<open>s\<close> is \<open>F\<close>; \<open>usable s i\<close> that \<open>i\<close> is a slot.
\<close>

fun alloc_n :: "('s \<Rightarrow> nat option \<times> 's) \<Rightarrow> nat \<Rightarrow> 's \<Rightarrow> nat option list \<times> 's" where
  "alloc_n alloc 0 s = ([], s)"
| "alloc_n alloc (Suc n) s =
     (let (r, s1) = alloc s; (rs, s2) = alloc_n alloc n s1 in (r # rs, s2))"

locale slot_allocator =
  fixes alloc :: "'s \<Rightarrow> nat option \<times> 's"
    and release :: "nat \<Rightarrow> 's \<Rightarrow> 's"
    and inv :: "'s \<Rightarrow> nat list \<Rightarrow> bool"
    and usable :: "'s \<Rightarrow> nat \<Rightarrow> bool"
  assumes alloc_empty: "inv s [] \<Longrightarrow> alloc s = (None, s)"
    and alloc_fst: "inv s (i # F) \<Longrightarrow> fst (alloc s) = Some i"
    and alloc_inv: "inv s (i # F) \<Longrightarrow> inv (snd (alloc s)) F"
    and alloc_usable: "inv s (i # F) \<Longrightarrow> usable (snd (alloc s)) j = usable s j"
    and release_inv: "inv s F \<Longrightarrow> i \<notin> set F \<Longrightarrow> usable s i \<Longrightarrow> inv (release i s) (i # F)"
    and inv_distinct: "inv s F \<Longrightarrow> distinct F"
    and inv_usable: "inv s F \<Longrightarrow> i \<in> set F \<Longrightarrow> usable s i"
begin

lemma alloc_n_take:
  assumes "inv s F" and "n \<le> length F"
  shows "fst (alloc_n alloc n s) = map Some (take n F) \<and> inv (snd (alloc_n alloc n s)) (drop n F)"
  using assms
proof (induction n arbitrary: s F)
  case 0
  then show ?case by simp
next
  case (Suc n)
  then obtain i F' where F: "F = i # F'" by (cases F) auto
  obtain s1 where s1: "alloc s = (Some i, s1)" and "inv s1 F'"
    using alloc_fst alloc_inv Suc.prems(1) F by (metis prod.collapse)
  with Suc.IH [of s1 F'] Suc.prems(2) F show ?case by (auto simp: case_prod_beta)
qed

lemma alloc_n_distinct:
  assumes "inv s F" and "n \<le> length F"
  shows "distinct (fst (alloc_n alloc n s)) \<and> None \<notin> set (fst (alloc_n alloc n s))"
proof -
  have "distinct (take n F)" using inv_distinct [OF assms(1)] by simp
  then show ?thesis using alloc_n_take [OF assms] by (auto simp: distinct_map)
qed

lemma alloc_release:
  assumes "inv s F" and "i \<notin> set F" and "usable s i"
  shows "fst (alloc (release i s)) = Some i \<and> inv (snd (alloc (release i s))) F"
  using release_inv [OF assms] alloc_fst alloc_inv by blast

end

end
