(* ===== verification/Om_Error.thy ===== *)
theory Om_Error
  imports Prelude
begin

text \<open>
  The error codes of \<^verbatim>\<open>include/openmatch/om_error.h\<close>.  A C function that returns an
  \<^verbatim>\<open>int\<close> status is modelled by a function into \<open>OmError\<close>, with \<open>OM_OK\<close> for 0; the
  integer values and the diagnostic strings are those of the header.
\<close>

datatype (plugins only: code size) OmError =
    OM_OK
  | OM_ERR_NULL_PARAM
  | OM_ERR_INVALID_PARAM
  | OM_ERR_ALLOC_FAILED
  | OM_ERR_NOT_FOUND
  | OM_ERR_ALREADY_EXISTS
  | OM_ERR_OUT_OF_RANGE
  | OM_ERR_NOT_SUBSCRIBED
  | OM_ERR_INVALID_STATE
  | OM_ERR_SLAB_INIT
  | OM_ERR_SLAB_FULL
  | OM_ERR_SLAB_INVALID_IDX
  | OM_ERR_SLAB_AUX_ALLOC
  | OM_ERR_WAL_INIT
  | OM_ERR_WAL_OPEN
  | OM_ERR_WAL_WRITE
  | OM_ERR_WAL_READ
  | OM_ERR_WAL_FLUSH
  | OM_ERR_WAL_FSYNC
  | OM_ERR_WAL_CRC_MISMATCH
  | OM_ERR_WAL_INVALID_TYPE
  | OM_ERR_WAL_TRUNCATED
  | OM_ERR_WAL_BUFFER_ALLOC
  | OM_ERR_ORDERBOOK_INIT
  | OM_ERR_ORDERBOOK_FULL
  | OM_ERR_ORDER_NOT_FOUND
  | OM_ERR_PRICE_NOT_FOUND
  | OM_ERR_PRODUCT_ALLOC
  | OM_ERR_ORG_ALLOC
  | OM_ERR_RECOVERY_FAILED
  | OM_ERR_ENGINE_INIT
  | OM_ERR_ENGINE_WAL_INIT
  | OM_ERR_ENGINE_OB_INIT
  | OM_ERR_MATCH_FAILED
  | OM_ERR_RECORD_FAILED
  | OM_ERR_MARKET_INIT
  | OM_ERR_WORKER_INIT
  | OM_ERR_NO_DEALABLE_CB
  | OM_ERR_WORKER_ID_RANGE
  | OM_ERR_HASH_INIT
  | OM_ERR_HASH_PUT
  | OM_ERR_LADDER_ALLOC
  | OM_ERR_LADDER_DIRTY
  | OM_ERR_LADDER_DELTA
  | OM_ERR_ORDERS_ALLOC
  | OM_ERR_INDEX_ALLOC
  | OM_ERR_PRODUCT_OFFSET
  | OM_ERR_PRODUCT_ORGS
  | OM_ERR_PRODUCT_SUBS
  | OM_ERR_ORG_IDS_ALLOC
  | OM_ERR_ORG_INDEX_ALLOC
  | OM_ERR_NO_PUBLIC_MAP
  | OM_ERR_PUBLIC_ALLOC
  | OM_ERR_RING_INIT
  | OM_ERR_RING_NOT_POW2
  | OM_ERR_RING_SLOTS_ALLOC
  | OM_ERR_RING_TAILS_ALLOC
  | OM_ERR_RING_MUTEX_INIT
  | OM_ERR_RING_COND_INIT
  | OM_ERR_RING_CONSUMER_ID
  | OM_ERR_PERF_CONFIG
  | OM_ERR_UNKNOWN

primrec om_error_code :: "OmError \<Rightarrow> int" where
  "om_error_code OM_OK = 0"
| "om_error_code OM_ERR_NULL_PARAM = -1"
| "om_error_code OM_ERR_INVALID_PARAM = -2"
| "om_error_code OM_ERR_ALLOC_FAILED = -3"
| "om_error_code OM_ERR_NOT_FOUND = -4"
| "om_error_code OM_ERR_ALREADY_EXISTS = -5"
| "om_error_code OM_ERR_OUT_OF_RANGE = -6"
| "om_error_code OM_ERR_NOT_SUBSCRIBED = -7"
| "om_error_code OM_ERR_INVALID_STATE = -8"
| "om_error_code OM_ERR_SLAB_INIT = -100"
| "om_error_code OM_ERR_SLAB_FULL = -101"
| "om_error_code OM_ERR_SLAB_INVALID_IDX = -102"
| "om_error_code OM_ERR_SLAB_AUX_ALLOC = -103"
| "om_error_code OM_ERR_WAL_INIT = -200"
| "om_error_code OM_ERR_WAL_OPEN = -201"
| "om_error_code OM_ERR_WAL_WRITE = -202"
| "om_error_code OM_ERR_WAL_READ = -203"
| "om_error_code OM_ERR_WAL_FLUSH = -204"
| "om_error_code OM_ERR_WAL_FSYNC = -205"
| "om_error_code OM_ERR_WAL_CRC_MISMATCH = -206"
| "om_error_code OM_ERR_WAL_INVALID_TYPE = -207"
| "om_error_code OM_ERR_WAL_TRUNCATED = -208"
| "om_error_code OM_ERR_WAL_BUFFER_ALLOC = -209"
| "om_error_code OM_ERR_ORDERBOOK_INIT = -300"
| "om_error_code OM_ERR_ORDERBOOK_FULL = -301"
| "om_error_code OM_ERR_ORDER_NOT_FOUND = -302"
| "om_error_code OM_ERR_PRICE_NOT_FOUND = -303"
| "om_error_code OM_ERR_PRODUCT_ALLOC = -304"
| "om_error_code OM_ERR_ORG_ALLOC = -305"
| "om_error_code OM_ERR_RECOVERY_FAILED = -306"
| "om_error_code OM_ERR_ENGINE_INIT = -400"
| "om_error_code OM_ERR_ENGINE_WAL_INIT = -401"
| "om_error_code OM_ERR_ENGINE_OB_INIT = -402"
| "om_error_code OM_ERR_MATCH_FAILED = -403"
| "om_error_code OM_ERR_RECORD_FAILED = -404"
| "om_error_code OM_ERR_MARKET_INIT = -500"
| "om_error_code OM_ERR_WORKER_INIT = -501"
| "om_error_code OM_ERR_NO_DEALABLE_CB = -502"
| "om_error_code OM_ERR_WORKER_ID_RANGE = -503"
| "om_error_code OM_ERR_HASH_INIT = -504"
| "om_error_code OM_ERR_HASH_PUT = -505"
| "om_error_code OM_ERR_LADDER_ALLOC = -506"
| "om_error_code OM_ERR_LADDER_DIRTY = -507"
| "om_error_code OM_ERR_LADDER_DELTA = -508"
| "om_error_code OM_ERR_ORDERS_ALLOC = -509"
| "om_error_code OM_ERR_INDEX_ALLOC = -510"
| "om_error_code OM_ERR_PRODUCT_OFFSET = -511"
| "om_error_code OM_ERR_PRODUCT_ORGS = -512"
| "om_error_code OM_ERR_PRODUCT_SUBS = -513"
| "om_error_code OM_ERR_ORG_IDS_ALLOC = -514"
| "om_error_code OM_ERR_ORG_INDEX_ALLOC = -515"
| "om_error_code OM_ERR_NO_PUBLIC_MAP = -516"
| "om_error_code OM_ERR_PUBLIC_ALLOC = -517"
| "om_error_code OM_ERR_RING_INIT = -600"
| "om_error_code OM_ERR_RING_NOT_POW2 = -601"
| "om_error_code OM_ERR_RING_SLOTS_ALLOC = -602"
| "om_error_code OM_ERR_RING_TAILS_ALLOC = -603"
| "om_error_code OM_ERR_RING_MUTEX_INIT = -604"
| "om_error_code OM_ERR_RING_COND_INIT = -605"
| "om_error_code OM_ERR_RING_CONSUMER_ID = -606"
| "om_error_code OM_ERR_PERF_CONFIG = -700"
| "om_error_code OM_ERR_UNKNOWN = -999"

primrec om_error_string :: "OmError \<Rightarrow> string" where
  "om_error_string OM_OK = ''Success''"
| "om_error_string OM_ERR_NULL_PARAM = ''NULL parameter''"
| "om_error_string OM_ERR_INVALID_PARAM = ''Invalid parameter''"
| "om_error_string OM_ERR_ALLOC_FAILED = ''Memory allocation failed''"
| "om_error_string OM_ERR_NOT_FOUND = ''Not found''"
| "om_error_string OM_ERR_ALREADY_EXISTS = ''Already exists''"
| "om_error_string OM_ERR_OUT_OF_RANGE = ''Out of range''"
| "om_error_string OM_ERR_NOT_SUBSCRIBED = ''Not subscribed''"
| "om_error_string OM_ERR_INVALID_STATE = ''Invalid state''"
| "om_error_string OM_ERR_SLAB_INIT = ''Slab initialization failed''"
| "om_error_string OM_ERR_SLAB_FULL = ''Slab full''"
| "om_error_string OM_ERR_SLAB_INVALID_IDX = ''Invalid slot index''"
| "om_error_string OM_ERR_SLAB_AUX_ALLOC = ''Aux slab allocation failed''"
| "om_error_string OM_ERR_WAL_INIT = ''WAL initialization failed''"
| "om_error_string OM_ERR_WAL_OPEN = ''WAL file open failed''"
| "om_error_string OM_ERR_WAL_WRITE = ''WAL write failed''"
| "om_error_string OM_ERR_WAL_READ = ''WAL read failed''"
| "om_error_string OM_ERR_WAL_FLUSH = ''WAL flush failed''"
| "om_error_string OM_ERR_WAL_FSYNC = ''WAL fsync failed''"
| "om_error_string OM_ERR_WAL_CRC_MISMATCH = ''WAL CRC32 mismatch''"
| "om_error_string OM_ERR_WAL_INVALID_TYPE = ''Invalid WAL record type''"
| "om_error_string OM_ERR_WAL_TRUNCATED = ''WAL record truncated''"
| "om_error_string OM_ERR_WAL_BUFFER_ALLOC = ''WAL buffer allocation failed''"
| "om_error_string OM_ERR_ORDERBOOK_INIT = ''Orderbook initialization failed''"
| "om_error_string OM_ERR_ORDERBOOK_FULL = ''Orderbook full''"
| "om_error_string OM_ERR_ORDER_NOT_FOUND = ''Order not found''"
| "om_error_string OM_ERR_PRICE_NOT_FOUND = ''Price level not found''"
| "om_error_string OM_ERR_PRODUCT_ALLOC = ''Product array allocation failed''"
| "om_error_string OM_ERR_ORG_ALLOC = ''Org heads allocation failed''"
| "om_error_string OM_ERR_RECOVERY_FAILED = ''WAL recovery failed''"
| "om_error_string OM_ERR_ENGINE_INIT = ''Engine initialization failed''"
| "om_error_string OM_ERR_ENGINE_WAL_INIT = ''Engine WAL init failed''"
| "om_error_string OM_ERR_ENGINE_OB_INIT = ''Engine orderbook init failed''"
| "om_error_string OM_ERR_MATCH_FAILED = ''Matching failed''"
| "om_error_string OM_ERR_RECORD_FAILED = ''Order recording failed''"
| "om_error_string OM_ERR_MARKET_INIT = ''Market initialization failed''"
| "om_error_string OM_ERR_WORKER_INIT = ''Worker initialization failed''"
| "om_error_string OM_ERR_NO_DEALABLE_CB = ''No dealable callback''"
| "om_error_string OM_ERR_WORKER_ID_RANGE = ''Worker ID out of range''"
| "om_error_string OM_ERR_HASH_INIT = ''Hash table init failed''"
| "om_error_string OM_ERR_HASH_PUT = ''Hash table put failed''"
| "om_error_string OM_ERR_LADDER_ALLOC = ''Ladder allocation failed''"
| "om_error_string OM_ERR_LADDER_DIRTY = ''Ladder dirty alloc failed''"
| "om_error_string OM_ERR_LADDER_DELTA = ''Ladder delta alloc failed''"
| "om_error_string OM_ERR_ORDERS_ALLOC = ''Orders array alloc failed''"
| "om_error_string OM_ERR_INDEX_ALLOC = ''Index array alloc failed''"
| "om_error_string OM_ERR_PRODUCT_OFFSET = ''Product offsets alloc failed''"
| "om_error_string OM_ERR_PRODUCT_ORGS = ''Product orgs alloc failed''"
| "om_error_string OM_ERR_PRODUCT_SUBS = ''Product subs alloc failed''"
| "om_error_string OM_ERR_ORG_IDS_ALLOC = ''Org IDs alloc failed''"
| "om_error_string OM_ERR_ORG_INDEX_ALLOC = ''Org index map alloc failed''"
| "om_error_string OM_ERR_NO_PUBLIC_MAP = ''No public worker map''"
| "om_error_string OM_ERR_PUBLIC_ALLOC = ''Public products alloc failed''"
| "om_error_string OM_ERR_RING_INIT = ''Ring buffer init failed''"
| "om_error_string OM_ERR_RING_NOT_POW2 = ''Ring capacity not power of 2''"
| "om_error_string OM_ERR_RING_SLOTS_ALLOC = ''Ring slots alloc failed''"
| "om_error_string OM_ERR_RING_TAILS_ALLOC = ''Ring tails alloc failed''"
| "om_error_string OM_ERR_RING_MUTEX_INIT = ''Ring mutex init failed''"
| "om_error_string OM_ERR_RING_COND_INIT = ''Ring cond init failed''"
| "om_error_string OM_ERR_RING_CONSUMER_ID = ''Invalid consumer index''"
| "om_error_string OM_ERR_PERF_CONFIG = ''Perf config validation failed''"
| "om_error_string OM_ERR_UNKNOWN = ''Unknown error''"

lemma om_error_code_neg: "e \<noteq> OM_OK \<Longrightarrow> om_error_code e < 0"
  by (cases e) simp_all

end
