(* ===== verification/Hash.thy ===== *)
theory Hash
  imports Om_Error
begin

text \<open>
  The order hash map of \<^verbatim>\<open>include/openmatch/om_hash.h\<close> and \<^verbatim>\<open>src/om_hash_khash.c\<close>.

  The table itself is klib's \<^verbatim>\<open>khash\<close>, a third-party header: its operations are the fields of a
  \<open>khash_ops\<close> record over an abstract table type, and \<open>khash_ok\<close> states what klib documents
  about them.  The market data workers use the same record at other key and value types.
\<close>

section \<open>The operations of khash\<close>

text \<open>
  An iterator is what \<^verbatim>\<open>kh_get\<close> and \<^verbatim>\<open>kh_put\<close> return; \<open>None\<close> from \<open>kh_get\<close> is \<^verbatim>\<open>kh_end\<close>.
  \<open>None\<close> from \<open>kh_init\<close>, \<open>kh_resize\<close> and \<open>kh_put\<close> is an allocation failure, and the boolean
  of \<open>kh_put\<close> says that the key was not present (\<^verbatim>\<open>ret > 0\<close>).
\<close>

record ('h, 'k, 'i, 'v) khash_ops =
  kh_init :: "'h option"
  kh_resize :: "'h \<Rightarrow> nat \<Rightarrow> 'h option"
  kh_get :: "'h \<Rightarrow> 'k \<Rightarrow> 'i option"
  kh_put :: "'h \<Rightarrow> 'k \<Rightarrow> ('h \<times> 'i \<times> bool) option"
  kh_value :: "'h \<Rightarrow> 'i \<Rightarrow> 'v"
  kh_set_value :: "'h \<Rightarrow> 'i \<Rightarrow> 'v \<Rightarrow> 'h"
  kh_del :: "'h \<Rightarrow> 'i \<Rightarrow> 'h"
  kh_size :: "'h \<Rightarrow> nat"

definition kh_map :: "('h, 'k, 'i, 'v) khash_ops \<Rightarrow> 'h \<Rightarrow> 'k \<Rightarrow> 'v option" where
  "kh_map K h k = map_option (kh_value K h) (kh_get K h k)"

definition khash_ok :: "('h, 'k, 'i, 'v) khash_ops \<Rightarrow> bool" where
  "khash_ok K \<longleftrightarrow>
     (\<forall>h k. kh_init K = Some h \<longrightarrow> kh_get K h k = None) \<and>
     (\<forall>h n h' k. kh_resize K h n = Some h' \<longrightarrow> kh_map K h' k = kh_map K h k) \<and>
     (\<forall>h k h' it fresh k'. kh_put K h k = Some (h', it, fresh) \<longrightarrow>
        kh_get K h' k = Some it \<and> (fresh \<longleftrightarrow> kh_get K h k = None) \<and>
        (k' \<noteq> k \<or> \<not> fresh \<longrightarrow> kh_map K h' k' = kh_map K h k')) \<and>
     (\<forall>h k it v k'. kh_get K h k = Some it \<longrightarrow>
        kh_map K (kh_set_value K h it v) k' = (if k' = k then Some v else kh_map K h k')) \<and>
     (\<forall>h k it k'. kh_get K h k = Some it \<longrightarrow>
        kh_map K (kh_del K h it) k' = (if k' = k then None else kh_map K h k')) \<and>
     (\<forall>h. kh_size K h = card (dom (kh_map K h)))"

lemma khash_okD:
  assumes "khash_ok K"
  shows "kh_init K = Some h \<Longrightarrow> kh_get K h k = None"
    and "kh_resize K h n = Some h' \<Longrightarrow> kh_map K h' k = kh_map K h k"
    and "kh_put K h k = Some (h', it, fresh) \<Longrightarrow> kh_get K h' k = Some it"
    and "kh_put K h k = Some (h', it, fresh) \<Longrightarrow> fresh \<longleftrightarrow> kh_get K h k = None"
    and "kh_put K h k = Some (h', it, fresh) \<Longrightarrow> k' \<noteq> k \<or> \<not> fresh \<Longrightarrow> kh_map K h' k' = kh_map K h k'"
    and "kh_get K h k = Some it \<Longrightarrow>
      kh_map K (kh_set_value K h it v) k' = (if k' = k then Some v else kh_map K h k')"
    and "kh_get K h k = Some it \<Longrightarrow> kh_map K (kh_del K h it) k' = (if k' = k then None else kh_map K h k')"
    and "kh_size K h = card (dom (kh_map K h))"
  using assms unfolding khash_ok_def by metis+

section \<open>The order map\<close>

record OmOrderEntry =
  slot_idx :: nat
  product_id :: u16

text \<open>The boolean is the outcome of the \<^verbatim>\<open>calloc\<close> of the map structure.\<close>

definition om_hash_create :: "('h, u64, 'i, OmOrderEntry) khash_ops \<Rightarrow> bool \<Rightarrow> nat \<Rightarrow> 'h option" where
  "om_hash_create K alloc_map initial_capacity =
     (if \<not> alloc_map then None
      else case kh_init K of None \<Rightarrow> None | Some h \<Rightarrow>
        if 0 < initial_capacity
        then (case kh_resize K h initial_capacity of None \<Rightarrow> None | Some h' \<Rightarrow> Some h')
        else Some h)"

definition om_hash_insert :: "('h, u64, 'i, OmOrderEntry) khash_ops \<Rightarrow> 'h \<Rightarrow> u64 \<Rightarrow> OmOrderEntry \<Rightarrow> bool \<times> 'h" where
  "om_hash_insert K h key val =
     (case kh_put K h key of None \<Rightarrow> (False, h)
      | Some (h', k, _) \<Rightarrow> (True, kh_set_value K h' k val))"

definition om_hash_get :: "('h, u64, 'i, OmOrderEntry) khash_ops \<Rightarrow> 'h \<Rightarrow> u64 \<Rightarrow> OmOrderEntry option" where
  "om_hash_get K h key = (case kh_get K h key of None \<Rightarrow> None | Some k \<Rightarrow> Some (kh_value K h k))"

definition om_hash_remove :: "('h, u64, 'i, OmOrderEntry) khash_ops \<Rightarrow> 'h \<Rightarrow> u64 \<Rightarrow> bool \<times> 'h" where
  "om_hash_remove K h key = (case kh_get K h key of None \<Rightarrow> (False, h) | Some k \<Rightarrow> (True, kh_del K h k))"

definition om_hash_contains :: "('h, u64, 'i, OmOrderEntry) khash_ops \<Rightarrow> 'h \<Rightarrow> u64 \<Rightarrow> bool" where
  "om_hash_contains K h key \<longleftrightarrow> kh_get K h key \<noteq> None"

definition om_hash_size :: "('h, u64, 'i, OmOrderEntry) khash_ops \<Rightarrow> 'h \<Rightarrow> nat" where
  "om_hash_size K h = kh_size K h"

section \<open>Lookup after each operation\<close>

text \<open>A table kept as a function, which meets the contract: the instance of the witnesses.\<close>

definition fun_khash :: "'v \<Rightarrow> ('k \<Rightarrow> 'v option, 'k, 'k, 'v) khash_ops" where
  "fun_khash d = \<lparr>kh_init = Some (\<lambda>_. None), kh_resize = (\<lambda>h _. Some h),
     kh_get = (\<lambda>h k. if h k = None then None else Some k),
     kh_put = (\<lambda>h k. Some (if h k = None then h(k \<mapsto> d) else h, k, h k = None)),
     kh_value = (\<lambda>h k. the (h k)), kh_set_value = (\<lambda>h k v. h(k \<mapsto> v)),
     kh_del = (\<lambda>h k. h(k := None)), kh_size = (\<lambda>h. card (dom h))\<rparr>"

lemma kh_map_fun_khash [simp]: "kh_map (fun_khash d) h = h"
  by (auto simp: kh_map_def fun_khash_def)

lemma khash_ok_fun: "khash_ok (fun_khash d)"
  unfolding khash_ok_def by (simp only: kh_map_fun_khash) (auto simp: fun_khash_def split: if_splits)

lemma om_hash_get_map: "om_hash_get K h k = kh_map K h k"
  by (simp add: om_hash_get_def kh_map_def split: option.splits)

lemma om_hash_insert_get:
  assumes "khash_ok K" and "om_hash_insert K h k v = (True, h')"
  shows "om_hash_get K h' = (om_hash_get K h)(k \<mapsto> v)"
proof (rule ext)
  fix k'
  from assms(2) obtain h1 it fr where p: "kh_put K h k = Some (h1, it, fr)" and h': "h' = kh_set_value K h1 it v"
    by (auto simp: om_hash_insert_def split: option.splits)
  note g = khash_okD(3,5) [OF assms(1) p]
  then have "kh_map K (kh_set_value K h1 it v) k' = (if k' = k then Some v else kh_map K h1 k')"
    using khash_okD(6) [OF assms(1)] by blast
  with g(2) show "om_hash_get K h' k' = ((om_hash_get K h)(k \<mapsto> v)) k'"
    by (simp add: om_hash_get_map h')
qed

lemma om_hash_insert_fail: "om_hash_insert K h k v = (False, h') \<Longrightarrow> h' = h"
  by (auto simp: om_hash_insert_def split: option.splits)

lemma om_hash_remove_get:
  assumes "khash_ok K"
  shows "om_hash_get K (snd (om_hash_remove K h k)) = (om_hash_get K h)(k := None)"
proof (cases "kh_get K h k")
  case None
  then show ?thesis by (auto simp: om_hash_remove_def om_hash_get_def fun_eq_iff)
next
  case (Some it)
  then have "kh_map K (kh_del K h it) k' = (if k' = k then None else kh_map K h k')" for k'
    using khash_okD(7) [OF assms] by blast
  with Some show ?thesis by (auto simp: om_hash_remove_def om_hash_get_map fun_eq_iff)
qed

lemma om_hash_create_get:
  assumes "khash_ok K" and "om_hash_create K a n = Some h"
  shows "om_hash_get K h = (\<lambda>_. None)"
proof (rule ext)
  fix k
  from assms(2) obtain h0 where h0: "kh_init K = Some h0"
    and h: "h = h0 \<or> kh_resize K h0 n = Some h"
    by (auto simp: om_hash_create_def split: if_splits option.splits)
  from khash_okD(1) [OF assms(1) h0] have "kh_map K h0 k = None" by (simp add: kh_map_def)
  moreover have "kh_map K h k = kh_map K h0 k" using h
  proof
    assume "kh_resize K h0 n = Some h"
    then show ?thesis by (rule khash_okD(2) [OF assms(1)])
  qed simp
  ultimately show "om_hash_get K h k = None" by (simp add: om_hash_get_map)
qed

lemma om_hash_remove_fst: "fst (om_hash_remove K h k) \<longleftrightarrow> om_hash_contains K h k"
  by (simp add: om_hash_remove_def om_hash_contains_def split: option.splits)

end
