(* ===== verification/Slab.thy ===== *)
theory Slab
  imports Om_Error
begin

text \<open>
  The dual slab allocator of \<^verbatim>\<open>include/openmatch/om_slab.h\<close> and \<^verbatim>\<open>src/om_slab.c\<close>: order slots
  with four pairs of intrusive links each (slab A), the cold data block that follows them
  slot by slot (slab B), the two free lists, order-id generation and the queue primitives.

  A pointer to a slot is modelled by the slot's index; \<open>idx_to_slot_a\<close> and
  \<open>slot_to_idx_a\<close> are the conversions between an index and the byte offset of a slot, and
  \<open>slot_idx_roundtrip\<close> shows that the two representations agree.  Indices are natural
  numbers below \<open>2^32\<close> and only ever stored and compared; \<open>OM_SLOT_IDX_NULL\<close> is the C
  constant.  Slot memory is a function from index to slot, of which the first
  \<open>capacity\<close> entries are the allocated array.
\<close>

unbundle bit_operations_syntax

section \<open>Constants and flags\<close>

abbreviation OM_SLOT_IDX_NULL :: nat where
  "OM_SLOT_IDX_NULL \<equiv> UINT32_MAX"

definition OM_SIDE_BID :: u16 where "OM_SIDE_BID = 0x0000"
definition OM_SIDE_ASK :: u16 where "OM_SIDE_ASK = 0x0001"
definition OM_SIDE_MASK :: u16 where "OM_SIDE_MASK = 0x0001"
definition OM_TYPE_MASK :: u16 where "OM_TYPE_MASK = 0x001E"
definition OM_STATUS_NEW :: u16 where "OM_STATUS_NEW = 0x0000"
definition OM_STATUS_DEACTIVATED :: u16 where "OM_STATUS_DEACTIVATED = 0x00A0"
definition OM_STATUS_MASK :: u16 where "OM_STATUS_MASK = 0x00E0"

definition OM_TYPE_LIMIT :: u16 where "OM_TYPE_LIMIT = 0x0000"
definition OM_TYPE_MARKET :: u16 where "OM_TYPE_MARKET = 0x0002"
definition OM_TYPE_IOC :: u16 where "OM_TYPE_IOC = 0x0004"
definition OM_TYPE_FOK :: u16 where "OM_TYPE_FOK = 0x0006"
definition OM_TYPE_GTC :: u16 where "OM_TYPE_GTC = 0x0008"

definition OM_SET_SIDE :: "u16 \<Rightarrow> u16 \<Rightarrow> u16" where
  "OM_SET_SIDE flags side = (flags AND NOT OM_SIDE_MASK) OR (side AND OM_SIDE_MASK)"

definition OM_SET_TYPE :: "u16 \<Rightarrow> u16 \<Rightarrow> u16" where
  "OM_SET_TYPE flags ty = (flags AND NOT OM_TYPE_MASK) OR (ty AND OM_TYPE_MASK)"

definition OM_SET_STATUS :: "u16 \<Rightarrow> u16 \<Rightarrow> u16" where
  "OM_SET_STATUS flags status = (flags AND NOT OM_STATUS_MASK) OR (status AND OM_STATUS_MASK)"

definition OM_GET_SIDE :: "u16 \<Rightarrow> u16" where
  "OM_GET_SIDE flags = flags AND OM_SIDE_MASK"

definition OM_GET_TYPE :: "u16 \<Rightarrow> u16" where
  "OM_GET_TYPE flags = flags AND OM_TYPE_MASK"

definition OM_GET_STATUS :: "u16 \<Rightarrow> u16" where
  "OM_GET_STATUS flags = flags AND OM_STATUS_MASK"

definition OM_IS_BID :: "u16 \<Rightarrow> bool" where
  "OM_IS_BID flags \<longleftrightarrow> flags AND OM_SIDE_MASK = OM_SIDE_BID"

definition OM_IS_ASK :: "u16 \<Rightarrow> bool" where
  "OM_IS_ASK flags \<longleftrightarrow> flags AND OM_SIDE_MASK = OM_SIDE_ASK"

section \<open>Slots and slabs\<close>

text \<open>The queue numbers within a slot: internal free list, price ladder, time FIFO, organisation.\<close>

definition OM_Q0_INTERNAL_FREE :: nat where "OM_Q0_INTERNAL_FREE = 0"
definition OM_Q1_PRICE_LADDER :: nat where "OM_Q1_PRICE_LADDER = 1"
definition OM_Q2_TIME_FIFO :: nat where "OM_Q2_TIME_FIFO = 2"
definition OM_Q3_ORG_QUEUE :: nat where "OM_Q3_ORG_QUEUE = 3"

lemma OM_Q_distinct [simp]:
  "OM_Q0_INTERNAL_FREE \<noteq> OM_Q1_PRICE_LADDER" "OM_Q1_PRICE_LADDER \<noteq> OM_Q0_INTERNAL_FREE"
  "OM_Q0_INTERNAL_FREE \<noteq> OM_Q2_TIME_FIFO" "OM_Q2_TIME_FIFO \<noteq> OM_Q0_INTERNAL_FREE"
  "OM_Q0_INTERNAL_FREE \<noteq> OM_Q3_ORG_QUEUE" "OM_Q3_ORG_QUEUE \<noteq> OM_Q0_INTERNAL_FREE"
  "OM_Q1_PRICE_LADDER \<noteq> OM_Q2_TIME_FIFO" "OM_Q2_TIME_FIFO \<noteq> OM_Q1_PRICE_LADDER"
  "OM_Q1_PRICE_LADDER \<noteq> OM_Q3_ORG_QUEUE" "OM_Q3_ORG_QUEUE \<noteq> OM_Q1_PRICE_LADDER"
  "OM_Q2_TIME_FIFO \<noteq> OM_Q3_ORG_QUEUE" "OM_Q3_ORG_QUEUE \<noteq> OM_Q2_TIME_FIFO"
  by (simp_all add: OM_Q0_INTERNAL_FREE_def OM_Q1_PRICE_LADDER_def OM_Q2_TIME_FIFO_def OM_Q3_ORG_QUEUE_def)

record OmIntrusiveNode =
  next_idx :: nat
  prev_idx :: nat

record OmSlabSlot =
  price :: u64
  volume :: u64
  volume_remain :: u64
  org :: u16
  flags :: u16
  order_id :: u32
  queue_nodes :: "nat \<Rightarrow> OmIntrusiveNode"
  user_data :: "u8 list"

record OmSlabA =
  a_free_list_idx :: nat
  a_memory :: "nat \<Rightarrow> OmSlabSlot"
  a_capacity :: nat
  a_used :: u64
  a_slot_size :: u64

record OmSlabB =
  b_block :: "nat \<Rightarrow> u8 list"
  b_block_count :: nat
  b_slots_per_block :: nat
  b_slot_size :: u64
  b_free_list_idx :: nat

record OmSlabConfig =
  cfg_user_data_size :: u64
  cfg_aux_data_size :: u64
  cfg_total_slots :: u32

record OmDualSlab =
  slab_a :: OmSlabA
  slab_b :: OmSlabB
  slab_config :: OmSlabConfig
  next_order_id :: u32

definition align_up :: "u64 \<Rightarrow> u64 \<Rightarrow> u64" where
  "align_up sz align = (sz + align - 1) AND NOT (align - 1)"

text \<open>Byte offset of a slot inside slab memory, and back.\<close>

definition idx_to_slot_a :: "OmSlabA \<Rightarrow> nat \<Rightarrow> int option" where
  "idx_to_slot_a a idx =
     (if idx = OM_SLOT_IDX_NULL \<or> a_capacity a \<le> idx then None
      else Some ((int idx * uint (a_slot_size a)) mod 2 ^ 64))"

definition slot_to_idx_a :: "OmSlabA \<Rightarrow> int \<Rightarrow> nat" where
  "slot_to_idx_a a offset =
     (if offset < 0 \<or> offset mod uint (a_slot_size a) \<noteq> 0 then OM_SLOT_IDX_NULL
      else nat (offset div uint (a_slot_size a)) mod 2 ^ 32)"

text \<open>With slots named by index, \<open>om_slot_from_idx\<close> keeps exactly the two guards.\<close>

definition om_slot_from_idx :: "OmDualSlab \<Rightarrow> nat \<Rightarrow> nat option" where
  "om_slot_from_idx s idx =
     (if idx = OM_SLOT_IDX_NULL then None
      else if a_capacity (slab_a s) \<le> idx then None else Some idx)"

definition slot_at :: "OmDualSlab \<Rightarrow> nat \<Rightarrow> OmSlabSlot" where
  "slot_at s i = a_memory (slab_a s) i"

definition upd_slot :: "nat \<Rightarrow> (OmSlabSlot \<Rightarrow> OmSlabSlot) \<Rightarrow> OmDualSlab \<Rightarrow> OmDualSlab" where
  "upd_slot i f s = s\<lparr>slab_a := (slab_a s)\<lparr>a_memory := (a_memory (slab_a s))(i := f (a_memory (slab_a s) i))\<rparr>\<rparr>"

definition qnext :: "nat \<Rightarrow> OmDualSlab \<Rightarrow> nat \<Rightarrow> nat" where
  "qnext q s i = next_idx (queue_nodes (slot_at s i) q)"

definition qprev :: "nat \<Rightarrow> OmDualSlab \<Rightarrow> nat \<Rightarrow> nat" where
  "qprev q s i = prev_idx (queue_nodes (slot_at s i) q)"

definition set_next :: "nat \<Rightarrow> nat \<Rightarrow> nat \<Rightarrow> OmDualSlab \<Rightarrow> OmDualSlab" where
  "set_next q i v = upd_slot i (\<lambda>sl. sl\<lparr>queue_nodes := (queue_nodes sl)(q := (queue_nodes sl q)\<lparr>next_idx := v\<rparr>)\<rparr>)"

definition set_prev :: "nat \<Rightarrow> nat \<Rightarrow> nat \<Rightarrow> OmDualSlab \<Rightarrow> OmDualSlab" where
  "set_prev q i v = upd_slot i (\<lambda>sl. sl\<lparr>queue_nodes := (queue_nodes sl)(q := (queue_nodes sl q)\<lparr>prev_idx := v\<rparr>)\<rparr>)"

definition om_slot_get_aux_data :: "OmDualSlab \<Rightarrow> nat \<Rightarrow> u8 list" where
  "om_slot_get_aux_data s i = b_block (slab_b s) i"

text \<open>The link of a free aux slot is the \<^verbatim>\<open>uint32_t\<close> at its start.\<close>

definition aux_next :: "OmDualSlab \<Rightarrow> nat \<Rightarrow> nat" where
  "aux_next s i = nat_le (take 4 (b_block (slab_b s) i))"

definition set_aux :: "nat \<Rightarrow> u8 list \<Rightarrow> OmDualSlab \<Rightarrow> OmDualSlab" where
  "set_aux i bs s = s\<lparr>slab_b := (slab_b s)\<lparr>b_block := (b_block (slab_b s))(i := bs)\<rparr>\<rparr>"

definition set_aux_next :: "nat \<Rightarrow> nat \<Rightarrow> OmDualSlab \<Rightarrow> OmDualSlab" where
  "set_aux_next i v s = set_aux i (bytes_le 4 v @ drop 4 (b_block (slab_b s) i)) s"

definition set_a_free :: "nat \<Rightarrow> OmDualSlab \<Rightarrow> OmDualSlab" where
  "set_a_free v s = s\<lparr>slab_a := (slab_a s)\<lparr>a_free_list_idx := v\<rparr>\<rparr>"

definition set_b_free :: "nat \<Rightarrow> OmDualSlab \<Rightarrow> OmDualSlab" where
  "set_b_free v s = s\<lparr>slab_b := (slab_b s)\<lparr>b_free_list_idx := v\<rparr>\<rparr>"

definition set_used :: "(u64 \<Rightarrow> u64) \<Rightarrow> OmDualSlab \<Rightarrow> OmDualSlab" where
  "set_used f s = s\<lparr>slab_a := (slab_a s)\<lparr>a_used := f (a_used (slab_a s))\<rparr>\<rparr>"

text \<open>All four link pairs of a slot reset to NULL.\<close>

definition null_links :: "nat \<Rightarrow> OmIntrusiveNode" where
  "null_links = (\<lambda>_. \<lparr>next_idx = OM_SLOT_IDX_NULL, prev_idx = OM_SLOT_IDX_NULL\<rparr>)"

section \<open>Allocation\<close>

definition zero_slot :: "nat \<Rightarrow> OmSlabSlot" where
  "zero_slot n = \<lparr>price = 0, volume = 0, volume_remain = 0, org = 0, flags = 0, order_id = 0,
     queue_nodes = (\<lambda>_. \<lparr>next_idx = 0, prev_idx = 0\<rparr>), user_data = replicate n 0\<rparr>"

text \<open>One turn of the loop that threads slot \<open>i\<close> into the free list of slab A.\<close>

definition init_a_step :: "nat \<Rightarrow> OmDualSlab \<Rightarrow> OmDualSlab" where
  "init_a_step i s =
     set_a_free i (set_next OM_Q0_INTERNAL_FREE i (a_free_list_idx (slab_a s))
       (upd_slot i (\<lambda>sl. sl\<lparr>queue_nodes := null_links\<rparr>) s))"

definition init_b_step :: "nat \<Rightarrow> OmDualSlab \<Rightarrow> OmDualSlab" where
  "init_b_step i s = set_aux_next i (if i = 0 then OM_SLOT_IDX_NULL else i - 1) s"

text \<open>
  Initialisation; the three booleans are the outcomes of the three \<^verbatim>\<open>calloc\<close> calls.  A slot
  header is 64 bytes (\<^verbatim>\<open>sizeof(OmSlabSlot)\<close>); \<open>slab_blank\<close> is the state before the two loops.
\<close>

definition slab_blank :: "OmSlabConfig \<Rightarrow> OmDualSlab" where
  "slab_blank config =
     (let n = unat (cfg_total_slots config);
          bs0 = align_up (cfg_aux_data_size config) 8;
          bs = (if bs0 = 0 then 8 else bs0)
      in \<lparr>slab_a = \<lparr>a_free_list_idx = OM_SLOT_IDX_NULL,
              a_memory = (\<lambda>_. zero_slot (unat (cfg_user_data_size config))),
              a_capacity = n, a_used = 0,
              a_slot_size = 64 + align_up (cfg_user_data_size config) 8\<rparr>,
            slab_b = \<lparr>b_block = (\<lambda>_. replicate (unat bs) 0), b_block_count = 1,
              b_slots_per_block = n, b_slot_size = bs, b_free_list_idx = OM_SLOT_IDX_NULL\<rparr>,
            slab_config = config, next_order_id = 0\<rparr>)"

definition om_slab_init :: "OmSlabConfig \<Rightarrow> bool \<Rightarrow> bool \<Rightarrow> bool \<Rightarrow> OmError + OmDualSlab" where
  "om_slab_init config alloc_a alloc_block alloc_blocks =
     (let n = unat (cfg_total_slots config);
          s1 = fold init_a_step [0..<n] (slab_blank config);
          s2 = set_b_free (n - 1) (fold init_b_step [0..<n] s1)
      in if cfg_total_slots config = 0 then Inl OM_ERR_INVALID_PARAM
         else if \<not> alloc_a then Inl OM_ERR_ALLOC_FAILED
         else if \<not> alloc_block then Inl OM_ERR_SLAB_AUX_ALLOC
         else if \<not> alloc_blocks then Inl OM_ERR_SLAB_AUX_ALLOC
         else Inr (s2\<lparr>next_order_id := 1\<rparr>))"

text \<open>Destruction frees the memory and zeroes the structure; afterwards no index is a slot.\<close>

definition om_slab_destroy :: "OmDualSlab \<Rightarrow> OmDualSlab" where
  "om_slab_destroy s =
     \<lparr>slab_a = \<lparr>a_free_list_idx = 0, a_memory = (\<lambda>_. zero_slot 0), a_capacity = 0, a_used = 0, a_slot_size = 0\<rparr>,
      slab_b = \<lparr>b_block = (\<lambda>_. []), b_block_count = 0, b_slots_per_block = 0, b_slot_size = 0, b_free_list_idx = 0\<rparr>,
      slab_config = \<lparr>cfg_user_data_size = 0, cfg_aux_data_size = 0, cfg_total_slots = 0\<rparr>,
      next_order_id = 0\<rparr>"

definition om_slab_alloc :: "OmDualSlab \<Rightarrow> nat option \<times> OmDualSlab" where
  "om_slab_alloc s =
     (if a_free_list_idx (slab_a s) = OM_SLOT_IDX_NULL then (None, s)
      else let idx = a_free_list_idx (slab_a s) in
        case om_slot_from_idx s idx of None \<Rightarrow> (None, s) | Some slot \<Rightarrow>
          let s1 = set_a_free (qnext OM_Q0_INTERNAL_FREE s slot) s;
              undo = set_a_free idx (set_next OM_Q0_INTERNAL_FREE slot (a_free_list_idx (slab_a s1)) s1)
          in if b_free_list_idx (slab_b s1) = OM_SLOT_IDX_NULL then (None, undo)
             else if b_free_list_idx (slab_b s1) \<noteq> idx then (None, undo)
             else let s2 = set_b_free (aux_next s1 idx) s1;
                      s3 = upd_slot slot (\<lambda>sl. sl\<lparr>price := 0, volume := 0, volume_remain := 0, org := 0,
                             flags := 0, order_id := 0xFFFFFFFF, queue_nodes := null_links\<rparr>) s2;
                      s4 = set_aux idx (replicate (unat (b_slot_size (slab_b s3))) 0) s3
                  in (Some slot, set_used (\<lambda>u. u + 1) s4))"

definition om_slab_free :: "OmDualSlab \<Rightarrow> nat \<Rightarrow> OmDualSlab" where
  "om_slab_free s slot =
     (if slot = OM_SLOT_IDX_NULL then s
      else let s1 = upd_slot slot (\<lambda>sl. sl\<lparr>queue_nodes := null_links\<rparr>) s;
               s2 = set_next OM_Q0_INTERNAL_FREE slot (a_free_list_idx (slab_a s1)) s1;
               s3 = set_used (\<lambda>u. u - 1) (set_a_free slot s2);
               s4 = set_aux_next slot (b_free_list_idx (slab_b s3)) s3
           in set_b_free slot s4)"

definition om_slab_next_order_id :: "OmDualSlab \<Rightarrow> u32 \<times> OmDualSlab" where
  "om_slab_next_order_id s =
     (if next_order_id s = 0 then (0, s)
      else (next_order_id s, s\<lparr>next_order_id := next_order_id s + 1\<rparr>))"

section \<open>Queue primitives\<close>

definition om_queue_is_linked :: "OmDualSlab \<Rightarrow> nat \<Rightarrow> nat \<Rightarrow> bool" where
  "om_queue_is_linked s slot q \<longleftrightarrow> qnext q s slot \<noteq> OM_SLOT_IDX_NULL \<or> qprev q s slot \<noteq> OM_SLOT_IDX_NULL"

definition om_queue_link_after :: "OmDualSlab \<Rightarrow> nat \<Rightarrow> nat \<Rightarrow> nat \<Rightarrow> OmDualSlab" where
  "om_queue_link_after s prev slot q =
     (let nxt = qnext q s prev;
          s1 = set_prev q slot prev s;
          s2 = set_next q slot nxt s1;
          s3 = set_next q prev slot s2
      in if nxt \<noteq> OM_SLOT_IDX_NULL
         then (case om_slot_from_idx s3 nxt of None \<Rightarrow> s3 | Some n \<Rightarrow> set_prev q n slot s3)
         else s3)"

definition om_queue_link_before :: "OmDualSlab \<Rightarrow> nat \<Rightarrow> nat \<Rightarrow> nat \<Rightarrow> OmDualSlab" where
  "om_queue_link_before s nxt slot q =
     (let prv = qprev q s nxt;
          s1 = set_next q slot nxt s;
          s2 = set_prev q slot prv s1;
          s3 = set_prev q nxt slot s2
      in if prv \<noteq> OM_SLOT_IDX_NULL
         then (case om_slot_from_idx s3 prv of None \<Rightarrow> s3 | Some p \<Rightarrow> set_next q p slot s3)
         else s3)"

definition om_queue_unlink :: "OmDualSlab \<Rightarrow> nat \<Rightarrow> nat \<Rightarrow> bool \<times> OmDualSlab" where
  "om_queue_unlink s slot q =
     (let nxt = qnext q s slot; prv = qprev q s slot
      in if nxt = OM_SLOT_IDX_NULL \<and> prv = OM_SLOT_IDX_NULL then (False, s)
         else let s1 = (if prv \<noteq> OM_SLOT_IDX_NULL
                        then (case om_slot_from_idx s prv of None \<Rightarrow> s | Some p \<Rightarrow> set_next q p nxt s)
                        else s);
                  s2 = (if nxt \<noteq> OM_SLOT_IDX_NULL
                        then (case om_slot_from_idx s1 nxt of None \<Rightarrow> s1 | Some n \<Rightarrow> set_prev q n prv s1)
                        else s1)
              in (True, set_prev q slot OM_SLOT_IDX_NULL (set_next q slot OM_SLOT_IDX_NULL s2)))"

section \<open>Reading after writing\<close>

text \<open>
  Every write above touches one slot or one field; the equations below say what each read
  returns after it.  They are the simplification rules of all later proofs.
\<close>

lemma slot_at_upd [simp]:
  "slot_at (upd_slot i f s) = (slot_at s)(i := f (slot_at s i))"
  by (rule ext) (simp add: slot_at_def upd_slot_def)

lemma upd_slot_frame [simp]:
  "a_free_list_idx (slab_a (upd_slot i f s)) = a_free_list_idx (slab_a s)"
  "a_capacity (slab_a (upd_slot i f s)) = a_capacity (slab_a s)"
  "a_used (slab_a (upd_slot i f s)) = a_used (slab_a s)"
  "a_slot_size (slab_a (upd_slot i f s)) = a_slot_size (slab_a s)"
  "slab_b (upd_slot i f s) = slab_b s"
  "slab_config (upd_slot i f s) = slab_config s"
  "next_order_id (upd_slot i f s) = next_order_id s"
  by (simp_all add: upd_slot_def)

lemma set_a_free_frame [simp]:
  "slot_at (set_a_free v s) = slot_at s"
  "a_free_list_idx (slab_a (set_a_free v s)) = v"
  "a_capacity (slab_a (set_a_free v s)) = a_capacity (slab_a s)"
  "a_used (slab_a (set_a_free v s)) = a_used (slab_a s)"
  "a_slot_size (slab_a (set_a_free v s)) = a_slot_size (slab_a s)"
  "slab_b (set_a_free v s) = slab_b s"
  "slab_config (set_a_free v s) = slab_config s"
  "next_order_id (set_a_free v s) = next_order_id s"
  by (auto simp: set_a_free_def slot_at_def)

lemma set_used_frame [simp]:
  "slot_at (set_used f s) = slot_at s"
  "a_free_list_idx (slab_a (set_used f s)) = a_free_list_idx (slab_a s)"
  "a_capacity (slab_a (set_used f s)) = a_capacity (slab_a s)"
  "a_used (slab_a (set_used f s)) = f (a_used (slab_a s))"
  "a_slot_size (slab_a (set_used f s)) = a_slot_size (slab_a s)"
  "slab_b (set_used f s) = slab_b s"
  "slab_config (set_used f s) = slab_config s"
  "next_order_id (set_used f s) = next_order_id s"
  by (auto simp: set_used_def slot_at_def)

lemma set_b_frame [simp]:
  "slab_a (set_b_free v s) = slab_a s"
  "slot_at (set_b_free v s) = slot_at s"
  "b_free_list_idx (slab_b (set_b_free v s)) = v"
  "b_block (slab_b (set_b_free v s)) = b_block (slab_b s)"
  "b_slot_size (slab_b (set_b_free v s)) = b_slot_size (slab_b s)"
  "slab_config (set_b_free v s) = slab_config s"
  "next_order_id (set_b_free v s) = next_order_id s"
  "slab_a (set_aux i bs s) = slab_a s"
  "slot_at (set_aux i bs s) = slot_at s"
  "b_free_list_idx (slab_b (set_aux i bs s)) = b_free_list_idx (slab_b s)"
  "b_block (slab_b (set_aux i bs s)) = (b_block (slab_b s))(i := bs)"
  "b_slot_size (slab_b (set_aux i bs s)) = b_slot_size (slab_b s)"
  "slab_config (set_aux i bs s) = slab_config s"
  "next_order_id (set_aux i bs s) = next_order_id s"
  by (auto simp: set_b_free_def set_aux_def slot_at_def)

lemma qlinks_frame [simp]:
  "qnext q (set_a_free v s) = qnext q s" "qprev q (set_a_free v s) = qprev q s"
  "qnext q (set_used f s) = qnext q s" "qprev q (set_used f s) = qprev q s"
  "qnext q (set_b_free v s) = qnext q s" "qprev q (set_b_free v s) = qprev q s"
  "qnext q (set_aux i bs s) = qnext q s" "qprev q (set_aux i bs s) = qprev q s"
  by (auto simp: qnext_def qprev_def)

lemma aux_next_frame [simp]:
  "aux_next (upd_slot i f s) = aux_next s"
  "aux_next (set_a_free v s) = aux_next s"
  "aux_next (set_used h s) = aux_next s"
  "aux_next (set_b_free v s) = aux_next s"
  "aux_next (set_next q i v s) = aux_next s"
  "aux_next (set_prev q i v s) = aux_next s"
  by (auto simp: aux_next_def set_next_def set_prev_def)

lemma set_links_frame [simp]:
  "a_free_list_idx (slab_a (set_next q i v s)) = a_free_list_idx (slab_a s)"
  "a_capacity (slab_a (set_next q i v s)) = a_capacity (slab_a s)"
  "a_used (slab_a (set_next q i v s)) = a_used (slab_a s)"
  "a_slot_size (slab_a (set_next q i v s)) = a_slot_size (slab_a s)"
  "slab_b (set_next q i v s) = slab_b s"
  "slab_config (set_next q i v s) = slab_config s"
  "next_order_id (set_next q i v s) = next_order_id s"
  "a_free_list_idx (slab_a (set_prev q i v s)) = a_free_list_idx (slab_a s)"
  "a_capacity (slab_a (set_prev q i v s)) = a_capacity (slab_a s)"
  "a_used (slab_a (set_prev q i v s)) = a_used (slab_a s)"
  "a_slot_size (slab_a (set_prev q i v s)) = a_slot_size (slab_a s)"
  "slab_b (set_prev q i v s) = slab_b s"
  "slab_config (set_prev q i v s) = slab_config s"
  "next_order_id (set_prev q i v s) = next_order_id s"
  by (simp_all add: set_next_def set_prev_def)

lemma set_next_links [simp]:
  "qnext q' (set_next q i v s) = (if q' = q then (qnext q s)(i := v) else qnext q' s)"
  "qprev q' (set_next q i v s) = qprev q' s"
  by (auto simp: set_next_def qnext_def qprev_def fun_eq_iff)

lemma set_prev_links [simp]:
  "qprev q' (set_prev q i v s) = (if q' = q then (qprev q s)(i := v) else qprev q' s)"
  "qnext q' (set_prev q i v s) = qnext q' s"
  by (auto simp: set_prev_def qnext_def qprev_def fun_eq_iff)

text \<open>The order fields of a slot, which no queue operation touches.\<close>

definition core :: "OmSlabSlot \<Rightarrow> u64 \<times> u64 \<times> u64 \<times> u16 \<times> u16 \<times> u32 \<times> u8 list" where
  "core sl = (price sl, volume sl, volume_remain sl, org sl, flags sl, order_id sl, user_data sl)"

lemma core_eqD:
  assumes "core x = core y"
  shows "price x = price y" "volume x = volume y" "volume_remain x = volume_remain y"
    "org x = org y" "flags x = flags y" "order_id x = order_id y" "user_data x = user_data y"
  using assms by (auto simp: core_def)

lemma core_set_links [simp]:
  "core (slot_at (set_next q i v s) j) = core (slot_at s j)"
  "core (slot_at (set_prev q i v s) j) = core (slot_at s j)"
  by (auto simp: core_def set_next_def set_prev_def)

lemmas set_links_fields [simp] =
  core_set_links(1) [THEN core_eqD(1)] core_set_links(1) [THEN core_eqD(2)]
  core_set_links(1) [THEN core_eqD(3)] core_set_links(1) [THEN core_eqD(4)]
  core_set_links(1) [THEN core_eqD(5)] core_set_links(1) [THEN core_eqD(6)]
  core_set_links(1) [THEN core_eqD(7)]
  core_set_links(2) [THEN core_eqD(1)] core_set_links(2) [THEN core_eqD(2)]
  core_set_links(2) [THEN core_eqD(3)] core_set_links(2) [THEN core_eqD(4)]
  core_set_links(2) [THEN core_eqD(5)] core_set_links(2) [THEN core_eqD(6)]
  core_set_links(2) [THEN core_eqD(7)]

lemma om_slot_from_idx_Some [simp]:
  "om_slot_from_idx s i = Some j \<longleftrightarrow> j = i \<and> i \<noteq> OM_SLOT_IDX_NULL \<and> i < a_capacity (slab_a s)"
  by (auto simp: om_slot_from_idx_def)

lemma om_slot_from_idx_cong:
  "a_capacity (slab_a s) = a_capacity (slab_a t) \<Longrightarrow> om_slot_from_idx s i = om_slot_from_idx t i"
  by (simp add: om_slot_from_idx_def)

interpretation slab_queue: intrusive_queue "qnext q" "qprev q" "set_next q" "set_prev q" OM_SLOT_IDX_NULL
  for q
  by unfold_locales simp_all

section \<open>Effect of the queue primitives\<close>

text \<open>A link is in bounds when it is NULL or names a slot.\<close>

definition link_ok :: "OmDualSlab \<Rightarrow> nat \<Rightarrow> bool" where
  "link_ok s i \<longleftrightarrow> i = OM_SLOT_IDX_NULL \<or> i < a_capacity (slab_a s)"

lemma om_slot_from_idx_ok: "link_ok s i \<Longrightarrow> i \<noteq> OM_SLOT_IDX_NULL \<Longrightarrow> om_slot_from_idx s i = Some i"
  by (simp add: link_ok_def)

text \<open>\<open>same_frame s t\<close>: everything but the links of the slots agrees.\<close>

definition same_frame :: "OmDualSlab \<Rightarrow> OmDualSlab \<Rightarrow> bool" where
  "same_frame s t \<longleftrightarrow> (\<forall>j. core (slot_at t j) = core (slot_at s j)) \<and> slab_b t = slab_b s \<and>
     a_capacity (slab_a t) = a_capacity (slab_a s) \<and> a_used (slab_a t) = a_used (slab_a s) \<and>
     a_free_list_idx (slab_a t) = a_free_list_idx (slab_a s) \<and> slab_config t = slab_config s \<and>
     next_order_id t = next_order_id s"

lemma same_frame_refl [simp]: "same_frame s s"
  by (simp add: same_frame_def)

lemma same_frame_trans: "same_frame s t \<Longrightarrow> same_frame t u \<Longrightarrow> same_frame s u"
  by (simp add: same_frame_def)

lemma same_frame_set [simp]:
  "same_frame s (set_next q i v t) = same_frame s t"
  "same_frame s (set_prev q i v t) = same_frame s t"
  by (simp_all add: same_frame_def)

lemma same_frameD:
  assumes "same_frame s t"
  shows "core (slot_at t j) = core (slot_at s j)" "slab_b t = slab_b s"
    "a_capacity (slab_a t) = a_capacity (slab_a s)" "a_used (slab_a t) = a_used (slab_a s)"
    "a_free_list_idx (slab_a t) = a_free_list_idx (slab_a s)"
    "slab_config t = slab_config s" "next_order_id t = next_order_id s"
    "price (slot_at t j) = price (slot_at s j)" "volume_remain (slot_at t j) = volume_remain (slot_at s j)"
    "org (slot_at t j) = org (slot_at s j)" "flags (slot_at t j) = flags (slot_at s j)"
    "order_id (slot_at t j) = order_id (slot_at s j)" "aux_next t = aux_next s"
  using assms by (auto simp: same_frame_def core_def aux_next_def)

lemma queue_ops_frame:
  "same_frame s (om_queue_link_after s p i q)"
  "same_frame s (om_queue_link_before s p i q)"
  "same_frame s (snd (om_queue_unlink s i q))"
  by (auto simp: om_queue_link_after_def om_queue_link_before_def om_queue_unlink_def Let_def
      split: option.splits)

lemma queue_ops_other:
  assumes "q' \<noteq> q"
  shows "qnext q' (om_queue_link_after s p i q) = qnext q' s"
    "qprev q' (om_queue_link_after s p i q) = qprev q' s"
    "qnext q' (om_queue_link_before s p i q) = qnext q' s"
    "qprev q' (om_queue_link_before s p i q) = qprev q' s"
    "qnext q' (snd (om_queue_unlink s i q)) = qnext q' s"
    "qprev q' (snd (om_queue_unlink s i q)) = qprev q' s"
  using assms by (auto simp: om_queue_link_after_def om_queue_link_before_def om_queue_unlink_def
      Let_def split: option.splits)

lemma link_after_qnext:
  "qnext q (om_queue_link_after s p i q) = (qnext q s)(i := qnext q s p, p := i)"
  by (auto simp: om_queue_link_after_def Let_def split: option.splits)

lemma link_after_qprev:
  assumes "link_ok s (qnext q s p)"
  shows "qprev q (om_queue_link_after s p i q) =
    (if qnext q s p = OM_SLOT_IDX_NULL then (qprev q s)(i := p)
     else (qprev q s)(i := p, qnext q s p := i))"
  using assms
  by (auto simp: om_queue_link_after_def Let_def link_ok_def om_slot_from_idx_def split: option.splits)

lemma link_before_qprev:
  "qprev q (om_queue_link_before s p i q) = (qprev q s)(i := qprev q s p, p := i)"
  by (auto simp: om_queue_link_before_def Let_def split: option.splits)

lemma link_before_qnext:
  assumes "link_ok s (qprev q s p)"
  shows "qnext q (om_queue_link_before s p i q) =
    (if qprev q s p = OM_SLOT_IDX_NULL then (qnext q s)(i := p)
     else (qnext q s)(i := p, qprev q s p := i))"
  using assms
  by (auto simp: om_queue_link_before_def Let_def link_ok_def om_slot_from_idx_def split: option.splits)

lemma unlink_links:
  assumes "link_ok s (qnext q s i)" and "link_ok s (qprev q s i)"
  shows "qnext q (snd (om_queue_unlink s i q)) =
      (if qprev q s i = OM_SLOT_IDX_NULL then qnext q s
       else (qnext q s)(qprev q s i := qnext q s i))(i := OM_SLOT_IDX_NULL)"
    and "qprev q (snd (om_queue_unlink s i q)) =
      (if qnext q s i = OM_SLOT_IDX_NULL then qprev q s
       else (qprev q s)(qnext q s i := qprev q s i))(i := OM_SLOT_IDX_NULL)"
  using assms
  by (auto simp: om_queue_unlink_def Let_def link_ok_def om_slot_from_idx_def fun_eq_iff)

text \<open>Linking and unlinking as list operations, through the interface of linked slots.\<close>

lemma om_queue_link_after_dll:
  assumes "dll OM_SLOT_IDX_NULL (qnext q s) (qprev q s) h (xs @ x # ys)"
    and "i \<notin> set (xs @ x # ys)" and "i \<noteq> OM_SLOT_IDX_NULL"
    and "\<forall>j \<in> set ys. j < a_capacity (slab_a s)"
  shows "dll OM_SLOT_IDX_NULL (qnext q (om_queue_link_after s x i q))
           (qprev q (om_queue_link_after s x i q)) h (xs @ x # i # ys)"
proof -
  have "link_ok s (qnext q s x)"
    using dll_next [OF assms(1)] assms(4) by (cases ys) (auto simp: link_ok_def)
  then show ?thesis using dll_insert_after [OF assms(1-3)]
    by (simp add: link_after_qnext link_after_qprev)
qed

lemma om_queue_unlink_dll:
  assumes d: "dll OM_SLOT_IDX_NULL (qnext q s) (qprev q s) h (xs @ x # ys)"
    and b: "\<forall>j \<in> set (xs @ ys). j < a_capacity (slab_a s)"
  shows "dll OM_SLOT_IDX_NULL (qnext q (snd (om_queue_unlink s x q)))
           (qprev q (snd (om_queue_unlink s x q))) (if xs = [] then qnext q s x else h) (xs @ ys)"
proof -
  have "link_ok s (qnext q s x)"
    using dll_next [OF d] b by (cases ys) (auto simp: link_ok_def)
  moreover have "link_ok s (qprev q s x)"
    using dll_prev [OF d] b last_in_set [of xs] by (auto simp: link_ok_def)
  ultimately show ?thesis using dll_remove [OF d, of OM_SLOT_IDX_NULL OM_SLOT_IDX_NULL]
    by (simp add: unlink_links)
qed

section \<open>The allocator invariant\<close>

definition slab_inv :: "OmDualSlab \<Rightarrow> nat list \<Rightarrow> bool" where
  "slab_inv s F \<longleftrightarrow>
     chain OM_SLOT_IDX_NULL (qnext OM_Q0_INTERNAL_FREE s) (a_free_list_idx (slab_a s)) F \<and>
     chain OM_SLOT_IDX_NULL (aux_next s) (b_free_list_idx (slab_b s)) F \<and>
     (\<forall>i \<in> set F. i < a_capacity (slab_a s)) \<and> a_capacity (slab_a s) \<le> UINT32_MAX \<and>
     unat (a_used (slab_a s)) + length F = a_capacity (slab_a s) \<and>
     4 \<le> unat (b_slot_size (slab_b s)) \<and>
     (\<forall>i < a_capacity (slab_a s). length (b_block (slab_b s) i) = unat (b_slot_size (slab_b s)))"

lemma slab_invD:
  assumes "slab_inv s F"
  shows "chain OM_SLOT_IDX_NULL (qnext OM_Q0_INTERNAL_FREE s) (a_free_list_idx (slab_a s)) F"
    "chain OM_SLOT_IDX_NULL (aux_next s) (b_free_list_idx (slab_b s)) F"
    "i \<in> set F \<Longrightarrow> i < a_capacity (slab_a s)" "a_capacity (slab_a s) \<le> UINT32_MAX"
    "unat (a_used (slab_a s)) + length F = a_capacity (slab_a s)"
    "i < a_capacity (slab_a s) \<Longrightarrow> length (b_block (slab_b s) i) = unat (b_slot_size (slab_b s))"
    "distinct F" "OM_SLOT_IDX_NULL \<notin> set F" "4 \<le> unat (b_slot_size (slab_b s))"
    "i < a_capacity (slab_a s) \<Longrightarrow> i \<noteq> OM_SLOT_IDX_NULL"
  using assms by (auto simp: slab_inv_def dest: chain_distinct seg_not_nul)

text \<open>The invariant only looks at the allocator's own links, the counters and slab B.\<close>

lemma slab_inv_frame:
  assumes "same_frame s t" and "qnext OM_Q0_INTERNAL_FREE t = qnext OM_Q0_INTERNAL_FREE s"
  shows "slab_inv t F = slab_inv s F"
  using assms same_frameD [OF assms(1)] by (simp add: slab_inv_def)

lemma aux_next_set_aux_next:
  "v < 2 ^ 32 \<Longrightarrow> aux_next (set_aux_next i v s) = (aux_next s)(i := v)"
  by (rule ext) (simp add: aux_next_def set_aux_next_def)

lemma set_aux_next_frame [simp]:
  "slab_a (set_aux_next i v s) = slab_a s"
  "slot_at (set_aux_next i v s) = slot_at s"
  "qnext q (set_aux_next i v s) = qnext q s"
  "qprev q (set_aux_next i v s) = qprev q s"
  "b_free_list_idx (slab_b (set_aux_next i v s)) = b_free_list_idx (slab_b s)"
  "b_slot_size (slab_b (set_aux_next i v s)) = b_slot_size (slab_b s)"
  "slab_config (set_aux_next i v s) = slab_config s"
  "next_order_id (set_aux_next i v s) = next_order_id s"
  by (simp_all add: set_aux_next_def)

lemma length_set_aux_next:
  "4 \<le> length (b_block (slab_b s) i) \<Longrightarrow>
   length (b_block (slab_b (set_aux_next i v s)) j) = length (b_block (slab_b s) j)"
  by (simp add: set_aux_next_def)

text \<open>The slot that \<open>om_slab_alloc\<close> hands out.\<close>

definition fresh_slot :: "OmSlabSlot \<Rightarrow> OmSlabSlot" where
  "fresh_slot sl = sl\<lparr>price := 0, volume := 0, volume_remain := 0, org := 0, flags := 0,
     order_id := 0xFFFFFFFF, queue_nodes := null_links\<rparr>"

lemma om_slab_alloc_Nil:
  assumes "slab_inv s []"
  shows "om_slab_alloc s = (None, s)"
  using slab_invD(1) [OF assms] by (simp add: om_slab_alloc_def)

lemma om_slab_alloc_Cons:
  assumes "slab_inv s (i # F)"
  shows "om_slab_alloc s = (Some i, set_used (\<lambda>u. u + 1)
     (set_aux i (replicate (unat (b_slot_size (slab_b s))) 0) (upd_slot i fresh_slot
       (set_b_free (aux_next s i) (set_a_free (qnext OM_Q0_INTERNAL_FREE s i) s)))))"
proof -
  note I = slab_invD [OF assms]
  have "a_free_list_idx (slab_a s) = i" "b_free_list_idx (slab_b s) = i" using I(1,2) by simp_all
  moreover have "i < a_capacity (slab_a s)" "i \<noteq> OM_SLOT_IDX_NULL" using I(3) I(8) by auto
  ultimately show ?thesis
    by (simp add: om_slab_alloc_def Let_def om_slot_from_idx_def fresh_slot_def [abs_def])
qed

lemma fresh_slot_links [simp]:
  "qnext q (upd_slot i fresh_slot s) = (qnext q s)(i := OM_SLOT_IDX_NULL)"
  "qprev q (upd_slot i fresh_slot s) = (qprev q s)(i := OM_SLOT_IDX_NULL)"
  by (auto simp: qnext_def qprev_def fresh_slot_def null_links_def)

lemma om_slab_alloc_inv:
  assumes "slab_inv s (i # F)"
  shows "slab_inv (snd (om_slab_alloc s)) F"
proof -
  note I = slab_invD [OF assms]
  have nF: "i \<notin> set F" using I(7) by simp
  have used: "unat (a_used (slab_a s) + 1) = unat (a_used (slab_a s)) + 1"
    using I(4,5) unat_add_no_wrap [of "a_used (slab_a s)" 1] by simp
  have "chain OM_SLOT_IDX_NULL (aux_next (set_aux i bs s)) (aux_next s i) F" for bs
  proof -
    have "seg OM_SLOT_IDX_NULL (aux_next (set_aux i bs s)) (aux_next s i) F OM_SLOT_IDX_NULL
        = seg OM_SLOT_IDX_NULL (aux_next s) (aux_next s i) F OM_SLOT_IDX_NULL"
      by (rule seg_cong) (use nF in \<open>auto simp: aux_next_def\<close>)
    then show ?thesis using I(2) by simp
  qed
  then have auxc: "chain OM_SLOT_IDX_NULL (\<lambda>j. nat_le (take 4 (((b_block (slab_b s))(i := bs)) j)))
     (aux_next s i) F" for bs by (simp add: aux_next_def [abs_def])
  show ?thesis
    using I(1,3,4,5,6,9) nF used auxc
    by (auto simp: om_slab_alloc_Cons [OF assms] slab_inv_def aux_next_def [abs_def])
qed

lemma om_slab_alloc_other:
  assumes "slab_inv s (i # F)" and "j \<noteq> i"
  shows "slot_at (snd (om_slab_alloc s)) j = slot_at s j"
  using assms(2) by (simp add: om_slab_alloc_Cons [OF assms(1)])

lemma om_slab_alloc_slot:
  assumes "slab_inv s (i # F)"
  shows "slot_at (snd (om_slab_alloc s)) i = fresh_slot (slot_at s i)"
  by (simp add: om_slab_alloc_Cons [OF assms])

lemma om_slab_free_links:
  assumes "i \<noteq> OM_SLOT_IDX_NULL"
  shows "qnext q (om_slab_free s i) = (qnext q s)(i := if q = OM_Q0_INTERNAL_FREE
           then a_free_list_idx (slab_a s) else OM_SLOT_IDX_NULL)"
    "qprev q (om_slab_free s i) = (qprev q s)(i := OM_SLOT_IDX_NULL)"
    "a_free_list_idx (slab_a (om_slab_free s i)) = i"
    "b_free_list_idx (slab_b (om_slab_free s i)) = i"
    "core (slot_at (om_slab_free s i) j) = core (slot_at s j)"
    "a_used (slab_a (om_slab_free s i)) = a_used (slab_a s) - 1"
    "b_block (slab_b (om_slab_free s i)) =
       (b_block (slab_b s))(i := bytes_le 4 (b_free_list_idx (slab_b s)) @ drop 4 (b_block (slab_b s) i))"
  using assms
  by (auto simp: om_slab_free_def Let_def qnext_def qprev_def set_next_def null_links_def core_def
      set_aux_next_def fun_eq_iff)

lemma om_slab_free_frame [simp]:
  "a_capacity (slab_a (om_slab_free s i)) = a_capacity (slab_a s)"
  "b_slot_size (slab_b (om_slab_free s i)) = b_slot_size (slab_b s)"
  "slab_config (om_slab_free s i) = slab_config s"
  "next_order_id (om_slab_free s i) = next_order_id s"
  by (simp_all add: om_slab_free_def Let_def)

lemma om_slab_free_inv:
  assumes inv: "slab_inv s F" and i: "i \<notin> set F" "i < a_capacity (slab_a s)"
  shows "slab_inv (om_slab_free s i) (i # F)"
proof -
  note I = slab_invD [OF inv]
  have nn: "i \<noteq> OM_SLOT_IDX_NULL" using I(10) i(2) .
  have "card (set (i # F)) \<le> card {..<a_capacity (slab_a s)}"
    using I(3) i by (intro card_mono) auto
  then have lt: "length F < a_capacity (slab_a s)" using I(7) i(1) by (simp add: distinct_card)
  then have "1 \<le> a_used (slab_a s)" using I(5) by (simp add: word_le_nat_alt)
  then have used: "unat (a_used (slab_a s) - 1) = unat (a_used (slab_a s)) - 1"
    by (simp add: unat_sub_le)
  have "b_free_list_idx (slab_b s) \<le> UINT32_MAX"
    using chain_start [OF I(2)] I(3) [of "hd F"] I(4) by (cases F) auto
  then have bf: "b_free_list_idx (slab_b s) < 2 ^ 32" by simp
  have aux: "aux_next (om_slab_free s i) = (aux_next s)(i := b_free_list_idx (slab_b s))"
    using bf by (auto simp: aux_next_def om_slab_free_links [OF nn])
  show ?thesis
    using I(1-6,9) i nn used lt
    by (auto simp: slab_inv_def om_slab_free_links [OF nn] aux)
qed

interpretation slab_alloc: slot_allocator om_slab_alloc "\<lambda>i s. om_slab_free s i" slab_inv
  "\<lambda>s i. i < a_capacity (slab_a s)"
proof unfold_locales
  fix s i F j
  show "slab_inv s [] \<Longrightarrow> om_slab_alloc s = (None, s)" by (rule om_slab_alloc_Nil)
  show "slab_inv s (i # F) \<Longrightarrow> fst (om_slab_alloc s) = Some i" by (simp add: om_slab_alloc_Cons)
  show "slab_inv s (i # F) \<Longrightarrow> slab_inv (snd (om_slab_alloc s)) F" by (rule om_slab_alloc_inv)
  show "slab_inv s (i # F) \<Longrightarrow>
      (j < a_capacity (slab_a (snd (om_slab_alloc s)))) = (j < a_capacity (slab_a s))"
    by (simp add: om_slab_alloc_Cons)
  show "slab_inv s F \<Longrightarrow> i \<notin> set F \<Longrightarrow> i < a_capacity (slab_a s) \<Longrightarrow> slab_inv (om_slab_free s i) (i # F)"
    by (rule om_slab_free_inv)
  show "slab_inv s F \<Longrightarrow> distinct F" by (rule slab_invD)
  show "slab_inv s F \<Longrightarrow> i \<in> set F \<Longrightarrow> i < a_capacity (slab_a s)" by (rule slab_invD)
qed

section \<open>Initialisation\<close>

lemma init_a_step_links:
  "qnext q (init_a_step i s) = (qnext q s)(i := if q = OM_Q0_INTERNAL_FREE then a_free_list_idx (slab_a s) else OM_SLOT_IDX_NULL)"
  "a_free_list_idx (slab_a (init_a_step i s)) = i"
  "slab_b (init_a_step i s) = slab_b s"
  "a_capacity (slab_a (init_a_step i s)) = a_capacity (slab_a s)"
  "a_used (slab_a (init_a_step i s)) = a_used (slab_a s)"
  by (auto simp: init_a_step_def qnext_def set_next_def null_links_def fun_eq_iff)

lemma init_a_loop:
  fixes s0 k
  defines "s \<equiv> fold init_a_step [0..<k] s0"
  assumes "a_free_list_idx (slab_a s0) = OM_SLOT_IDX_NULL" and "k \<le> UINT32_MAX"
  shows "chain OM_SLOT_IDX_NULL (qnext OM_Q0_INTERNAL_FREE s) (a_free_list_idx (slab_a s)) (rev [0..<k]) \<and>
    slab_b s = slab_b s0 \<and> a_capacity (slab_a s) = a_capacity (slab_a s0) \<and>
    a_used (slab_a s) = a_used (slab_a s0)"
  unfolding s_def using assms(3)
proof (induction k)
  case 0
  with assms(2) show ?case by simp
next
  case (Suc k)
  let ?t = "fold init_a_step [0..<k] s0"
  have "qnext OM_Q0_INTERNAL_FREE (init_a_step k ?t) = (qnext OM_Q0_INTERNAL_FREE ?t)(k := a_free_list_idx (slab_a ?t))"
    by (simp only: init_a_step_links(1) refl if_True)
  moreover have "k \<notin> set (rev [0..<k])" by simp
  ultimately have "chain OM_SLOT_IDX_NULL (qnext OM_Q0_INTERNAL_FREE (init_a_step k ?t)) k (k # rev [0..<k])"
    using Suc by (simp del: fun_upd_apply add: fun_upd_same)
  then show ?case using Suc by (simp add: init_a_step_links(2-))
qed

lemma init_b_loop:
  fixes s0 k
  defines "s \<equiv> fold init_b_step [0..<k] s0"
  assumes "\<forall>i. 4 \<le> length (b_block (slab_b s0) i)" and "k \<le> UINT32_MAX"
  shows "chain OM_SLOT_IDX_NULL (aux_next s) (if k = 0 then OM_SLOT_IDX_NULL else k - 1) (rev [0..<k]) \<and>
    slab_a s = slab_a s0 \<and> qnext OM_Q0_INTERNAL_FREE s = qnext OM_Q0_INTERNAL_FREE s0 \<and>
    b_slot_size (slab_b s) = b_slot_size (slab_b s0) \<and>
    (\<forall>i. length (b_block (slab_b s) i) = length (b_block (slab_b s0) i))"
  unfolding s_def using assms(3)
proof (induction k)
  case 0
  then show ?case by simp
next
  case (Suc k)
  let ?t = "fold init_b_step [0..<k] s0"
  have IH: "chain OM_SLOT_IDX_NULL (aux_next ?t) (if k = 0 then OM_SLOT_IDX_NULL else k - 1) (rev [0..<k])"
    "slab_a ?t = slab_a s0" "qnext OM_Q0_INTERNAL_FREE ?t = qnext OM_Q0_INTERNAL_FREE s0"
    "b_slot_size (slab_b ?t) = b_slot_size (slab_b s0)"
    "\<forall>i. length (b_block (slab_b ?t) i) = length (b_block (slab_b s0) i)"
    using Suc by auto
  let ?v = "if k = 0 then OM_SLOT_IDX_NULL else k - 1"
  have "?v < 2 ^ 32" using Suc.prems by (cases k) simp_all
  then have "aux_next (init_b_step k ?t) = (aux_next ?t)(k := ?v)"
    unfolding init_b_step_def [of k] by (rule aux_next_set_aux_next)
  then have "chain OM_SLOT_IDX_NULL (aux_next (init_b_step k ?t)) k (k # rev [0..<k])"
    using IH(1) Suc.prems by (simp del: fun_upd_apply add: fun_upd_same)
  with IH(2-) assms(2) show ?case
    by (auto simp: init_b_step_def [of k] length_set_aux_next)
qed

lemma unat_align_up_8: "unat (align_up x 8) = unat (x + 7) div 8 * 8"
proof -
  have "(7 :: u64) = mask 3" by (simp add: mask_eq_exp_minus_1)
  then show ?thesis using unat_and_not_mask [of "x + 7" 3] by (simp add: align_up_def add.commute)
qed

lemma align_up_8_cases: "align_up x 8 = 0 \<or> 8 \<le> unat (align_up x 8)"
proof (cases "unat (x + 7) div 8")
  case 0
  then have "unat (align_up x 8) = 0" by (simp add: unat_align_up_8)
  then show ?thesis by (simp add: unat_eq_0)
next
  case (Suc k)
  then show ?thesis by (simp add: unat_align_up_8)
qed

lemma next_order_id_frame [simp]:
  "slot_at (s\<lparr>next_order_id := v\<rparr>) = slot_at s"
  "qnext q (s\<lparr>next_order_id := v\<rparr>) = qnext q s"
  "qprev q (s\<lparr>next_order_id := v\<rparr>) = qprev q s"
  "aux_next (s\<lparr>next_order_id := v\<rparr>) = aux_next s"
  "qnext q (set_b_free v' s) = qnext q s"
  "aux_next (set_b_free v' s) = aux_next s"
  by (auto simp: slot_at_def qnext_def qprev_def aux_next_def set_b_free_def fun_eq_iff)

lemma om_slab_init_inv:
  assumes "om_slab_init config True True True = Inr s"
  shows "slab_inv s (rev [0..<unat (cfg_total_slots config)])"
proof -
  define n where "n = unat (cfg_total_slots config)"
  define s0 where "s0 = slab_blank config"
  have nb: "n \<le> UINT32_MAX" using unsigned_less [of "cfg_total_slots config", where 'a = nat] by (simp add: n_def)
  have s0: "a_free_list_idx (slab_a s0) = OM_SLOT_IDX_NULL" "a_capacity (slab_a s0) = n" "a_used (slab_a s0) = 0"
      "\<forall>i. length (b_block (slab_b s0) i) = unat (b_slot_size (slab_b s0))"
    by (simp_all add: s0_def slab_blank_def Let_def n_def)
  have sz: "4 \<le> unat (b_slot_size (slab_b s0))"
    using align_up_8_cases [of "cfg_aux_data_size config"] by (auto simp: s0_def slab_blank_def Let_def)
  from assms have npos: "n \<noteq> 0"
    and s: "s = (set_b_free (n - 1) (fold init_b_step [0..<n] (fold init_a_step [0..<n] s0)))\<lparr>next_order_id := 1\<rparr>"
    by (auto simp: om_slab_init_def Let_def n_def s0_def unat_eq_0 split: if_splits)
  let ?a = "fold init_a_step [0..<n] s0"
  have A: "chain OM_SLOT_IDX_NULL (qnext OM_Q0_INTERNAL_FREE ?a) (a_free_list_idx (slab_a ?a)) (rev [0..<n])"
    "slab_b ?a = slab_b s0" "a_capacity (slab_a ?a) = n" "a_used (slab_a ?a) = 0"
    using init_a_loop [OF s0(1) nb] s0 by auto
  have "\<forall>i. 4 \<le> length (b_block (slab_b ?a) i)" using A(2) s0(4) sz by simp
  from init_b_loop [OF this nb] npos A s0 sz nb show ?thesis
    unfolding n_def [symmetric] s
    by (auto simp: slab_inv_def)
qed

section \<open>Flags\<close>

text \<open>Writing one bit field of the flags word and reading it, or a disjoint one, afterwards.\<close>

lemma field_set_get:
  fixes f m x :: "'a::len word"
  shows "((f AND NOT m) OR (x AND m)) AND m = x AND m"
  by (rule bit_word_eqI) (auto simp: bit_simps)

lemma field_set_other:
  fixes f m m' x :: "'a::len word"
  assumes "m AND m' = 0"
  shows "((f AND NOT m) OR (x AND m)) AND m' = f AND m'"
proof (rule bit_word_eqI)
  fix k assume k: "k < LENGTH('a)"
  have "\<not> (bit m k \<and> bit m' k)" using assms by (metis bit_0_eq bit_and_iff bot_apply bot_bool_def)
  then show "bit (((f AND NOT m) OR (x AND m)) AND m') k = bit (f AND m') k"
    using k by (auto simp: bit_simps)
qed

lemma flag_masks_disjoint:
  "OM_SIDE_MASK AND OM_TYPE_MASK = 0" "OM_SIDE_MASK AND OM_STATUS_MASK = 0"
  "OM_TYPE_MASK AND OM_SIDE_MASK = 0" "OM_TYPE_MASK AND OM_STATUS_MASK = 0"
  "OM_STATUS_MASK AND OM_SIDE_MASK = 0" "OM_STATUS_MASK AND OM_TYPE_MASK = 0"
  by (simp_all add: OM_SIDE_MASK_def OM_TYPE_MASK_def OM_STATUS_MASK_def)

text \<open>
  C39: each of the side, type and status setters changes its own bit field of the flags word
  and leaves the two others alone, and every order is on exactly one side of the book.
\<close>

theorem flag_fields_independent:
  "OM_GET_SIDE (OM_SET_SIDE f x) = x AND OM_SIDE_MASK \<and>
   OM_GET_TYPE (OM_SET_SIDE f x) = OM_GET_TYPE f \<and>
   OM_GET_STATUS (OM_SET_SIDE f x) = OM_GET_STATUS f \<and>
   OM_GET_TYPE (OM_SET_TYPE f x) = x AND OM_TYPE_MASK \<and>
   OM_GET_SIDE (OM_SET_TYPE f x) = OM_GET_SIDE f \<and>
   OM_GET_STATUS (OM_SET_TYPE f x) = OM_GET_STATUS f \<and>
   OM_GET_STATUS (OM_SET_STATUS f x) = x AND OM_STATUS_MASK \<and>
   OM_GET_SIDE (OM_SET_STATUS f x) = OM_GET_SIDE f \<and>
   OM_GET_TYPE (OM_SET_STATUS f x) = OM_GET_TYPE f \<and>
   (OM_IS_ASK f \<longleftrightarrow> \<not> OM_IS_BID f)"
proof -
  have "f AND 1 = 0 \<or> f AND 1 = 1" by (simp add: and_one_eq mod_2_eq_odd)
  then have "OM_IS_ASK f \<longleftrightarrow> \<not> OM_IS_BID f"
    by (auto simp: OM_IS_ASK_def OM_IS_BID_def OM_SIDE_ASK_def OM_SIDE_BID_def OM_SIDE_MASK_def)
  then show ?thesis
    unfolding OM_GET_SIDE_def OM_GET_TYPE_def OM_GET_STATUS_def
      OM_SET_SIDE_def OM_SET_TYPE_def OM_SET_STATUS_def
    by (simp add: field_set_get field_set_other flag_masks_disjoint)
qed

section \<open>Properties of the allocator\<close>

text \<open>
  C40: converting a valid slot index to its address and back is the identity, as long as the
  slab fits in the address range of a \<^verbatim>\<open>ptrdiff_t\<close>.
\<close>

theorem slot_idx_roundtrip:
  assumes "idx < a_capacity a" and "a_capacity a \<le> UINT32_MAX" and "a_slot_size a \<noteq> 0"
    and "int (a_capacity a) * uint (a_slot_size a) < 2 ^ 63"
  shows "\<exists>offset. idx_to_slot_a a idx = Some offset \<and> 0 \<le> offset \<and>
    offset < int (a_capacity a) * uint (a_slot_size a) \<and> slot_to_idx_a a offset = idx"
proof -
  let ?z = "uint (a_slot_size a)"
  have z: "0 < ?z" using assms(3) by (simp add: word_neq_0_conv word_less_def)
  have lt: "int idx * ?z < int (a_capacity a) * ?z" using assms(1) z by simp
  then have "int idx * ?z < 2 ^ 64" using assms(4) by simp
  then have m: "(int idx * ?z) mod 2 ^ 64 = int idx * ?z" using z by (intro mod_pos_pos_trivial) auto
  have nn: "\<not> int idx * ?z < 0" using z by (simp add: not_less)
  then have "slot_to_idx_a a (int idx * ?z) = idx" using z assms(1,2) by (simp add: slot_to_idx_a_def)
  moreover have "idx_to_slot_a a idx = Some (int idx * ?z)" using assms(1,2) m by (simp add: idx_to_slot_a_def)
  ultimately show ?thesis using z lt by auto
qed

theorem slot_idx_roundtrip_witness:
  "\<exists>offset. idx_to_slot_a \<lparr>a_free_list_idx = 0, a_memory = (\<lambda>_. zero_slot 0), a_capacity = 8,
      a_used = 0, a_slot_size = 72\<rparr> 5 = Some offset \<and> 0 \<le> offset \<and> offset < 576 \<and>
    slot_to_idx_a \<lparr>a_free_list_idx = 0, a_memory = (\<lambda>_. zero_slot 0), a_capacity = 8,
      a_used = 0, a_slot_size = 72\<rparr> offset = 5"
  using slot_idx_roundtrip [of 5 "\<lparr>a_free_list_idx = 0, a_memory = (\<lambda>_. zero_slot 0), a_capacity = 8,
      a_used = 0, a_slot_size = 72\<rparr>"] by simp

text \<open>
  C14: after a successful initialisation the slab hands out every one of its slots exactly
  once: the first \<open>total_slots\<close> allocations succeed with pairwise different slots inside the
  array, and the next one fails.
\<close>

theorem om_slab_alloc_exhaustive:
  assumes "om_slab_init config True True True = Inr s"
  shows "\<exists>slots. fst (alloc_n om_slab_alloc (unat (cfg_total_slots config)) s) = map Some slots \<and>
    distinct slots \<and> set slots = {0..<unat (cfg_total_slots config)} \<and>
    fst (om_slab_alloc (snd (alloc_n om_slab_alloc (unat (cfg_total_slots config)) s))) = None"
proof -
  let ?n = "unat (cfg_total_slots config)" and ?F = "rev [0..<unat (cfg_total_slots config)]"
  note T = slab_alloc.alloc_n_take [OF om_slab_init_inv [OF assms], of ?n]
  have "slab_inv (snd (alloc_n om_slab_alloc ?n s)) []" using T by simp
  then have "fst (om_slab_alloc (snd (alloc_n om_slab_alloc ?n s))) = None" by (simp add: om_slab_alloc_Nil)
  then show ?thesis using T by (intro exI [of _ ?F]) simp
qed

definition slab_example :: OmSlabConfig where
  "slab_example = \<lparr>cfg_user_data_size = 0, cfg_aux_data_size = 16, cfg_total_slots = 4\<rparr>"

theorem om_slab_alloc_exhaustive_witness:
  "\<exists>s slots. om_slab_init slab_example True True True = Inr s \<and>
    fst (alloc_n om_slab_alloc 4 s) = map Some slots \<and> distinct slots \<and> set slots = {0..<4} \<and>
    fst (om_slab_alloc (snd (alloc_n om_slab_alloc 4 s))) = None"
proof -
  obtain s where s: "om_slab_init slab_example True True True = Inr s"
    by (simp add: om_slab_init_def slab_example_def Let_def)
  from om_slab_alloc_exhaustive [OF s] s show ?thesis by (auto simp: slab_example_def)
qed



section \<open>Order identifiers\<close>

fun next_order_ids :: "nat \<Rightarrow> OmDualSlab \<Rightarrow> u32 list \<times> OmDualSlab" where
  "next_order_ids 0 s = ([], s)"
| "next_order_ids (Suc k) s =
     (let (i, s1) = om_slab_next_order_id s; (is, s2) = next_order_ids k s1 in (i # is, s2))"

text \<open>
  C23: as long as the 32-bit counter does not run over, the generated order ids are the
  consecutive numbers from its current value, hence pairwise distinct and never 0; once it
  has wrapped to 0 every further call returns 0, the failure value, and no id is reused.
\<close>

theorem om_slab_next_order_id_unique:
  assumes "next_order_id s \<noteq> 0" and "unat (next_order_id s) + k \<le> 2 ^ 32"
  shows "map unat (fst (next_order_ids k s)) = [unat (next_order_id s)..<unat (next_order_id s) + k] \<and>
    distinct (fst (next_order_ids k s)) \<and> 0 \<notin> set (fst (next_order_ids k s)) \<and>
    (unat (next_order_id s) + k = 2 ^ 32 \<longrightarrow>
       om_slab_next_order_id (snd (next_order_ids k s)) = (0, snd (next_order_ids k s)))"
proof -
  have main: "map unat (fst (next_order_ids k s)) = [unat (next_order_id s)..<unat (next_order_id s) + k] \<and>
      next_order_id (snd (next_order_ids k s)) = of_nat (unat (next_order_id s) + k)"
    using assms
  proof (induction k arbitrary: s)
    case 0
    then show ?case by simp
  next
    case (Suc k)
    let ?s = "s\<lparr>next_order_id := next_order_id s + 1\<rparr>"
    have step: "om_slab_next_order_id s = (next_order_id s, ?s)"
      using Suc.prems(1) by (simp add: om_slab_next_order_id_def)
    show ?case
    proof (cases k)
      case 0
      then show ?thesis using step by simp
    next
      case (Suc k')
      have u: "unat (next_order_id s + 1) = unat (next_order_id s) + 1"
        using Suc.prems Suc unat_add_no_wrap [of "next_order_id s" 1] by simp
      then have "next_order_id ?s \<noteq> 0" by (auto simp: unat_eq_0 [symmetric])
      with Suc.IH [of ?s] Suc.prems u show ?thesis using step
        by (auto simp: case_prod_beta upt_rec)
    qed
  qed
  then have "distinct (map unat (fst (next_order_ids k s)))" "0 \<notin> set (map unat (fst (next_order_ids k s)))"
    using assms(1) by (auto simp: unat_eq_0)
  then have "distinct (fst (next_order_ids k s))" "0 \<notin> set (fst (next_order_ids k s))"
    by (auto simp: distinct_map image_iff unat_eq_0)
  moreover have "next_order_id (snd (next_order_ids k s)) = 0" if e: "unat (next_order_id s) + k = 2 ^ 32"
  proof -
    have "next_order_id (snd (next_order_ids k s)) = of_nat (2 ^ 32)" using main unfolding e by blast
    then show ?thesis by simp
  qed
  ultimately show ?thesis using main [THEN conjunct1] by (simp add: om_slab_next_order_id_def)
qed

theorem om_slab_next_order_id_unique_witness:
  "\<exists>s. next_order_id s = 4294967294 \<and> map unat (fst (next_order_ids 2 s)) = [4294967294, 4294967295] \<and>
    om_slab_next_order_id (snd (next_order_ids 2 s)) = (0, snd (next_order_ids 2 s))"
  using om_slab_next_order_id_unique [of "(slab_blank slab_example)\<lparr>next_order_id := 4294967294\<rparr>" 2]
  by (intro exI [of _ "(slab_blank slab_example)\<lparr>next_order_id := 4294967294\<rparr>"])
     (simp add: upt_rec)

end
