(* ===== verification/Wal.thy ===== *)
theory Wal
  imports Slab
begin

text \<open>
  The writer half of the write-ahead log, \<^verbatim>\<open>include/openmatch/om_wal.h\<close> and \<^verbatim>\<open>src/om_wal.c\<close>:
  record layouts, header packing, CRC-32, the append buffer, flushing and file rotation.

  The operating system is a record \<open>os_ops\<close> of functions over an abstract world \<open>'w\<close>, which
  the log owns; a post-write callback acts on the same world.  The append buffer is the list
  of the bytes in use, so \<^verbatim>\<open>buffer_used\<close> is its length.  Sizes and file offsets are natural
  numbers, sequence numbers and record fields are words.
\<close>

section \<open>Record types and headers\<close>

type_synonym OmWalType = u32

definition OM_WAL_INSERT :: OmWalType where "OM_WAL_INSERT = 1"
definition OM_WAL_CANCEL :: OmWalType where "OM_WAL_CANCEL = 2"
definition OM_WAL_MATCH :: OmWalType where "OM_WAL_MATCH = 3"
definition OM_WAL_CHECKPOINT :: OmWalType where "OM_WAL_CHECKPOINT = 4"
definition OM_WAL_DEACTIVATE :: OmWalType where "OM_WAL_DEACTIVATE = 5"
definition OM_WAL_ACTIVATE :: OmWalType where "OM_WAL_ACTIVATE = 6"
definition OM_WAL_USER_BASE :: OmWalType where "OM_WAL_USER_BASE = 0x80"

lemmas wal_type_defs = OM_WAL_INSERT_def OM_WAL_CANCEL_def OM_WAL_MATCH_def OM_WAL_CHECKPOINT_def
  OM_WAL_DEACTIVATE_def OM_WAL_ACTIVATE_def OM_WAL_USER_BASE_def

definition om_wal_pack_header :: "u64 \<Rightarrow> u8 \<Rightarrow> u16 \<Rightarrow> u64" where
  "om_wal_pack_header seq ty len = push_bit 24 seq OR push_bit 16 (ucast ty) OR ucast len"

definition om_wal_header_seq :: "u64 \<Rightarrow> u64" where
  "om_wal_header_seq packed = drop_bit 24 packed"

definition om_wal_header_type :: "u64 \<Rightarrow> u8" where
  "om_wal_header_type packed = ucast (drop_bit 16 packed AND 0xFF)"

definition om_wal_header_len :: "u64 \<Rightarrow> u16" where
  "om_wal_header_len packed = ucast (packed AND 0xFFFF)"

section \<open>CRC-32\<close>

definition crc32_step :: "u32 \<Rightarrow> u32" where
  "crc32_step crc = drop_bit 1 crc XOR (if crc AND 1 \<noteq> 0 then 0xEDB88320 else 0)"

definition crc32_table :: "nat \<Rightarrow> u32" where
  "crc32_table i = (crc32_step ^^ 8) (of_nat i)"

definition crc32_compute :: "u8 list \<Rightarrow> u32" where
  "crc32_compute buf =
     foldl (\<lambda>crc b. crc32_table (unat ((crc XOR ucast b) AND 0xFF)) XOR drop_bit 8 crc) 0xFFFFFFFF buf
     XOR 0xFFFFFFFF"

section \<open>Record layouts\<close>

record OmWalInsert =
  wi_order_id :: u64
  wi_price :: u64
  wi_volume :: u64
  wi_vol_remain :: u64
  wi_org :: u16
  wi_flags :: u16
  wi_product_id :: u16
  wi_reserved :: u16
  wi_user_data_size :: u32
  wi_aux_data_size :: u32
  wi_timestamp_ns :: u64

text \<open>\<^verbatim>\<open>OmWalCancel\<close>, \<^verbatim>\<open>OmWalDeactivate\<close> and \<^verbatim>\<open>OmWalActivate\<close> have one and the same layout.\<close>

record OmWalCancel =
  wc_order_id :: u64
  wc_timestamp_ns :: u64
  wc_slot_idx :: u32
  wc_product_id :: u16
  wc_reserved :: u16

record OmWalMatch =
  wm_maker_id :: u64
  wm_taker_id :: u64
  wm_price :: u64
  wm_volume :: u64
  wm_timestamp_ns :: u64
  wm_product_id :: u16
  wm_reserved :: "u16 \<times> u16 \<times> u16"

abbreviation (input) sizeof_OmWalInsert :: nat where "sizeof_OmWalInsert \<equiv> 56"
abbreviation (input) sizeof_OmWalCancel :: nat where "sizeof_OmWalCancel \<equiv> 24"
abbreviation (input) sizeof_OmWalMatch :: nat where "sizeof_OmWalMatch \<equiv> 48"
abbreviation (input) WAL_HEADER_SIZE :: nat where "WAL_HEADER_SIZE \<equiv> 8"
abbreviation (input) WAL_CRC32_SIZE :: nat where "WAL_CRC32_SIZE \<equiv> 4"
abbreviation (input) WAL_ALIGN :: nat where "WAL_ALIGN \<equiv> 4096"

text \<open>The bytes of a structure as \<^verbatim>\<open>memcpy\<close> moves them, on a little-endian machine, and back.\<close>

definition put16 :: "u16 \<Rightarrow> u8 list" where "put16 x = bytes_le 2 (unat x)"
definition put32 :: "u32 \<Rightarrow> u8 list" where "put32 x = bytes_le 4 (unat x)"
definition put64 :: "u64 \<Rightarrow> u8 list" where "put64 x = bytes_le 8 (unat x)"

definition get_at :: "nat \<Rightarrow> nat \<Rightarrow> u8 list \<Rightarrow> nat" where
  "get_at off n bs = nat_le (take n (drop off bs))"

definition enc_insert :: "OmWalInsert \<Rightarrow> u8 list" where
  "enc_insert r = put64 (wi_order_id r) @ put64 (wi_price r) @ put64 (wi_volume r) @ put64 (wi_vol_remain r) @
     put16 (wi_org r) @ put16 (wi_flags r) @ put16 (wi_product_id r) @ put16 (wi_reserved r) @
     put32 (wi_user_data_size r) @ put32 (wi_aux_data_size r) @ put64 (wi_timestamp_ns r)"

definition dec_insert :: "u8 list \<Rightarrow> OmWalInsert" where
  "dec_insert bs = \<lparr>wi_order_id = of_nat (get_at 0 8 bs), wi_price = of_nat (get_at 8 8 bs),
     wi_volume = of_nat (get_at 16 8 bs), wi_vol_remain = of_nat (get_at 24 8 bs),
     wi_org = of_nat (get_at 32 2 bs), wi_flags = of_nat (get_at 34 2 bs),
     wi_product_id = of_nat (get_at 36 2 bs), wi_reserved = of_nat (get_at 38 2 bs),
     wi_user_data_size = of_nat (get_at 40 4 bs), wi_aux_data_size = of_nat (get_at 44 4 bs),
     wi_timestamp_ns = of_nat (get_at 48 8 bs)\<rparr>"

definition enc_cancel :: "OmWalCancel \<Rightarrow> u8 list" where
  "enc_cancel r = put64 (wc_order_id r) @ put64 (wc_timestamp_ns r) @ put32 (wc_slot_idx r) @
     put16 (wc_product_id r) @ put16 (wc_reserved r)"

definition dec_cancel :: "u8 list \<Rightarrow> OmWalCancel" where
  "dec_cancel bs = \<lparr>wc_order_id = of_nat (get_at 0 8 bs), wc_timestamp_ns = of_nat (get_at 8 8 bs),
     wc_slot_idx = of_nat (get_at 16 4 bs), wc_product_id = of_nat (get_at 20 2 bs),
     wc_reserved = of_nat (get_at 22 2 bs)\<rparr>"

definition enc_match :: "OmWalMatch \<Rightarrow> u8 list" where
  "enc_match r = put64 (wm_maker_id r) @ put64 (wm_taker_id r) @ put64 (wm_price r) @ put64 (wm_volume r) @
     put64 (wm_timestamp_ns r) @ put16 (wm_product_id r) @
     (case wm_reserved r of (a, b, c) \<Rightarrow> put16 a @ put16 b @ put16 c)"

definition dec_match :: "u8 list \<Rightarrow> OmWalMatch" where
  "dec_match bs = \<lparr>wm_maker_id = of_nat (get_at 0 8 bs), wm_taker_id = of_nat (get_at 8 8 bs),
     wm_price = of_nat (get_at 16 8 bs), wm_volume = of_nat (get_at 24 8 bs),
     wm_timestamp_ns = of_nat (get_at 32 8 bs), wm_product_id = of_nat (get_at 40 2 bs),
     wm_reserved = (of_nat (get_at 42 2 bs), of_nat (get_at 44 2 bs), of_nat (get_at 46 2 bs))\<rparr>"

definition wal_insert_total_size :: "u64 \<Rightarrow> u64 \<Rightarrow> u64" where
  "wal_insert_total_size user_data_size aux_data_size = (8 + 56 + user_data_size + aux_data_size + 7) AND NOT 7"

definition wal_payload_size :: "OmWalType \<Rightarrow> u64 \<Rightarrow> u64 \<Rightarrow> u64" where
  "wal_payload_size ty user_data_size aux_data_size =
     (if ty = OM_WAL_INSERT then 56 + user_data_size + aux_data_size
      else if ty = OM_WAL_CANCEL then 24
      else if ty = OM_WAL_MATCH then 48
      else if ty = OM_WAL_CHECKPOINT then 32
      else 0)"

section \<open>The writer\<close>

text \<open>
  The system calls of the log.  \<open>os_clock\<close> and \<open>os_realtime\<close> are the monotonic and the
  wall clock in nanoseconds (0 when the call fails); \<open>os_path\<close> is the \<^verbatim>\<open>snprintf\<close> of the file name pattern and an
  index; \<open>os_open_append\<close> and \<open>os_open_read\<close> return a negative descriptor on failure (the
  second reports whether that was \<^verbatim>\<open>ENOENT\<close>); \<open>os_write\<close> returns the number of bytes written;
  \<open>os_read\<close> \<open>None\<close> on error and else the bytes read; \<open>os_fstat\<close> the size of the file.
\<close>

record 'w os_ops =
  os_clock :: "'w \<Rightarrow> u64 \<times> 'w"
  os_realtime :: "'w \<Rightarrow> u64 \<times> 'w"
  os_path :: "string \<Rightarrow> u32 \<Rightarrow> string"
  os_open_append :: "string \<Rightarrow> 'w \<Rightarrow> int \<times> 'w"
  os_open_read :: "string \<Rightarrow> 'w \<Rightarrow> int \<times> bool \<times> 'w"
  os_fstat :: "int \<Rightarrow> 'w \<Rightarrow> nat option"
  os_read :: "int \<Rightarrow> nat \<Rightarrow> nat \<Rightarrow> 'w \<Rightarrow> u8 list option"
  os_write :: "int \<Rightarrow> u8 list \<Rightarrow> 'w \<Rightarrow> int \<times> 'w"
  os_fsync :: "int \<Rightarrow> 'w \<Rightarrow> bool \<times> 'w"
  os_close :: "int \<Rightarrow> 'w \<Rightarrow> 'w"

record OmWalConfig =
  wcfg_filename :: "string"
  wcfg_filename_pattern :: "string option"
  wcfg_file_index :: u32
  wcfg_buffer_size :: nat
  wcfg_sync_interval_ms :: u32
  wcfg_use_direct_io :: bool
  wcfg_enable_crc32 :: bool
  wcfg_disable_crc32 :: bool
  wcfg_user_data_size :: nat
  wcfg_aux_data_size :: nat
  wcfg_max_file_size :: nat

record 'w OmWal =
  fd :: int
  last_error :: OmError
  buffer :: "u8 list"
  buffer_size :: nat
  sequence :: u64
  file_offset :: nat
  file_index :: u32
  wal_config :: OmWalConfig
  has_slab :: bool
  post_write :: "(u64 \<Rightarrow> u8 \<Rightarrow> u8 list \<Rightarrow> u16 \<Rightarrow> 'w \<Rightarrow> 'w) option"
  world :: 'w

definition wal_clock :: "'w os_ops \<Rightarrow> 'w OmWal \<Rightarrow> u64 \<times> 'w OmWal" where
  "wal_clock os w = (case os_clock os (world w) of (t, W) \<Rightarrow> (t, w\<lparr>world := W\<rparr>))"

definition wal_open_file :: "'w os_ops \<Rightarrow> 'w OmWal \<Rightarrow> string \<Rightarrow> OmError \<times> 'w OmWal" where
  "wal_open_file os w path =
     (case os_open_append os path (world w) of (f, W) \<Rightarrow>
        let w1 = w\<lparr>fd := f, world := W\<rparr> in if f < 0 then (OM_ERR_WAL_OPEN, w1) else (OM_OK, w1))"

definition wal_open_indexed :: "'w os_ops \<Rightarrow> 'w OmWal \<Rightarrow> u32 \<Rightarrow> OmError \<times> 'w OmWal" where
  "wal_open_indexed os w index =
     (case wcfg_filename_pattern (wal_config w) of None \<Rightarrow> (OM_ERR_NULL_PARAM, w)
      | Some pat \<Rightarrow> wal_open_file os w (os_path os pat index))"

text \<open>The buffer padded with zeros to the next multiple of the alignment.\<close>

definition wal_write_size :: "nat \<Rightarrow> nat" where
  "wal_write_size used = (used + WAL_ALIGN - 1) div WAL_ALIGN * WAL_ALIGN"

definition wal_padded :: "u8 list \<Rightarrow> u8 list" where
  "wal_padded bs = bs @ replicate (wal_write_size (length bs) - length bs) 0"

text \<open>Moving on to the next file of a multi-file log, when the write would exceed the maximum size.\<close>

definition wal_rotate :: "'w os_ops \<Rightarrow> nat \<Rightarrow> 'w OmWal \<Rightarrow> OmError \<times> 'w OmWal" where
  "wal_rotate os write_size w =
     (if wcfg_filename_pattern (wal_config w) \<noteq> None \<and> 0 < wcfg_max_file_size (wal_config w) \<and>
         wcfg_max_file_size (wal_config w) < file_offset w + write_size
      then case os_fsync os (fd w) (world w) of (ok, W) \<Rightarrow>
        if \<not> ok then (OM_ERR_WAL_FSYNC, w\<lparr>world := W, last_error := OM_ERR_WAL_FSYNC\<rparr>)
        else let w1 = w\<lparr>world := os_close os (fd w) W, file_index := file_index w + 1\<rparr>
             in case wal_open_indexed os w1 (file_index w1) of (rc, w2) \<Rightarrow>
                  if rc \<noteq> OM_OK then (OM_ERR_WAL_OPEN, w2\<lparr>last_error := OM_ERR_WAL_OPEN\<rparr>)
                  else (OM_OK, w2\<lparr>file_offset := 0\<rparr>)
      else (OM_OK, w))"

definition om_wal_flush :: "'w os_ops \<Rightarrow> 'w OmWal \<Rightarrow> OmError \<times> 'w OmWal" where
  "om_wal_flush os w =
     (if last_error w \<noteq> OM_OK then (last_error w, w)
      else if buffer w = [] then (OM_OK, w)
      else let write_size = wal_write_size (length (buffer w))
           in case wal_rotate os write_size w of (rc, w1) \<Rightarrow>
                if rc \<noteq> OM_OK then (rc, w1)
                else case os_write os (fd w1) (wal_padded (buffer w1)) (world w1) of (n, W) \<Rightarrow>
                  if n \<noteq> int write_size
                  then (OM_ERR_WAL_WRITE, w1\<lparr>world := W, last_error := OM_ERR_WAL_WRITE\<rparr>)
                  else (OM_OK, w1\<lparr>world := W, file_offset := file_offset w1 + write_size, buffer := []\<rparr>))"

definition om_wal_fsync :: "'w os_ops \<Rightarrow> 'w OmWal \<Rightarrow> OmError \<times> 'w OmWal" where
  "om_wal_fsync os w =
     (if last_error w \<noteq> OM_OK then (last_error w, w)
      else case (if buffer w \<noteq> [] then om_wal_flush os w else (OM_OK, w)) of (rc, w1) \<Rightarrow>
        if rc \<noteq> OM_OK then (OM_ERR_WAL_FLUSH, w1)
        else case os_fsync os (fd w1) (world w1) of (ok, W) \<Rightarrow>
          if \<not> ok then (OM_ERR_WAL_FSYNC, w1\<lparr>world := W, last_error := OM_ERR_WAL_FSYNC\<rparr>)
          else (OM_OK, w1\<lparr>world := W\<rparr>))"

definition om_wal_set_slab :: "'w OmWal \<Rightarrow> bool \<Rightarrow> 'w OmWal" where
  "om_wal_set_slab w present = w\<lparr>has_slab := present\<rparr>"

definition om_wal_set_post_write ::
  "'w OmWal \<Rightarrow> (u64 \<Rightarrow> u8 \<Rightarrow> u8 list \<Rightarrow> u16 \<Rightarrow> 'w \<Rightarrow> 'w) option \<Rightarrow> 'w OmWal" where
  "om_wal_set_post_write w fn = w\<lparr>post_write := fn\<rparr>"

definition om_wal_close :: "'w os_ops \<Rightarrow> 'w OmWal \<Rightarrow> 'w OmWal" where
  "om_wal_close os w =
     (let w1 = (if buffer w \<noteq> [] then snd (om_wal_flush os w) else w);
          w2 = (if 0 \<le> fd w1
                then w1\<lparr>world := os_close os (fd w1) (snd (os_fsync os (fd w1) (world w1))), fd := -1\<rparr>
                else w1)
      in w2)"

text \<open>
  The guards shared by \<^verbatim>\<open>wal_append\<close> and \<^verbatim>\<open>om_wal_insert\<close>: a sticky error, a record that does
  not fit, an exhausted 40-bit sequence, and the flush that makes room.
\<close>

definition wal_reserve :: "'w os_ops \<Rightarrow> nat \<Rightarrow> 'w OmWal \<Rightarrow> bool \<times> 'w OmWal" where
  "wal_reserve os data_size w =
     (let total_size = WAL_HEADER_SIZE + data_size + (if wcfg_enable_crc32 (wal_config w) then WAL_CRC32_SIZE else 0)
      in if last_error w \<noteq> OM_OK then (False, w)
         else if 65535 < data_size \<or> buffer_size w < total_size \<or> 2 ^ 40 \<le> unat (sequence w)
         then (False, w\<lparr>last_error := OM_ERR_WAL_WRITE\<rparr>)
         else if buffer_size w < length (buffer w) + total_size
         then (case om_wal_flush os w of (rc, w1) \<Rightarrow> (rc = OM_OK, w1))
         else (True, w))"

text \<open>The bytes of one record: header, payload and, when enabled, the checksum of both.\<close>

definition wal_frame :: "bool \<Rightarrow> u64 \<Rightarrow> OmWalType \<Rightarrow> u8 list \<Rightarrow> u8 list" where
  "wal_frame crc seq ty payload =
     (let body = put64 (om_wal_pack_header seq (ucast ty) (of_nat (length payload))) @ payload
      in body @ (if crc then put32 (crc32_compute body) else []))"

definition wal_emit :: "OmWalType \<Rightarrow> u8 list \<Rightarrow> 'w OmWal \<Rightarrow> u64 \<times> 'w OmWal" where
  "wal_emit ty payload w =
     (let seq = sequence w;
          w1 = w\<lparr>sequence := seq + 1,
                 buffer := buffer w @ wal_frame (wcfg_enable_crc32 (wal_config w)) seq ty payload\<rparr>
      in case post_write w1 of None \<Rightarrow> (seq, w1)
         | Some f \<Rightarrow> (seq, w1\<lparr>world := f seq (ucast ty) payload (of_nat (length payload)) (world w1)\<rparr>))"

definition wal_append :: "'w os_ops \<Rightarrow> 'w OmWal \<Rightarrow> OmWalType \<Rightarrow> u8 list \<Rightarrow> u64 \<times> 'w OmWal" where
  "wal_append os w ty payload =
     (case wal_reserve os (length payload) w of (ok, w1) \<Rightarrow>
        if ok then wal_emit ty payload w1 else (0, w1))"

text \<open>
  Logging an order: the fixed fields of its slot, its user data and, when the log knows the
  slab, its aux data (zeros otherwise).
\<close>

definition om_wal_insert :: "'w os_ops \<Rightarrow> 'w OmWal \<Rightarrow> OmDualSlab \<Rightarrow> nat \<Rightarrow> u16 \<Rightarrow> u64 \<times> 'w OmWal" where
  "om_wal_insert os w s slot pid =
     (let user_n = wcfg_user_data_size (wal_config w);
          aux_n = wcfg_aux_data_size (wal_config w);
          sl = slot_at s slot
      in case wal_reserve os ((sizeof_OmWalInsert + user_n + aux_n) mod 2 ^ 64) w of (ok, w1) \<Rightarrow>
        if \<not> ok then (0, w1)
        else case wal_clock os w1 of (now, w2) \<Rightarrow>
          let rec = \<lparr>wi_order_id = ucast (order_id sl), wi_price = price sl, wi_volume = volume sl,
                wi_vol_remain = volume_remain sl, wi_org = org sl, wi_flags = flags sl,
                wi_product_id = pid, wi_reserved = 0, wi_user_data_size = of_nat user_n,
                wi_aux_data_size = of_nat aux_n, wi_timestamp_ns = now\<rparr>;
              aux = (if has_slab w2 then take aux_n (om_slot_get_aux_data s slot) else replicate aux_n 0)
          in wal_emit OM_WAL_INSERT (enc_insert rec @ take user_n (user_data sl) @ aux) w2)"

text \<open>Cancel, deactivate and activate records differ in their tag only.\<close>

definition wal_order_record :: "'w os_ops \<Rightarrow> OmWalType \<Rightarrow> 'w OmWal \<Rightarrow> u32 \<Rightarrow> nat \<Rightarrow> u16 \<Rightarrow> u64 \<times> 'w OmWal" where
  "wal_order_record os ty w oid idx pid =
     (case wal_clock os w of (now, w1) \<Rightarrow>
        wal_append os w1 ty (enc_cancel \<lparr>wc_order_id = ucast oid, wc_timestamp_ns = now,
          wc_slot_idx = of_nat idx, wc_product_id = pid, wc_reserved = 0\<rparr>))"

definition om_wal_cancel :: "'w os_ops \<Rightarrow> 'w OmWal \<Rightarrow> u32 \<Rightarrow> nat \<Rightarrow> u16 \<Rightarrow> u64 \<times> 'w OmWal" where
  "om_wal_cancel os = wal_order_record os OM_WAL_CANCEL"

definition om_wal_deactivate :: "'w os_ops \<Rightarrow> 'w OmWal \<Rightarrow> u32 \<Rightarrow> nat \<Rightarrow> u16 \<Rightarrow> u64 \<times> 'w OmWal" where
  "om_wal_deactivate os = wal_order_record os OM_WAL_DEACTIVATE"

definition om_wal_activate :: "'w os_ops \<Rightarrow> 'w OmWal \<Rightarrow> u32 \<Rightarrow> nat \<Rightarrow> u16 \<Rightarrow> u64 \<times> 'w OmWal" where
  "om_wal_activate os = wal_order_record os OM_WAL_ACTIVATE"

definition om_wal_match :: "'w os_ops \<Rightarrow> 'w OmWal \<Rightarrow> OmWalMatch \<Rightarrow> u64 \<times> 'w OmWal" where
  "om_wal_match os w rec = wal_append os w OM_WAL_MATCH (enc_match rec)"

definition om_wal_append_custom :: "'w os_ops \<Rightarrow> 'w OmWal \<Rightarrow> OmWalType \<Rightarrow> u8 list \<Rightarrow> u64 \<times> 'w OmWal" where
  "om_wal_append_custom os w ty payload =
     (if ty < OM_WAL_USER_BASE then (0, w) else wal_append os w ty payload)"

end
