(* ===== verification/Orderbook.thy ===== *)
theory Orderbook
  imports Hash Wal "HOL-Library.Tree"
begin

text \<open>
  The order book of \<^verbatim>\<open>include/openmatch/orderbook.h\<close> and \<^verbatim>\<open>src/orderbook.c\<close>: definitions.

  Per product and side the best price level heads a doubly linked list of levels (queue 1 of
  the slots), every level is a time queue (queue 2), all orders of an organisation and a
  product are linked in queue 3, and a search tree over the level heads locates prices.

  Slot pointers are slot indices.  The tree is klib's \<^verbatim>\<open>kavl\<close>, a third-party header: its
  insertion and erasure are fields of the environment, and its nodes are the indices of the
  preallocated price nodes.  The log pointer of the context and of the engine is one object,
  kept here.
\<close>

section \<open>State\<close>

text \<open>
  The code that is not part of the program: the hash table, the balanced tree (given the
  current key of every node) and the operating system.
\<close>

record ('h, 'i, 'w) env =
  env_hash :: "('h, u64, 'i, OmOrderEntry) khash_ops"
  kavl_insert :: "(nat \<Rightarrow> u64) \<Rightarrow> nat tree \<Rightarrow> nat \<Rightarrow> nat tree"
  kavl_erase :: "(nat \<Rightarrow> u64) \<Rightarrow> nat tree \<Rightarrow> u64 \<Rightarrow> nat tree"
  env_os :: "'w os_ops"

record OmProductBook =
  bid_head_q1 :: nat
  ask_head_q1 :: nat

record OmPriceNode =
  pn_price :: u64
  pn_slot :: nat
  known_org :: u32

record ('h, 'w) OmOrderbookContext =
  slab :: OmDualSlab
  products :: "u16 \<Rightarrow> OmProductBook"
  max_products :: u32
  max_org :: u32
  org_heads :: "u32 \<Rightarrow> nat"
  order_hashmap :: 'h
  price_nodes :: "nat \<Rightarrow> OmPriceNode"
  price_roots :: "nat \<Rightarrow> nat tree"
  wal :: "'w OmWal option"

definition upd_slab :: "(OmDualSlab \<Rightarrow> OmDualSlab) \<Rightarrow> ('h, 'w) OmOrderbookContext \<Rightarrow> ('h, 'w) OmOrderbookContext" where
  "upd_slab f c = c\<lparr>slab := f (slab c)\<rparr>"

definition book_head :: "('h, 'w) OmOrderbookContext \<Rightarrow> u16 \<Rightarrow> bool \<Rightarrow> nat" where
  "book_head c pid is_bid = (if is_bid then bid_head_q1 (products c pid) else ask_head_q1 (products c pid))"

definition set_book_head :: "u16 \<Rightarrow> bool \<Rightarrow> nat \<Rightarrow> ('h, 'w) OmOrderbookContext \<Rightarrow> ('h, 'w) OmOrderbookContext" where
  "set_book_head pid is_bid i c = c\<lparr>products := (products c)(pid :=
     (if is_bid then (products c pid)\<lparr>bid_head_q1 := i\<rparr> else (products c pid)\<lparr>ask_head_q1 := i\<rparr>))\<rparr>"

section \<open>The price index\<close>

definition price_root :: "u16 \<Rightarrow> bool \<Rightarrow> nat" where
  "price_root product bid = unat product * 2 + (if bid then 0 else 1)"

definition node_key :: "('h, 'w) OmOrderbookContext \<Rightarrow> nat \<Rightarrow> u64" where
  "node_key c i = pn_price (price_nodes c i)"

definition price_add ::
  "('h, 'i, 'w) env \<Rightarrow> ('h, 'w) OmOrderbookContext \<Rightarrow> u16 \<Rightarrow> bool \<Rightarrow> nat \<Rightarrow> ('h, 'w) OmOrderbookContext" where
  "price_add E c product bid slot =
     (let c1 = c\<lparr>price_nodes := (price_nodes c)(slot := \<lparr>pn_price = price (slot_at (slab c) slot), pn_slot = slot,
                  known_org = ucast (org (slot_at (slab c) slot))\<rparr>)\<rparr>;
          r = price_root product bid
      in c1\<lparr>price_roots := (price_roots c1)(r := kavl_insert E (node_key c1) (price_roots c1 r) slot)\<rparr>)"

definition price_remove ::
  "('h, 'i, 'w) env \<Rightarrow> ('h, 'w) OmOrderbookContext \<Rightarrow> u16 \<Rightarrow> bool \<Rightarrow> nat \<Rightarrow> ('h, 'w) OmOrderbookContext" where
  "price_remove E c product bid slot =
     (let r = price_root product bid
      in c\<lparr>price_roots := (price_roots c)(r :=
           kavl_erase E (node_key c) (price_roots c r) (price (slot_at (slab c) slot)))\<rparr>)"

definition set_known_org :: "nat \<Rightarrow> u32 \<Rightarrow> ('h, 'w) OmOrderbookContext \<Rightarrow> ('h, 'w) OmOrderbookContext" where
  "set_known_org i v c = c\<lparr>price_nodes := (price_nodes c)(i := (price_nodes c i)\<lparr>known_org := v\<rparr>)\<rparr>"

definition price_promote ::
  "('h, 'i, 'w) env \<Rightarrow> ('h, 'w) OmOrderbookContext \<Rightarrow> u16 \<Rightarrow> bool \<Rightarrow> nat \<Rightarrow> nat \<Rightarrow> ('h, 'w) OmOrderbookContext" where
  "price_promote E c product bid old nxt =
     (let known = known_org (price_nodes c old)
      in set_known_org nxt known (price_add E (price_remove E c product bid old) product bid nxt))"

text \<open>\<open>first_other_loop s idx org\<close>: the first slot from \<open>idx\<close> on that is not of \<open>org\<close>, or NULL.\<close>

partial_function (option) first_other_loop :: "OmDualSlab \<Rightarrow> nat \<Rightarrow> u16 \<Rightarrow> nat option" where
  "first_other_loop s idx og =
     (if idx = OM_SLOT_IDX_NULL then Some OM_SLOT_IDX_NULL
      else case om_slot_from_idx s idx of None \<Rightarrow> Some idx
        | Some slot \<Rightarrow> if org (slot_at s slot) \<noteq> og then Some idx
            else first_other_loop s (qnext OM_Q2_TIME_FIFO s slot) og)"

definition om_orderbook_first_other_org ::
  "('h, 'w) OmOrderbookContext \<Rightarrow> nat \<Rightarrow> u16 \<Rightarrow> (nat \<times> ('h, 'w) OmOrderbookContext) option" where
  "om_orderbook_first_other_org c head_idx og =
     (if a_capacity (slab_a (slab c)) \<le> head_idx then Some (OM_SLOT_IDX_NULL, c)
      else let known = known_org (price_nodes c head_idx)
        in if known \<noteq> 0xFFFFFFFF
           then Some (if known = ucast og then OM_SLOT_IDX_NULL else head_idx, c)
           else case first_other_loop (slab c) head_idx og of None \<Rightarrow> None
             | Some idx \<Rightarrow> if idx = OM_SLOT_IDX_NULL
                 then Some (OM_SLOT_IDX_NULL, set_known_org head_idx (ucast og) c)
                 else Some (idx, c))"

section \<open>Initialisation and destruction\<close>

record ob_allocs =
  alloc_products :: bool
  alloc_org_heads :: bool
  alloc_slab_a :: bool
  alloc_slab_block :: bool
  alloc_slab_blocks :: bool
  alloc_map :: bool
  alloc_nodes :: bool
  alloc_roots :: bool

definition om_orderbook_init ::
  "('h, 'i, 'w) env \<Rightarrow> ob_allocs \<Rightarrow> OmSlabConfig \<Rightarrow> 'w OmWal option \<Rightarrow> u32 \<Rightarrow> u32 \<Rightarrow> u32
    \<Rightarrow> OmError + ('h, 'w) OmOrderbookContext" where
  "om_orderbook_init E A config w mp mo hashmap_initial_cap =
     (if mp = 0 \<or> mo = 0 then Inl OM_ERR_INVALID_PARAM
      else if \<not> alloc_products A then Inl OM_ERR_PRODUCT_ALLOC
      else if \<not> alloc_org_heads A then Inl OM_ERR_ORG_ALLOC
      else case om_slab_init config (alloc_slab_a A) (alloc_slab_block A) (alloc_slab_blocks A) of
        Inl e \<Rightarrow> Inl e
      | Inr s \<Rightarrow>
        let hash_cap = (if hashmap_initial_cap \<noteq> 0 then hashmap_initial_cap else cfg_total_slots config)
        in case om_hash_create (env_hash E) (alloc_map A) (unat hash_cap) of
             None \<Rightarrow> Inl OM_ERR_HASH_INIT
           | Some h \<Rightarrow>
             if \<not> alloc_nodes A \<or> \<not> alloc_roots A then Inl OM_ERR_PRODUCT_ALLOC
             else Inr \<lparr>slab = s,
               products = (\<lambda>p. if unat p < unat mp
                 then \<lparr>bid_head_q1 = OM_SLOT_IDX_NULL, ask_head_q1 = OM_SLOT_IDX_NULL\<rparr>
                 else \<lparr>bid_head_q1 = 0, ask_head_q1 = 0\<rparr>),
               max_products = mp, max_org = mo,
               org_heads = (\<lambda>i. if i < mp * mo then OM_SLOT_IDX_NULL else 0),
               order_hashmap = h,
               price_nodes = (\<lambda>_. \<lparr>pn_price = 0, pn_slot = 0, known_org = 0\<rparr>),
               price_roots = (\<lambda>_. Leaf),
               wal = map_option (\<lambda>w. om_wal_set_slab w True) w\<rparr>)"

text \<open>Destruction writes the log out; the arrays are freed and not readable afterwards.\<close>

definition om_orderbook_destroy ::
  "('h, 'i, 'w) env \<Rightarrow> ('h, 'w) OmOrderbookContext \<Rightarrow> ('h, 'w) OmOrderbookContext" where
  "om_orderbook_destroy E c =
     c\<lparr>wal := map_option (\<lambda>w. snd (om_wal_fsync (env_os E) (snd (om_wal_flush (env_os E) w)))) (wal c),
       slab := om_slab_destroy (slab c), products := (\<lambda>_. \<lparr>bid_head_q1 = 0, ask_head_q1 = 0\<rparr>),
       price_roots := (\<lambda>_. Leaf)\<rparr>"

section \<open>Locating a price level\<close>

text \<open>The walk down the tree, with the insertion point found so far.\<close>

fun price_descend :: "('h, 'w) OmOrderbookContext \<Rightarrow> u64 \<Rightarrow> bool \<Rightarrow> nat tree \<Rightarrow> nat option \<Rightarrow> nat option \<times> nat option" where
  "price_descend c pr is_bid Leaf ins = (None, ins)"
| "price_descend c pr is_bid (Node l n r) ins =
     (if node_key c n = pr then (om_slot_from_idx (slab c) (pn_slot (price_nodes c n)), ins)
      else if pr < node_key c n
      then price_descend c pr is_bid l (if is_bid then om_slot_from_idx (slab c) (pn_slot (price_nodes c n)) else ins)
      else price_descend c pr is_bid r (if \<not> is_bid then om_slot_from_idx (slab c) (pn_slot (price_nodes c n)) else ins))"

definition find_price_level_with_insertion_point ::
  "('h, 'w) OmOrderbookContext \<Rightarrow> u16 \<Rightarrow> u64 \<Rightarrow> bool \<Rightarrow> nat option \<times> nat option" where
  "find_price_level_with_insertion_point c pid pr is_bid =
     (let head_idx = book_head c pid is_bid
      in if head_idx = OM_SLOT_IDX_NULL then (None, None)
         else let head_price = price (slot_at (slab c) head_idx)
              in if is_bid \<and> head_price < pr then (None, None)
                 else if \<not> is_bid \<and> pr < head_price then (None, None)
                 else price_descend c pr is_bid (price_roots c (price_root pid is_bid)) None)"

section \<open>Insertion\<close>

definition insert_order_at ::
  "('h, 'w) OmOrderbookContext \<Rightarrow> u16 \<Rightarrow> bool \<Rightarrow> nat \<Rightarrow> nat option \<Rightarrow> ('h, 'w) OmOrderbookContext" where
  "insert_order_at c pid is_bid order insert_after =
     (let c1 = upd_slab (\<lambda>s. set_prev OM_Q1_PRICE_LADDER order OM_SLOT_IDX_NULL
                  (set_next OM_Q1_PRICE_LADDER order OM_SLOT_IDX_NULL s)) c
      in case insert_after of
           None \<Rightarrow>
             let head_idx = book_head c1 pid is_bid;
                 c2 = (if head_idx \<noteq> OM_SLOT_IDX_NULL
                       then upd_slab (\<lambda>s. set_prev OM_Q1_PRICE_LADDER head_idx order
                              (set_next OM_Q1_PRICE_LADDER order head_idx s)) c1
                       else c1)
             in set_book_head pid is_bid order c2
         | Some after \<Rightarrow> upd_slab (\<lambda>s. om_queue_link_after s after order OM_Q1_PRICE_LADDER) c1)"

definition append_to_time_queue ::
  "('h, 'w) OmOrderbookContext \<Rightarrow> nat \<Rightarrow> nat \<Rightarrow> ('h, 'w) OmOrderbookContext" where
  "append_to_time_queue c head order =
     (let tail_idx = qprev OM_Q2_TIME_FIFO (slab c) head;
          tail = (if tail_idx \<noteq> OM_SLOT_IDX_NULL then tail_idx else head)
      in upd_slab (\<lambda>s. set_prev OM_Q2_TIME_FIFO head order (om_queue_link_after s tail order OM_Q2_TIME_FIFO)) c)"

definition remove_price_level ::
  "('h, 'i, 'w) env \<Rightarrow> ('h, 'w) OmOrderbookContext \<Rightarrow> u16 \<Rightarrow> nat \<Rightarrow> bool \<Rightarrow> ('h, 'w) OmOrderbookContext" where
  "remove_price_level E c pid level is_bid =
     (let c1 = (if book_head c pid is_bid = level
                then set_book_head pid is_bid (qnext OM_Q1_PRICE_LADDER (slab c) level) c else c)
      in upd_slab (\<lambda>s. snd (om_queue_unlink s level OM_Q1_PRICE_LADDER)) (price_remove E c1 pid is_bid level))"

text \<open>The index of an organisation's list head is computed in 32 bits.\<close>

definition org_index :: "('h, 'w) OmOrderbookContext \<Rightarrow> u16 \<Rightarrow> u16 \<Rightarrow> u32" where
  "org_index c pid og = ucast pid * max_org c + ucast og"

definition org_in_range :: "('h, 'w) OmOrderbookContext \<Rightarrow> u16 \<Rightarrow> u16 \<Rightarrow> bool" where
  "org_in_range c pid og \<longleftrightarrow> ucast pid < max_products c \<and> ucast og < max_org c"

definition set_org_head :: "u32 \<Rightarrow> nat \<Rightarrow> ('h, 'w) OmOrderbookContext \<Rightarrow> ('h, 'w) OmOrderbookContext" where
  "set_org_head i v c = c\<lparr>org_heads := (org_heads c)(i := v)\<rparr>"

definition org_queue_insert ::
  "('h, 'w) OmOrderbookContext \<Rightarrow> u16 \<Rightarrow> nat \<Rightarrow> ('h, 'w) OmOrderbookContext" where
  "org_queue_insert c pid order =
     (let og = org (slot_at (slab c) order); i = org_index c pid og
      in if org_in_range c pid og
         then if org_heads c i = OM_SLOT_IDX_NULL
              then upd_slab (\<lambda>s. set_next OM_Q3_ORG_QUEUE order OM_SLOT_IDX_NULL
                     (set_prev OM_Q3_ORG_QUEUE order OM_SLOT_IDX_NULL s)) (set_org_head i order c)
              else set_org_head i order
                     (upd_slab (\<lambda>s. om_queue_link_before s (org_heads c i) order OM_Q3_ORG_QUEUE) c)
         else c)"

text \<open>Linking an order into the book: its price level and its organisation's list.\<close>

definition book_link ::
  "('h, 'i, 'w) env \<Rightarrow> ('h, 'w) OmOrderbookContext \<Rightarrow> u16 \<Rightarrow> nat \<Rightarrow> ('h, 'w) OmOrderbookContext" where
  "book_link E c pid order =
     (let sl = slot_at (slab c) order; is_bid = OM_IS_BID (flags sl);
          c1 = (case find_price_level_with_insertion_point c pid (price sl) is_bid of
              (None, insert_after) \<Rightarrow>
                upd_slab (\<lambda>s. set_next OM_Q2_TIME_FIFO order OM_SLOT_IDX_NULL
                    (set_prev OM_Q2_TIME_FIFO order OM_SLOT_IDX_NULL s))
                  (price_add E (insert_order_at c pid is_bid order insert_after) pid is_bid order)
            | (Some head, _) \<Rightarrow>
                let c2 = append_to_time_queue c head order;
                    known = known_org (price_nodes c2 head)
                in if known \<noteq> 0xFFFFFFFF \<and> known \<noteq> ucast (org sl) then set_known_org head 0xFFFFFFFF c2 else c2)
      in org_queue_insert c1 pid order)"

definition om_orderbook_insert ::
  "('h, 'i, 'w) env \<Rightarrow> ('h, 'w) OmOrderbookContext \<Rightarrow> u16 \<Rightarrow> nat \<Rightarrow> OmError \<times> ('h, 'w) OmOrderbookContext" where
  "om_orderbook_insert E c pid order =
     (let sl = slot_at (slab c) order; key = ucast (order_id sl)
      in if \<not> org_in_range c pid (org sl) \<or> order_id sl = 0 then (OM_ERR_RECOVERY_FAILED, c)
         else if om_hash_get (env_hash E) (order_hashmap c) key \<noteq> None then (OM_ERR_RECOVERY_FAILED, c)
         else case om_hash_insert (env_hash E) (order_hashmap c) key \<lparr>slot_idx = order, product_id = pid\<rparr> of (ok, h) \<Rightarrow>
           if \<not> ok then (OM_ERR_RECOVERY_FAILED, c\<lparr>order_hashmap := h\<rparr>)
           else let c1 = c\<lparr>order_hashmap := h\<rparr> in
             case wal c1 of
               None \<Rightarrow> (OM_OK, book_link E c1 pid order)
             | Some w \<Rightarrow>
               (case om_wal_insert (env_os E) w (slab c1) order pid of (seq, w') \<Rightarrow>
                  let c2 = c1\<lparr>wal := Some w'\<rparr>
                  in if seq = 0
                     then (OM_ERR_WAL_WRITE, c2\<lparr>order_hashmap := snd (om_hash_remove (env_hash E) h key)\<rparr>)
                     else (OM_OK, book_link E c2 pid order)))"

section \<open>Removal\<close>

text \<open>
  Taking an order out of its price level: the block that \<^verbatim>\<open>om_orderbook_cancel\<close>,
  \<^verbatim>\<open>om_orderbook_remove_slot\<close> and \<^verbatim>\<open>om_orderbook_unlink_slot\<close> share.  \<open>promote_links\<close> are the
  link updates that make the second order of a level its head.
\<close>

definition promote_q2 :: "nat \<Rightarrow> nat \<Rightarrow> OmDualSlab \<Rightarrow> OmDualSlab" where
  "promote_q2 head nxt s =
     (let s1 = set_prev OM_Q2_TIME_FIFO nxt (qprev OM_Q2_TIME_FIFO s head) s;
          s2 = (if qnext OM_Q2_TIME_FIFO s1 nxt = OM_SLOT_IDX_NULL
                then set_prev OM_Q2_TIME_FIFO nxt OM_SLOT_IDX_NULL s1 else s1)
      in if qnext OM_Q2_TIME_FIFO s2 nxt \<noteq> OM_SLOT_IDX_NULL
         then (case om_slot_from_idx s2 (qnext OM_Q2_TIME_FIFO s2 nxt) of None \<Rightarrow> s2
               | Some after \<Rightarrow> set_prev OM_Q2_TIME_FIFO after nxt s2)
         else s2)"

definition promote_q1 :: "nat \<Rightarrow> nat \<Rightarrow> OmDualSlab \<Rightarrow> OmDualSlab" where
  "promote_q1 head nxt s =
     (let prev_q1 = qprev OM_Q1_PRICE_LADDER s head;
          next_q1 = qnext OM_Q1_PRICE_LADDER s head;
          s1 = set_next OM_Q1_PRICE_LADDER nxt next_q1 (set_prev OM_Q1_PRICE_LADDER nxt prev_q1 s);
          s2 = (if prev_q1 \<noteq> OM_SLOT_IDX_NULL
                then (case om_slot_from_idx s1 prev_q1 of None \<Rightarrow> s1
                      | Some p \<Rightarrow> set_next OM_Q1_PRICE_LADDER p nxt s1) else s1)
      in if next_q1 \<noteq> OM_SLOT_IDX_NULL
         then (case om_slot_from_idx s2 next_q1 of None \<Rightarrow> s2
               | Some n \<Rightarrow> set_prev OM_Q1_PRICE_LADDER n nxt s2) else s2)"

definition clear_links :: "nat \<Rightarrow> OmDualSlab \<Rightarrow> OmDualSlab" where
  "clear_links head s =
     set_prev OM_Q2_TIME_FIFO head OM_SLOT_IDX_NULL (set_next OM_Q2_TIME_FIFO head OM_SLOT_IDX_NULL
       (set_prev OM_Q1_PRICE_LADDER head OM_SLOT_IDX_NULL (set_next OM_Q1_PRICE_LADDER head OM_SLOT_IDX_NULL s)))"

definition promote_links :: "nat \<Rightarrow> nat \<Rightarrow> OmDualSlab \<Rightarrow> OmDualSlab" where
  "promote_links head nxt s = clear_links head (promote_q1 head nxt (promote_q2 head nxt s))"

definition level_unlink ::
  "('h, 'i, 'w) env \<Rightarrow> ('h, 'w) OmOrderbookContext \<Rightarrow> u16 \<Rightarrow> bool \<Rightarrow> nat \<Rightarrow> nat \<Rightarrow> ('h, 'w) OmOrderbookContext" where
  "level_unlink E c pid is_bid head order =
     (let next_idx = qnext OM_Q2_TIME_FIFO (slab c) order;
          prev_q2_idx = qprev OM_Q2_TIME_FIFO (slab c) order
      in if order = head
         then if next_idx = OM_SLOT_IDX_NULL then remove_price_level E c pid head is_bid
              else let c1 = upd_slab (promote_links head next_idx) (price_promote E c pid is_bid head next_idx)
                   in if book_head c1 pid is_bid = head then set_book_head pid is_bid next_idx c1 else c1
         else let c1 = upd_slab (\<lambda>s. snd (om_queue_unlink s order OM_Q2_TIME_FIFO)) c
              in if next_idx = OM_SLOT_IDX_NULL
                 then upd_slab (set_prev OM_Q2_TIME_FIFO head
                        (if prev_q2_idx = head then OM_SLOT_IDX_NULL else prev_q2_idx)) c1
                 else c1)"

text \<open>Taking an order out of its organisation's list, with and without the head update.\<close>

definition org_head_skip ::
  "('h, 'w) OmOrderbookContext \<Rightarrow> u16 \<Rightarrow> nat \<Rightarrow> ('h, 'w) OmOrderbookContext" where
  "org_head_skip c pid order =
     (let og = org (slot_at (slab c) order); i = org_index c pid og
      in if org_in_range c pid og \<and> org_heads c i = order
         then set_org_head i (qnext OM_Q3_ORG_QUEUE (slab c) order) c else c)"

definition org_unlink :: "('h, 'w) OmOrderbookContext \<Rightarrow> nat \<Rightarrow> ('h, 'w) OmOrderbookContext" where
  "org_unlink c order = upd_slab (\<lambda>s. snd (om_queue_unlink s order OM_Q3_ORG_QUEUE)) c"

text \<open>Dropping an order's hash entry and giving its slot back.\<close>

definition release_order ::
  "('h, 'i, 'w) env \<Rightarrow> ('h, 'w) OmOrderbookContext \<Rightarrow> u32 \<Rightarrow> nat \<Rightarrow> ('h, 'w) OmOrderbookContext" where
  "release_order E c oid order =
     upd_slab (\<lambda>s. om_slab_free s order)
       (c\<lparr>order_hashmap := snd (om_hash_remove (env_hash E) (order_hashmap c) (ucast oid))\<rparr>)"

definition om_orderbook_cancel ::
  "('h, 'i, 'w) env \<Rightarrow> ('h, 'w) OmOrderbookContext \<Rightarrow> u32 \<Rightarrow> bool \<times> ('h, 'w) OmOrderbookContext" where
  "om_orderbook_cancel E c oid =
     (case om_hash_get (env_hash E) (order_hashmap c) (ucast oid) of None \<Rightarrow> (False, c)
      | Some entry \<Rightarrow>
        let order = slot_idx entry; pid = product_id entry;
            (logged, c1) = (case wal c of None \<Rightarrow> (True, c)
              | Some w \<Rightarrow> (case om_wal_cancel (env_os E) w oid order pid of (seq, w') \<Rightarrow>
                  (seq \<noteq> 0, c\<lparr>wal := Some w'\<rparr>)))
        in if \<not> logged then (False, c1)
           else let sl = slot_at (slab c1) order; is_bid = OM_IS_BID (flags sl)
             in case fst (find_price_level_with_insertion_point c1 pid (price sl) is_bid) of
                  None \<Rightarrow> (False, c1)
                | Some head \<Rightarrow>
                  (True, release_order E (org_unlink (org_head_skip
                     (level_unlink E c1 pid is_bid head order) pid order) order) oid order))"

definition om_orderbook_remove_slot ::
  "('h, 'i, 'w) env \<Rightarrow> ('h, 'w) OmOrderbookContext \<Rightarrow> u16 \<Rightarrow> nat \<Rightarrow> bool \<times> ('h, 'w) OmOrderbookContext" where
  "om_orderbook_remove_slot E c pid order =
     (let sl = slot_at (slab c) order; is_bid = OM_IS_BID (flags sl)
      in case fst (find_price_level_with_insertion_point c pid (price sl) is_bid) of
           None \<Rightarrow> (False, c)
         | Some head \<Rightarrow>
           let c1 = org_unlink (level_unlink E c pid is_bid head order) order
           in (True, release_order E c1 (order_id (slot_at (slab c1) order)) order))"

definition om_orderbook_unlink_slot ::
  "('h, 'i, 'w) env \<Rightarrow> ('h, 'w) OmOrderbookContext \<Rightarrow> u16 \<Rightarrow> nat \<Rightarrow> bool \<times> ('h, 'w) OmOrderbookContext" where
  "om_orderbook_unlink_slot E c pid order =
     (let sl = slot_at (slab c) order; is_bid = OM_IS_BID (flags sl)
      in case fst (find_price_level_with_insertion_point c pid (price sl) is_bid) of
           None \<Rightarrow> (False, c)
         | Some head \<Rightarrow>
           (True, org_unlink (org_head_skip (level_unlink E c pid is_bid head order) pid order) order))"

section \<open>Queries\<close>

definition om_orderbook_get_best_bid :: "('h, 'w) OmOrderbookContext \<Rightarrow> u16 \<Rightarrow> u64" where
  "om_orderbook_get_best_bid c pid =
     (if bid_head_q1 (products c pid) = OM_SLOT_IDX_NULL then 0
      else price (slot_at (slab c) (bid_head_q1 (products c pid))))"

definition om_orderbook_get_best_ask :: "('h, 'w) OmOrderbookContext \<Rightarrow> u16 \<Rightarrow> u64" where
  "om_orderbook_get_best_ask c pid =
     (if ask_head_q1 (products c pid) = OM_SLOT_IDX_NULL then 0
      else price (slot_at (slab c) (ask_head_q1 (products c pid))))"

definition om_orderbook_get_best_head :: "('h, 'w) OmOrderbookContext \<Rightarrow> u16 \<Rightarrow> bool \<Rightarrow> nat option" where
  "om_orderbook_get_best_head c pid is_bid =
     (let head_idx = (if is_bid then bid_head_q1 (products c pid) else ask_head_q1 (products c pid))
      in if head_idx = OM_SLOT_IDX_NULL then None else om_slot_from_idx (slab c) head_idx)"

partial_function (option) volume_loop :: "OmDualSlab \<Rightarrow> nat \<Rightarrow> u64 \<Rightarrow> u64 option" where
  "volume_loop s order_idx total_volume =
     (if order_idx = OM_SLOT_IDX_NULL then Some total_volume
      else volume_loop s (qnext OM_Q2_TIME_FIFO s order_idx) (total_volume + volume_remain (slot_at s order_idx)))"

definition om_orderbook_get_volume_at_price ::
  "('h, 'w) OmOrderbookContext \<Rightarrow> u16 \<Rightarrow> u64 \<Rightarrow> bool \<Rightarrow> u64 option" where
  "om_orderbook_get_volume_at_price c pid pr is_bid =
     (case fst (find_price_level_with_insertion_point c pid pr is_bid) of None \<Rightarrow> Some 0
      | Some level \<Rightarrow> volume_loop (slab c) level 0)"

definition om_orderbook_get_slot_by_id ::
  "('h, 'i, 'w) env \<Rightarrow> ('h, 'w) OmOrderbookContext \<Rightarrow> u32 \<Rightarrow> nat option" where
  "om_orderbook_get_slot_by_id E c oid =
     (case om_hash_get (env_hash E) (order_hashmap c) (ucast oid) of None \<Rightarrow> None
      | Some entry \<Rightarrow> om_slot_from_idx (slab c) (slot_idx entry))"

definition om_orderbook_price_level_exists :: "('h, 'w) OmOrderbookContext \<Rightarrow> u16 \<Rightarrow> u64 \<Rightarrow> bool \<Rightarrow> bool" where
  "om_orderbook_price_level_exists c pid pr is_bid \<longleftrightarrow>
     fst (find_price_level_with_insertion_point c pid pr is_bid) \<noteq> None"

partial_function (option) level_count_loop :: "OmDualSlab \<Rightarrow> nat \<Rightarrow> u32 \<Rightarrow> u32 option" where
  "level_count_loop s curr_idx count =
     (if curr_idx = OM_SLOT_IDX_NULL then Some count
      else level_count_loop s (qnext OM_Q1_PRICE_LADDER s curr_idx) (count + 1))"

definition om_orderbook_get_price_level_count ::
  "('h, 'w) OmOrderbookContext \<Rightarrow> u16 \<Rightarrow> bool \<Rightarrow> u32 option" where
  "om_orderbook_get_price_level_count c pid is_bid =
     (if book_head c pid is_bid = OM_SLOT_IDX_NULL then Some 0
      else level_count_loop (slab c) (book_head c pid is_bid) 0)"

section \<open>Batch cancellation\<close>

partial_function (option) cancel_org_loop ::
  "('h, 'i, 'w) env \<Rightarrow> nat \<Rightarrow> u32 \<Rightarrow> ('h, 'w) OmOrderbookContext \<Rightarrow> (u32 \<times> ('h, 'w) OmOrderbookContext) option" where
  "cancel_org_loop E idx cancelled c =
     (if idx = OM_SLOT_IDX_NULL then Some (cancelled, c)
      else case om_slot_from_idx (slab c) idx of None \<Rightarrow> Some (cancelled, c)
        | Some order \<Rightarrow>
          let next_idx = qnext OM_Q3_ORG_QUEUE (slab c) order;
              r = om_orderbook_cancel E c (order_id (slot_at (slab c) order))
          in cancel_org_loop E next_idx (if fst r then cancelled + 1 else cancelled) (snd r))"

definition om_orderbook_cancel_org_product ::
  "('h, 'i, 'w) env \<Rightarrow> ('h, 'w) OmOrderbookContext \<Rightarrow> u16 \<Rightarrow> u16 \<Rightarrow> (u32 \<times> ('h, 'w) OmOrderbookContext) option" where
  "om_orderbook_cancel_org_product E c pid og =
     (if \<not> org_in_range c pid og then Some (0, c)
      else cancel_org_loop E (org_heads c (org_index c pid og)) 0 c)"

text \<open>The product loop counts in 32 bits and casts the counter to a 16-bit product id.\<close>

fun cancel_org_products ::
  "('h, 'i, 'w) env \<Rightarrow> u16 \<Rightarrow> nat list \<Rightarrow> u32 \<Rightarrow> ('h, 'w) OmOrderbookContext \<Rightarrow> (u32 \<times> ('h, 'w) OmOrderbookContext) option" where
  "cancel_org_products E og [] cancelled c = Some (cancelled, c)"
| "cancel_org_products E og (p # ps) cancelled c =
     (case om_orderbook_cancel_org_product E c (of_nat p) og of None \<Rightarrow> None
      | Some (n, c') \<Rightarrow> cancel_org_products E og ps (cancelled + n) c')"

definition om_orderbook_cancel_org_all ::
  "('h, 'i, 'w) env \<Rightarrow> ('h, 'w) OmOrderbookContext \<Rightarrow> u16 \<Rightarrow> (u32 \<times> ('h, 'w) OmOrderbookContext) option" where
  "om_orderbook_cancel_org_all E c og =
     (if \<not> ucast og < max_org c then Some (0, c)
      else cancel_org_products E og [0..<unat (max_products c)] 0 c)"

partial_function (option) cancel_level_loop ::
  "('h, 'i, 'w) env \<Rightarrow> nat \<Rightarrow> u32 \<Rightarrow> ('h, 'w) OmOrderbookContext \<Rightarrow> (u32 \<times> ('h, 'w) OmOrderbookContext) option" where
  "cancel_level_loop E order_idx cancelled c =
     (if order_idx = OM_SLOT_IDX_NULL then Some (cancelled, c)
      else case om_slot_from_idx (slab c) order_idx of None \<Rightarrow> Some (cancelled, c)
        | Some order \<Rightarrow>
          let next_order_idx = qnext OM_Q2_TIME_FIFO (slab c) order;
              r = om_orderbook_cancel E c (order_id (slot_at (slab c) order))
          in cancel_level_loop E next_order_idx (if fst r then cancelled + 1 else cancelled) (snd r))"

partial_function (option) cancel_side_loop ::
  "('h, 'i, 'w) env \<Rightarrow> nat \<Rightarrow> u32 \<Rightarrow> ('h, 'w) OmOrderbookContext \<Rightarrow> (u32 \<times> ('h, 'w) OmOrderbookContext) option" where
  "cancel_side_loop E level_idx cancelled c =
     (if level_idx = OM_SLOT_IDX_NULL then Some (cancelled, c)
      else case om_slot_from_idx (slab c) level_idx of None \<Rightarrow> Some (cancelled, c)
        | Some level \<Rightarrow>
          let next_level_idx = qnext OM_Q1_PRICE_LADDER (slab c) level
          in case cancel_level_loop E level_idx cancelled c of None \<Rightarrow> None
             | Some r \<Rightarrow> cancel_side_loop E next_level_idx (fst r) (snd r))"

definition om_orderbook_cancel_product_side ::
  "('h, 'i, 'w) env \<Rightarrow> ('h, 'w) OmOrderbookContext \<Rightarrow> u16 \<Rightarrow> bool \<Rightarrow> (u32 \<times> ('h, 'w) OmOrderbookContext) option" where
  "om_orderbook_cancel_product_side E c pid is_bid =
     (if \<not> ucast pid < max_products c then Some (0, c)
      else cancel_side_loop E (book_head c pid is_bid) 0 c)"

definition om_orderbook_cancel_product ::
  "('h, 'i, 'w) env \<Rightarrow> ('h, 'w) OmOrderbookContext \<Rightarrow> u16 \<Rightarrow> (u32 \<times> ('h, 'w) OmOrderbookContext) option" where
  "om_orderbook_cancel_product E c pid =
     (if \<not> ucast pid < max_products c then Some (0, c)
      else case om_orderbook_cancel_product_side E c pid True of None \<Rightarrow> None
        | Some (n, c1) \<Rightarrow> (case om_orderbook_cancel_product_side E c1 pid False of None \<Rightarrow> None
            | Some (m, c2) \<Rightarrow> Some (n + m, c2)))"

end
