(* ===== verification/Ladder_Links.thy ===== *)
theory Ladder_Links
  imports Orderbook
begin

text \<open>
  The price ladder as a list of time queues: \<open>ladder s h L\<close> says that the levels of one side of
  one product, best first, each in arrival order, are the list of lists \<open>L\<close>, and how the link
  updates of the order book act on \<open>L\<close>.
\<close>

section \<open>Abstraction\<close>

definition ladder :: "OmDualSlab \<Rightarrow> nat \<Rightarrow> nat list list \<Rightarrow> bool" where
  "ladder s h L \<longleftrightarrow> dll OM_SLOT_IDX_NULL (qnext OM_Q1_PRICE_LADDER s) (qprev OM_Q1_PRICE_LADDER s) h (map hd L) \<and>
     (\<forall>l \<in> set L. fifo OM_SLOT_IDX_NULL (qnext OM_Q2_TIME_FIFO s) (qprev OM_Q2_TIME_FIFO s) l) \<and>
     distinct (concat L) \<and> (\<forall>i \<in> set (concat L). i < a_capacity (slab_a s))"

lemma ladderD:
  assumes "ladder s h L"
  shows "dll OM_SLOT_IDX_NULL (qnext OM_Q1_PRICE_LADDER s) (qprev OM_Q1_PRICE_LADDER s) h (map hd L)"
    and "l \<in> set L \<Longrightarrow> fifo OM_SLOT_IDX_NULL (qnext OM_Q2_TIME_FIFO s) (qprev OM_Q2_TIME_FIFO s) l"
    and "distinct (concat L)" and "i \<in> set (concat L) \<Longrightarrow> i < a_capacity (slab_a s)"
    and "i \<in> set (concat L) \<Longrightarrow> i \<noteq> OM_SLOT_IDX_NULL"
    and "l \<in> set L \<Longrightarrow> l \<noteq> []" and "l \<in> set L \<Longrightarrow> hd l \<in> set (concat L)"
    and "h = (if L = [] then OM_SLOT_IDX_NULL else hd (hd L))"
proof -
  note A = assms [unfolded ladder_def]
  show 1: "dll OM_SLOT_IDX_NULL (qnext OM_Q1_PRICE_LADDER s) (qprev OM_Q1_PRICE_LADDER s) h (map hd L)"
    and F: "l \<in> set L \<Longrightarrow> fifo OM_SLOT_IDX_NULL (qnext OM_Q2_TIME_FIFO s) (qprev OM_Q2_TIME_FIFO s) l"
    and "distinct (concat L)" and "i \<in> set (concat L) \<Longrightarrow> i < a_capacity (slab_a s)" for l i
    using A by blast+
  show "i \<in> set (concat L) \<Longrightarrow> i \<noteq> OM_SLOT_IDX_NULL" using F fifoD(4) by fastforce
  show ne: "l \<in> set L \<Longrightarrow> l \<noteq> []" for l using F fifoD(1) by blast
  show "l \<in> set L \<Longrightarrow> hd l \<in> set (concat L)" using ne [of l] hd_in_set [of l] unfolding set_concat by blast
  show "h = (if L = [] then OM_SLOT_IDX_NULL else hd (hd L))"
    using dllD(5) [OF 1] by (cases L) auto
qed

text \<open>\<open>touches X s t\<close>: from \<open>s\<close> to \<open>t\<close> only ladder links of slots in \<open>X\<close> and organisation links changed.\<close>

definition touches :: "nat set \<Rightarrow> OmDualSlab \<Rightarrow> OmDualSlab \<Rightarrow> bool" where
  "touches X s t \<longleftrightarrow> same_frame s t \<and> qnext OM_Q0_INTERNAL_FREE t = qnext OM_Q0_INTERNAL_FREE s \<and>
     (\<forall>j. j \<notin> X \<longrightarrow> qnext OM_Q1_PRICE_LADDER t j = qnext OM_Q1_PRICE_LADDER s j \<and>
        qprev OM_Q1_PRICE_LADDER t j = qprev OM_Q1_PRICE_LADDER s j \<and>
        qnext OM_Q2_TIME_FIFO t j = qnext OM_Q2_TIME_FIFO s j \<and>
        qprev OM_Q2_TIME_FIFO t j = qprev OM_Q2_TIME_FIFO s j)"

lemma touches_refl [simp]: "touches X s s"
  by (simp add: touches_def)

lemma touches_trans: "touches X s t \<Longrightarrow> touches X t u \<Longrightarrow> touches X s u"
  by (auto simp: touches_def intro: same_frame_trans)

lemma touches_mono: "touches X s t \<Longrightarrow> X \<subseteq> Y \<Longrightarrow> touches Y s t"
  by (auto simp: touches_def)

lemma touches_frame: "touches X s t \<Longrightarrow> same_frame s t"
  by (simp add: touches_def)

lemma touches_slab_inv: "touches X s t \<Longrightarrow> slab_inv t F = slab_inv s F"
  unfolding touches_def by (rule slab_inv_frame) auto

lemma ladder_touches:
  assumes "touches X s t" and "X \<inter> set (concat L) = {}"
  shows "ladder t h L = ladder s h L"
proof -
  have out: "i \<notin> X" if "l \<in> set L" "i \<in> set l" for i l using that assms(2) by auto
  have ne: "fifo OM_SLOT_IDX_NULL (qnext OM_Q2_TIME_FIFO s) (qprev OM_Q2_TIME_FIFO s) l
      = fifo OM_SLOT_IDX_NULL (qnext OM_Q2_TIME_FIFO t) (qprev OM_Q2_TIME_FIFO t) l" if "l \<in> set L" for l
    by (rule fifo_cong) (use assms(1) out [OF that] in \<open>auto simp: touches_def\<close>)
  have cap: "a_capacity (slab_a t) = a_capacity (slab_a s)"
    using same_frameD(3) [OF touches_frame [OF assms(1)]] .
  show ?thesis
  proof (cases "\<forall>l \<in> set L. l \<noteq> []")
    case True
    have "dll OM_SLOT_IDX_NULL (qnext OM_Q1_PRICE_LADDER s) (qprev OM_Q1_PRICE_LADDER s) h (map hd L)
        = dll OM_SLOT_IDX_NULL (qnext OM_Q1_PRICE_LADDER t) (qprev OM_Q1_PRICE_LADDER t) h (map hd L)"
      by (rule dll_cong) (use assms(1) out True in \<open>auto simp: touches_def\<close>)
    with ne cap show ?thesis by (auto simp: ladder_def)
  next
    case False
    then show ?thesis by (auto simp: ladder_def dest: fifoD(1))
  qed
qed

text \<open>Organisation links are invisible to the ladder.\<close>

lemma touches_q3:
  "touches {} s (set_next OM_Q3_ORG_QUEUE i v s)" "touches {} s (set_prev OM_Q3_ORG_QUEUE i v s)"
  "touches {} s (om_queue_link_before s a b OM_Q3_ORG_QUEUE)"
  "touches {} s (snd (om_queue_unlink s a OM_Q3_ORG_QUEUE))"
  by (simp_all add: touches_def queue_ops_frame queue_ops_other)

lemma touches_set:
  assumes "i \<in> X"
  shows "touches X s (set_next OM_Q1_PRICE_LADDER i v t) = touches X s t"
    "touches X s (set_prev OM_Q1_PRICE_LADDER i v t) = touches X s t"
    "touches X s (set_next OM_Q2_TIME_FIFO i v t) = touches X s t"
    "touches X s (set_prev OM_Q2_TIME_FIFO i v t) = touches X s t"
  using assms by (auto simp: touches_def)

section \<open>A new price level\<close>

text \<open>Head and link updates of \<open>insert_order_at\<close>, for an order that becomes its own level.\<close>

definition level_links :: "OmDualSlab \<Rightarrow> nat \<Rightarrow> nat \<Rightarrow> nat option \<Rightarrow> OmDualSlab" where
  "level_links s h i ins =
     (let s1 = set_prev OM_Q1_PRICE_LADDER i OM_SLOT_IDX_NULL (set_next OM_Q1_PRICE_LADDER i OM_SLOT_IDX_NULL s);
          s2 = (case ins of
              None \<Rightarrow> if h \<noteq> OM_SLOT_IDX_NULL
                then set_prev OM_Q1_PRICE_LADDER h i (set_next OM_Q1_PRICE_LADDER i h s1) else s1
            | Some a \<Rightarrow> om_queue_link_after s1 a i OM_Q1_PRICE_LADDER)
      in set_next OM_Q2_TIME_FIFO i OM_SLOT_IDX_NULL (set_prev OM_Q2_TIME_FIFO i OM_SLOT_IDX_NULL s2))"

lemma level_links_q2:
  "qnext OM_Q2_TIME_FIFO (level_links s h i ins) = (qnext OM_Q2_TIME_FIFO s)(i := OM_SLOT_IDX_NULL)"
  "qprev OM_Q2_TIME_FIFO (level_links s h i ins) = (qprev OM_Q2_TIME_FIFO s)(i := OM_SLOT_IDX_NULL)"
  by (auto simp: level_links_def Let_def queue_ops_other split: option.splits)

lemma level_links_q1:
  assumes d: "dll OM_SLOT_IDX_NULL (qnext OM_Q1_PRICE_LADDER s) (qprev OM_Q1_PRICE_LADDER s) h (xs @ ys)"
    and i: "i \<notin> set (xs @ ys)" "i \<noteq> OM_SLOT_IDX_NULL"
    and b: "\<forall>j \<in> set (xs @ ys). j < a_capacity (slab_a s)"
    and ins: "ins = (if xs = [] then None else Some (last xs))"
  shows "dll OM_SLOT_IDX_NULL (qnext OM_Q1_PRICE_LADDER (level_links s h i ins))
      (qprev OM_Q1_PRICE_LADDER (level_links s h i ins)) (if xs = [] then i else h) (xs @ i # ys)"
proof -
  let ?s1 = "set_prev OM_Q1_PRICE_LADDER i OM_SLOT_IDX_NULL (set_next OM_Q1_PRICE_LADDER i OM_SLOT_IDX_NULL s)"
  have d1: "dll OM_SLOT_IDX_NULL (qnext OM_Q1_PRICE_LADDER ?s1) (qprev OM_Q1_PRICE_LADDER ?s1) h (xs @ ys)"
    using d i by simp
  show ?thesis
  proof (cases xs rule: rev_exhaust)
    case Nil
    have "h = OM_SLOT_IDX_NULL \<or> h \<noteq> i" using dllD(5) [OF d] i Nil by (cases ys) auto
    then show ?thesis using dll_push [OF d1, of i] i Nil ins
      by (auto simp: level_links_def Let_def fun_upd_twist split: if_splits)
  next
    case (snoc zs z)
    then have "dll OM_SLOT_IDX_NULL (qnext OM_Q1_PRICE_LADDER ?s1) (qprev OM_Q1_PRICE_LADDER ?s1) h (zs @ z # ys)"
      using d1 by simp
    from om_queue_link_after_dll [OF this, of i] i b snoc ins show ?thesis
      by (simp add: level_links_def Let_def)
  qed
qed

lemma level_links_touches:
  assumes "h = OM_SLOT_IDX_NULL \<or> h \<in> X" and "i \<in> X" and "\<forall>a. ins = Some a \<longrightarrow> a \<in> X \<and>
     (qnext OM_Q1_PRICE_LADDER s a \<noteq> OM_SLOT_IDX_NULL \<longrightarrow> qnext OM_Q1_PRICE_LADDER s a \<in> X)"
  shows "touches X s (level_links s h i ins)"
proof -
  have "touches X s (om_queue_link_after t a i OM_Q1_PRICE_LADDER)"
    if "touches X s t" "ins = Some a" "qnext OM_Q1_PRICE_LADDER t a = OM_SLOT_IDX_NULL \<or> qnext OM_Q1_PRICE_LADDER t a \<in> X" for t a
    using that assms by (auto simp: om_queue_link_after_def Let_def touches_set split: option.splits)
  then show ?thesis using assms
    by (auto simp: level_links_def Let_def touches_set split: option.splits)
qed

lemma ladder_new_level:
  assumes l: "ladder s h (P @ Q)" and i: "i \<notin> set (concat (P @ Q))" "i \<noteq> OM_SLOT_IDX_NULL" "i < a_capacity (slab_a s)"
    and ins: "ins = (if P = [] then None else Some (hd (last P)))"
  shows "ladder (level_links s h i ins) (if P = [] then i else h) (P @ [i] # Q) \<and>
    touches (insert i (set (concat (P @ Q)))) s (level_links s h i ins)"
proof -
  let ?t = "level_links s h i ins" and ?X = "insert i (set (concat (P @ Q)))"
  note D = ladderD [OF l]
  have heads: "set (map hd (P @ Q)) \<subseteq> set (concat (P @ Q))" using D(7) by auto
  have "ins = (if map hd P = [] then None else Some (last (map hd P)))" using ins by (simp add: last_map)
  moreover have "i \<notin> set (map hd P @ map hd Q)" using heads i(1) by auto
  moreover have "\<forall>j \<in> set (map hd P @ map hd Q). j < a_capacity (slab_a s)"
    using heads D(4) unfolding map_append [symmetric] by blast
  ultimately have q1: "dll OM_SLOT_IDX_NULL (qnext OM_Q1_PRICE_LADDER ?t) (qprev OM_Q1_PRICE_LADDER ?t)
      (if P = [] then i else h) (map hd (P @ [i] # Q))"
    using level_links_q1 [of s h "map hd P" "map hd Q" i ins] D(1) i(2) by simp
  have q2: "fifo OM_SLOT_IDX_NULL (qnext OM_Q2_TIME_FIFO ?t) (qprev OM_Q2_TIME_FIFO ?t) l"
    if "l \<in> set (P @ [i] # Q)" for l
  proof (cases "l = [i]")
    case True
    then show ?thesis using i(2) by (simp add: level_links_q2 fifo_single)
  next
    case False
    then have "l \<in> set (P @ Q)" using that by auto
    with D(2) have "fifo OM_SLOT_IDX_NULL (qnext OM_Q2_TIME_FIFO s) (qprev OM_Q2_TIME_FIFO s) l" by blast
    moreover have "i \<notin> set l" using \<open>l \<in> set (P @ Q)\<close> i(1) by auto
    ultimately show ?thesis by (simp add: level_links_q2)
  qed
  have "touches ?X s ?t"
  proof (rule level_links_touches)
    show "h = OM_SLOT_IDX_NULL \<or> h \<in> ?X" using D(8) D(7) [of "hd (P @ Q)"] hd_in_set [of "P @ Q"] by (auto simp del: hd_append)
    show "\<forall>a. ins = Some a \<longrightarrow> a \<in> ?X \<and>
      (qnext OM_Q1_PRICE_LADDER s a \<noteq> OM_SLOT_IDX_NULL \<longrightarrow> qnext OM_Q1_PRICE_LADDER s a \<in> ?X)"
    proof (intro allI impI)
      fix a assume "ins = Some a"
      then obtain P' l where P: "P = P' @ [l]" and a: "a = hd l"
        using ins by (cases P rule: rev_exhaust) (auto split: if_splits)
      have "qnext OM_Q1_PRICE_LADDER s a = (if map hd Q = [] then OM_SLOT_IDX_NULL else hd (map hd Q))"
        using dll_next [of _ _ _ h "map hd P'" a "map hd Q"] D(1) P a by simp
      moreover have "a \<in> ?X" using D(7) [of l] P a by (simp del: set_concat)
      moreover have "hd (map hd Q) \<in> ?X" if "Q \<noteq> []"
        using D(7) [of "hd Q"] that by (simp add: hd_map del: set_concat)
      ultimately show "a \<in> ?X \<and> (qnext OM_Q1_PRICE_LADDER s a \<noteq> OM_SLOT_IDX_NULL \<longrightarrow> qnext OM_Q1_PRICE_LADDER s a \<in> ?X)"
        by (simp del: set_concat)
    qed
  qed simp
  moreover from same_frameD(3) [OF touches_frame [OF this]]
  have "a_capacity (slab_a ?t) = a_capacity (slab_a s)" .
  ultimately show ?thesis using q1 q2 D(3,4) i by (auto simp: ladder_def)
qed

section \<open>A further order at an existing level\<close>

lemma touches_unlink:
  assumes "i \<in> X" and "q = OM_Q1_PRICE_LADDER \<or> q = OM_Q2_TIME_FIFO"
    and "qnext q s i = OM_SLOT_IDX_NULL \<or> qnext q s i \<in> X" and "qprev q s i = OM_SLOT_IDX_NULL \<or> qprev q s i \<in> X"
  shows "touches X s (snd (om_queue_unlink s i q))"
  using assms by (auto simp: om_queue_unlink_def Let_def touches_set split: option.splits)

lemma touches_link_after:
  assumes "i \<in> X" and "p \<in> X" and "q = OM_Q1_PRICE_LADDER \<or> q = OM_Q2_TIME_FIFO"
    and "qnext q s p = OM_SLOT_IDX_NULL \<or> qnext q s p \<in> X"
  shows "touches X s (om_queue_link_after s p i q)"
  using assms by (auto simp: om_queue_link_after_def Let_def touches_set split: option.splits)

definition append_links :: "OmDualSlab \<Rightarrow> nat \<Rightarrow> nat \<Rightarrow> OmDualSlab" where
  "append_links s head i =
     (let tail_idx = qprev OM_Q2_TIME_FIFO s head;
          tail = (if tail_idx \<noteq> OM_SLOT_IDX_NULL then tail_idx else head)
      in set_prev OM_Q2_TIME_FIFO head i (om_queue_link_after s tail i OM_Q2_TIME_FIFO))"

lemma ladder_level_parts:
  assumes "ladder s h (P @ l # Q)" and "l' \<in> set (P @ Q)"
  shows "set l \<inter> set l' = {}"
  using ladderD(3) [OF assms(1)] assms(2) by (auto 0 4)

text \<open>The neighbours of a level in the ladder are heads of other levels.\<close>

lemma ladder_neighbours:
  assumes "ladder s h (P @ l # Q)"
  shows "qprev OM_Q1_PRICE_LADDER s (hd l) = OM_SLOT_IDX_NULL \<or> qprev OM_Q1_PRICE_LADDER s (hd l) \<in> set (concat (P @ Q))"
    and "qnext OM_Q1_PRICE_LADDER s (hd l) = OM_SLOT_IDX_NULL \<or> qnext OM_Q1_PRICE_LADDER s (hd l) \<in> set (concat (P @ Q))"
    and "set (map hd (P @ Q)) \<subseteq> set (concat (P @ Q))"
proof -
  have d: "dll OM_SLOT_IDX_NULL (qnext OM_Q1_PRICE_LADDER s) (qprev OM_Q1_PRICE_LADDER s) h (map hd P @ hd l # map hd Q)"
    using ladderD(1) [OF assms] by simp
  have in_cat: "hd l' \<in> set (concat (P @ Q))" if "l' \<in> set (P @ Q)" for l'
  proof -
    have "hd l' \<in> set l'" using that ladderD(6) [OF assms, of l'] by auto
    then show ?thesis using that unfolding set_concat by blast
  qed
  show "set (map hd (P @ Q)) \<subseteq> set (concat (P @ Q))" using in_cat by (auto simp del: set_concat)
  show "qprev OM_Q1_PRICE_LADDER s (hd l) = OM_SLOT_IDX_NULL \<or> qprev OM_Q1_PRICE_LADDER s (hd l) \<in> set (concat (P @ Q))"
    using dll_prev [OF d] in_cat [of "last P"] by (cases "P = []") (simp_all add: last_map del: set_concat)
  show "qnext OM_Q1_PRICE_LADDER s (hd l) = OM_SLOT_IDX_NULL \<or> qnext OM_Q1_PRICE_LADDER s (hd l) \<in> set (concat (P @ Q))"
    using dll_next [OF d] in_cat [of "hd Q"] by (cases "Q = []") (simp_all add: hd_map del: set_concat)
qed

lemma ladder_append:
  assumes l: "ladder s h (P @ l # Q)" and i: "i \<notin> set (concat (P @ l # Q))" "i \<noteq> OM_SLOT_IDX_NULL"
    "i < a_capacity (slab_a s)"
  shows "ladder (append_links s (hd l) i) h (P @ (l @ [i]) # Q) \<and>
    touches (insert i (set (concat (P @ l # Q)))) s (append_links s (hd l) i)"
proof -
  let ?t = "append_links s (hd l) i" and ?X = "insert i (set (concat (P @ l # Q)))"
  note D = ladderD [OF l]
  have f: "fifo OM_SLOT_IDX_NULL (qnext OM_Q2_TIME_FIFO s) (qprev OM_Q2_TIME_FIFO s) l" using D(2) by simp
  have ne: "l \<noteq> []" using D(6) by simp
  have il: "i \<notin> set l" using i(1) by simp
  have tail: "(if qprev OM_Q2_TIME_FIFO s (hd l) \<noteq> OM_SLOT_IDX_NULL then qprev OM_Q2_TIME_FIFO s (hd l) else hd l) = last l"
    using fifo_tail [OF f] by (simp split: if_splits)
  have t: "?t = set_prev OM_Q2_TIME_FIFO (hd l) i (om_queue_link_after s (last l) i OM_Q2_TIME_FIFO)"
    unfolding append_links_def Let_def tail ..
  have nl: "qnext OM_Q2_TIME_FIFO s (last l) = OM_SLOT_IDX_NULL"
    using chain_next [of _ _ "hd l" "butlast l" "last l" "[]"] fifoD(2) [OF f] ne by simp
  have q2: "qnext OM_Q2_TIME_FIFO ?t = (qnext OM_Q2_TIME_FIFO s)(i := OM_SLOT_IDX_NULL, last l := i)"
    "qprev OM_Q2_TIME_FIFO ?t = (qprev OM_Q2_TIME_FIFO s)(i := last l, hd l := i)"
    using nl by (simp_all add: t link_after_qnext link_after_qprev link_ok_def)
  have q1: "qnext OM_Q1_PRICE_LADDER ?t = qnext OM_Q1_PRICE_LADDER s"
    "qprev OM_Q1_PRICE_LADDER ?t = qprev OM_Q1_PRICE_LADDER s"
    by (simp_all add: t queue_ops_other)
  have fl: "fifo OM_SLOT_IDX_NULL (qnext OM_Q2_TIME_FIFO ?t) (qprev OM_Q2_TIME_FIFO ?t) (l @ [i])"
    unfolding q2 using f il i(2) by (rule fifo_append) simp
  have fo: "fifo OM_SLOT_IDX_NULL (qnext OM_Q2_TIME_FIFO ?t) (qprev OM_Q2_TIME_FIFO ?t) l'" if "l' \<in> set (P @ Q)" for l'
  proof -
    have "hd l \<notin> set l'" "last l \<notin> set l'" "i \<notin> set l'"
      using ladder_level_parts [OF l that] hd_in_set [OF ne] last_in_set [OF ne] i(1) that by auto
    then show ?thesis unfolding q2 using D(2) that by simp
  qed
  have "hd l \<in> ?X" "last l \<in> ?X" using ne by auto
  then have "touches ?X s ?t" unfolding t using nl by (simp add: touches_set touches_link_after)
  moreover from same_frameD(3) [OF touches_frame [OF this]]
  have "a_capacity (slab_a ?t) = a_capacity (slab_a s)" .
  ultimately show ?thesis using q1 fl fo D(1,3,4) i ne by (auto simp: ladder_def)
qed

section \<open>Removing an order\<close>

text \<open>The only order of its level: the level goes.\<close>

lemma ladder_remove_level:
  assumes l: "ladder s h (P @ [i] # Q)"
  defines "t \<equiv> snd (om_queue_unlink s i OM_Q1_PRICE_LADDER)"
  shows "ladder t (if h = i then qnext OM_Q1_PRICE_LADDER s i else h) (P @ Q) \<and>
    touches (set (concat (P @ [i] # Q))) s t"
proof -
  note D = ladderD [OF l]
  have d: "dll OM_SLOT_IDX_NULL (qnext OM_Q1_PRICE_LADDER s) (qprev OM_Q1_PRICE_LADDER s) h (map hd P @ i # map hd Q)"
    using D(1) by simp
  have heads: "set (map hd (P @ Q)) \<subseteq> set (concat (P @ [i] # Q))" using D(7) by auto
  have b: "\<forall>j \<in> set (map hd P @ map hd Q). j < a_capacity (slab_a s)"
    using heads D(4) unfolding map_append [symmetric] by blast
  have hi: "h = i \<longleftrightarrow> map hd P = []" using dllD(3,5) [OF d] by (cases P) auto
  have q1: "dll OM_SLOT_IDX_NULL (qnext OM_Q1_PRICE_LADDER t) (qprev OM_Q1_PRICE_LADDER t)
     (if h = i then qnext OM_Q1_PRICE_LADDER s i else h) (map hd (P @ Q))"
    using om_queue_unlink_dll [OF d b] by (simp add: t_def hi)
  have q2: "qnext OM_Q2_TIME_FIFO t = qnext OM_Q2_TIME_FIFO s" "qprev OM_Q2_TIME_FIFO t = qprev OM_Q2_TIME_FIFO s"
    by (simp_all add: t_def queue_ops_other)
  have "touches (set (concat (P @ [i] # Q))) s t" unfolding t_def
    using ladder_neighbours [OF l] by (intro touches_unlink) auto
  moreover from same_frameD(3) [OF touches_frame [OF this]]
  have "a_capacity (slab_a t) = a_capacity (slab_a s)" .
  ultimately show ?thesis using q1 q2 D(2,3,4) by (auto simp: ladder_def)
qed

text \<open>An order behind the head of its level.\<close>

definition unlink_links_q2 :: "OmDualSlab \<Rightarrow> nat \<Rightarrow> nat \<Rightarrow> OmDualSlab" where
  "unlink_links_q2 s head i =
     (let s1 = snd (om_queue_unlink s i OM_Q2_TIME_FIFO)
      in if qnext OM_Q2_TIME_FIFO s i = OM_SLOT_IDX_NULL
         then set_prev OM_Q2_TIME_FIFO head
           (if qprev OM_Q2_TIME_FIFO s i = head then OM_SLOT_IDX_NULL else qprev OM_Q2_TIME_FIFO s i) s1
         else s1)"

lemma ladder_remove_behind:
  assumes l: "ladder s h (P @ (a # xs @ i # ys) # Q)"
  defines "t \<equiv> unlink_links_q2 s a i"
  shows "ladder t h (P @ (a # xs @ ys) # Q) \<and> touches (set (concat (P @ (a # xs @ i # ys) # Q))) s t"
proof -
  let ?l = "a # xs @ i # ys"
  note D = ladderD [OF l]
  have f: "fifo OM_SLOT_IDX_NULL (qnext OM_Q2_TIME_FIFO s) (qprev OM_Q2_TIME_FIFO s) ?l" using D(2) by simp
  have n: "qnext OM_Q2_TIME_FIFO s i = (if ys = [] then OM_SLOT_IDX_NULL else hd ys)"
    using chain_next [of _ _ a "a # xs" i ys] fifoD(2) [OF f] by simp
  have p: "qprev OM_Q2_TIME_FIFO s i = last (a # xs)"
    using blinks_prev [of _ a xs i ys] f by (simp add: fifo_def)
  have pin: "qprev OM_Q2_TIME_FIFO s i \<in> set (a # xs)" unfolding p by (rule last_in_set) simp
  have bnd: "\<forall>j \<in> set ?l. j < a_capacity (slab_a s) \<and> j \<noteq> OM_SLOT_IDX_NULL" using D(4,5) by auto
  have ok: "link_ok s (qnext OM_Q2_TIME_FIFO s i)" "link_ok s (qprev OM_Q2_TIME_FIFO s i)"
    "qprev OM_Q2_TIME_FIFO s i \<noteq> OM_SLOT_IDX_NULL"
    using n pin bnd by (auto simp: link_ok_def)
  have q2: "fifo OM_SLOT_IDX_NULL (qnext OM_Q2_TIME_FIFO t) (qprev OM_Q2_TIME_FIFO t) (a # xs @ ys)"
  proof -
    have "qnext OM_Q2_TIME_FIFO t = (qnext OM_Q2_TIME_FIFO s)(qprev OM_Q2_TIME_FIFO s i := qnext OM_Q2_TIME_FIFO s i, i := OM_SLOT_IDX_NULL)"
      using unlink_links(1) [OF ok(1,2)] ok(3) by (simp add: t_def unlink_links_q2_def Let_def)
    moreover have "qprev OM_Q2_TIME_FIFO t = (let v = (if qnext OM_Q2_TIME_FIFO s i = OM_SLOT_IDX_NULL then qprev OM_Q2_TIME_FIFO s
          else (qprev OM_Q2_TIME_FIFO s)(qnext OM_Q2_TIME_FIFO s i := qprev OM_Q2_TIME_FIFO s i))(i := OM_SLOT_IDX_NULL)
        in if qnext OM_Q2_TIME_FIFO s i = OM_SLOT_IDX_NULL
           then v(a := if qprev OM_Q2_TIME_FIFO s i = a then OM_SLOT_IDX_NULL else qprev OM_Q2_TIME_FIFO s i) else v)"
      using unlink_links(2) [OF ok(1,2)] by (simp add: t_def unlink_links_q2_def Let_def)
    ultimately show ?thesis using fifo_remove [OF f] unfolding Let_def by simp
  qed
  have q1: "qnext OM_Q1_PRICE_LADDER t = qnext OM_Q1_PRICE_LADDER s"
    "qprev OM_Q1_PRICE_LADDER t = qprev OM_Q1_PRICE_LADDER s"
    by (simp_all add: t_def unlink_links_q2_def Let_def queue_ops_other)
  have tl: "touches (set ?l) s t" unfolding t_def unlink_links_q2_def Let_def
    using n pin touches_unlink [of i "set ?l" OM_Q2_TIME_FIFO s] by (auto simp: touches_set)
  then have tX: "touches (set (concat (P @ ?l # Q))) s t" by (rule touches_mono) auto
  have fo: "fifo OM_SLOT_IDX_NULL (qnext OM_Q2_TIME_FIFO t) (qprev OM_Q2_TIME_FIFO t) l'" if "l' \<in> set (P @ Q)" for l'
  proof -
    have "j \<notin> set ?l" if "j \<in> set l'" for j using ladder_level_parts [OF l \<open>l' \<in> set (P @ Q)\<close>] that by blast
    then have "fifo OM_SLOT_IDX_NULL (qnext OM_Q2_TIME_FIFO s) (qprev OM_Q2_TIME_FIFO s) l' =
        fifo OM_SLOT_IDX_NULL (qnext OM_Q2_TIME_FIFO t) (qprev OM_Q2_TIME_FIFO t) l'"
      using tl by (intro fifo_cong) (auto simp: touches_def)
    then show ?thesis using D(2) that by simp
  qed
  from same_frameD(3) [OF touches_frame [OF tX]]
  have "a_capacity (slab_a t) = a_capacity (slab_a s)" .
  then show ?thesis using q1 q2 fo tX D(1,3,4) by (auto simp: ladder_def)
qed

text \<open>The head of a level with several orders: the second one is promoted.\<close>

lemma promote_q2_links:
  assumes "link_ok s (qnext OM_Q2_TIME_FIFO s j)" and "qnext OM_Q2_TIME_FIFO s j \<noteq> j"
    and "qnext OM_Q2_TIME_FIFO s j \<noteq> OM_SLOT_IDX_NULL \<Longrightarrow> qprev OM_Q2_TIME_FIFO s (qnext OM_Q2_TIME_FIFO s j) = j"
  shows "qnext q (promote_q2 i j s) = qnext q s"
    "qprev OM_Q2_TIME_FIFO (promote_q2 i j s) = (qprev OM_Q2_TIME_FIFO s)
       (j := if qnext OM_Q2_TIME_FIFO s j = OM_SLOT_IDX_NULL then OM_SLOT_IDX_NULL else qprev OM_Q2_TIME_FIFO s i)"
    "q \<noteq> OM_Q2_TIME_FIFO \<Longrightarrow> qprev q (promote_q2 i j s) = qprev q s"
  using assms
  by (auto simp: promote_q2_def Let_def link_ok_def om_slot_from_idx_def fun_eq_iff split: option.splits)

lemma promote_q1_links:
  assumes "link_ok s (qnext OM_Q1_PRICE_LADDER s i)" and "link_ok s (qprev OM_Q1_PRICE_LADDER s i)"
  shows "qnext OM_Q1_PRICE_LADDER (promote_q1 i j s) =
      (if qprev OM_Q1_PRICE_LADDER s i = OM_SLOT_IDX_NULL then (qnext OM_Q1_PRICE_LADDER s)(j := qnext OM_Q1_PRICE_LADDER s i)
       else (qnext OM_Q1_PRICE_LADDER s)(j := qnext OM_Q1_PRICE_LADDER s i, qprev OM_Q1_PRICE_LADDER s i := j))"
    "qprev OM_Q1_PRICE_LADDER (promote_q1 i j s) =
      (if qnext OM_Q1_PRICE_LADDER s i = OM_SLOT_IDX_NULL then (qprev OM_Q1_PRICE_LADDER s)(j := qprev OM_Q1_PRICE_LADDER s i)
       else (qprev OM_Q1_PRICE_LADDER s)(j := qprev OM_Q1_PRICE_LADDER s i, qnext OM_Q1_PRICE_LADDER s i := j))"
    "q \<noteq> OM_Q1_PRICE_LADDER \<Longrightarrow> qnext q (promote_q1 i j s) = qnext q s"
    "q \<noteq> OM_Q1_PRICE_LADDER \<Longrightarrow> qprev q (promote_q1 i j s) = qprev q s"
proof -
  let ?nx = "qnext OM_Q1_PRICE_LADDER s" and ?pv = "qprev OM_Q1_PRICE_LADDER s"
  have form: "promote_q1 i j s =
      (let s1 = set_next OM_Q1_PRICE_LADDER j (?nx i) (set_prev OM_Q1_PRICE_LADDER j (?pv i) s);
           s2 = (if ?pv i = OM_SLOT_IDX_NULL then s1 else set_next OM_Q1_PRICE_LADDER (?pv i) j s1)
       in if ?nx i = OM_SLOT_IDX_NULL then s2 else set_prev OM_Q1_PRICE_LADDER (?nx i) j s2)"
    using assms by (cases "?nx i = OM_SLOT_IDX_NULL"; cases "?pv i = OM_SLOT_IDX_NULL")
      (simp_all add: promote_q1_def Let_def link_ok_def om_slot_from_idx_def)
  show "qnext OM_Q1_PRICE_LADDER (promote_q1 i j s) =
      (if ?pv i = OM_SLOT_IDX_NULL then ?nx(j := ?nx i) else ?nx(j := ?nx i, ?pv i := j))"
    "qprev OM_Q1_PRICE_LADDER (promote_q1 i j s) =
      (if ?nx i = OM_SLOT_IDX_NULL then ?pv(j := ?pv i) else ?pv(j := ?pv i, ?nx i := j))"
    "q \<noteq> OM_Q1_PRICE_LADDER \<Longrightarrow> qnext q (promote_q1 i j s) = qnext q s"
    "q \<noteq> OM_Q1_PRICE_LADDER \<Longrightarrow> qprev q (promote_q1 i j s) = qprev q s"
    by (simp_all add: form Let_def)
qed

lemma promote_q2_frame: "same_frame s (promote_q2 i j s)"
  "qnext OM_Q0_INTERNAL_FREE (promote_q2 i j s) = qnext OM_Q0_INTERNAL_FREE s"
  by (auto simp: promote_q2_def Let_def split: option.splits)

lemma promote_q1_frame: "same_frame s (promote_q1 i j s)"
  "qnext OM_Q0_INTERNAL_FREE (promote_q1 i j s) = qnext OM_Q0_INTERNAL_FREE s"
  by (auto simp: promote_q1_def Let_def split: option.splits)

lemma promote_frame: "same_frame s (promote_links i j s)"
  "qnext OM_Q0_INTERNAL_FREE (promote_links i j s) = qnext OM_Q0_INTERNAL_FREE s"
  using same_frame_trans [OF promote_q2_frame(1) promote_q1_frame(1)]
  by (simp_all add: promote_links_def clear_links_def promote_q1_frame promote_q2_frame)

lemma ladder_promote:
  assumes l: "ladder s h (P @ (i # j # zs) # Q)"
  defines "t \<equiv> promote_links i j s"
  shows "ladder t (if h = i then j else h) (P @ (j # zs) # Q) \<and>
    touches (set (concat (P @ (i # j # zs) # Q))) s t"
proof -
  let ?l = "i # j # zs" and ?s1 = "promote_q2 i j s"
  note D = ladderD [OF l]
  have f: "fifo OM_SLOT_IDX_NULL (qnext OM_Q2_TIME_FIFO s) (qprev OM_Q2_TIME_FIFO s) ?l" using D(2) by simp
  have d: "dll OM_SLOT_IDX_NULL (qnext OM_Q1_PRICE_LADDER s) (qprev OM_Q1_PRICE_LADDER s) h (map hd P @ i # map hd Q)"
    using D(1) by simp
  have bnd: "\<forall>k \<in> set (concat (P @ ?l # Q)). k < a_capacity (slab_a s) \<and> k \<noteq> OM_SLOT_IDX_NULL" using D(4,5) by blast
  note heads = ladder_neighbours(3) [OF l] and hin = ladder_neighbours(1,2) [OF l, unfolded list.sel]
  have nj: "qnext OM_Q2_TIME_FIFO s j = (if zs = [] then OM_SLOT_IDX_NULL else hd zs)"
    using chain_next [of _ _ i "[i]" j zs] fifoD(2) [OF f] by simp
  have okj: "link_ok s (qnext OM_Q2_TIME_FIFO s j)" "qnext OM_Q2_TIME_FIFO s j \<noteq> j"
    "qnext OM_Q2_TIME_FIFO s j \<noteq> OM_SLOT_IDX_NULL \<Longrightarrow> qprev OM_Q2_TIME_FIFO s (qnext OM_Q2_TIME_FIFO s j) = j"
    using nj bnd f fifoD(3) [OF f] by (cases zs; auto simp: link_ok_def fifo_def)+
  note L2 = promote_q2_links [OF okj]
  have "same_frame s ?s1" by (auto simp: promote_q2_def Let_def split: option.splits)
  then have cap1: "a_capacity (slab_a ?s1) = a_capacity (slab_a s)" by (rule same_frameD)
  let ?s2 = "promote_q1 i j ?s1"
  have ok1: "link_ok ?s1 (qnext OM_Q1_PRICE_LADDER ?s1 i)" "link_ok ?s1 (qprev OM_Q1_PRICE_LADDER ?s1 i)"
    using hin bnd L2(1,3) by (auto simp: link_ok_def cap1)
  note L1 = promote_q1_links [OF ok1]
  have jn: "j \<notin> set (map hd P @ i # map hd Q)" "j \<noteq> OM_SLOT_IDX_NULL"
    using heads D(3) bnd by auto
  have hi: "h = i \<longleftrightarrow> map hd P = []" using dllD(3,5) [OF d] by (cases P) auto
  have q1: "dll OM_SLOT_IDX_NULL (qnext OM_Q1_PRICE_LADDER t) (qprev OM_Q1_PRICE_LADDER t)
      (if h = i then j else h) (map hd (P @ (j # zs) # Q))"
  proof -
    let ?nx = "qnext OM_Q1_PRICE_LADDER s" and ?pv = "qprev OM_Q1_PRICE_LADDER s"
    have "qnext OM_Q1_PRICE_LADDER t =
        (if ?pv i = OM_SLOT_IDX_NULL then ?nx(j := ?nx i) else ?nx(j := ?nx i, ?pv i := j))(i := OM_SLOT_IDX_NULL)"
      "qprev OM_Q1_PRICE_LADDER t =
        (if ?nx i = OM_SLOT_IDX_NULL then ?pv(j := ?pv i) else ?pv(j := ?pv i, ?nx i := j))(i := OM_SLOT_IDX_NULL)"
      by (simp_all add: t_def promote_links_def clear_links_def L1 L2)
    with dll_replace [OF d jn, of OM_SLOT_IDX_NULL OM_SLOT_IDX_NULL] show ?thesis
      unfolding hi by (simp only: map_append list.map list.sel)
  qed
  have q2: "fifo OM_SLOT_IDX_NULL (qnext OM_Q2_TIME_FIFO t) (qprev OM_Q2_TIME_FIFO t) (j # zs)"
    using fifo_pop [OF f, of OM_SLOT_IDX_NULL]
    by (simp add: t_def promote_links_def clear_links_def L1 L2)
  have tX: "touches (set (concat (P @ ?l # Q))) s t"
    using hin promote_frame by (auto simp: touches_def t_def promote_links_def clear_links_def L1 L2 split: if_splits)
  have fo: "fifo OM_SLOT_IDX_NULL (qnext OM_Q2_TIME_FIFO t) (qprev OM_Q2_TIME_FIFO t) l'" if "l' \<in> set (P @ Q)" for l'
  proof -
    have "i \<notin> set l'" "j \<notin> set l'" using ladder_level_parts [OF l that] by auto
    then show ?thesis using D(2) that by (simp add: t_def promote_links_def clear_links_def L1 L2)
  qed
  from same_frameD(3) [OF touches_frame [OF tX]]
  have "a_capacity (slab_a t) = a_capacity (slab_a s)" .
  then show ?thesis using q1 q2 fo tX D(3,4) by (auto simp: ladder_def)
qed

end
