(* ===== verification/Side_Inv.thy ===== *)
theory Side_Inv
  imports Ladder_Links
begin

text \<open>
  One side of one product: the specification of price-time priority on lists of levels, the
  search tree over the level heads, the invariant of a side, and the effect of linking and
  unlinking an order as operations on the list of levels.
\<close>

section \<open>Price-time priority\<close>

text \<open>\<open>better b p q\<close>: price \<open>p\<close> comes before price \<open>q\<close> on the bid (\<open>b\<close>) or ask side.\<close>

definition better :: "bool \<Rightarrow> u64 \<Rightarrow> u64 \<Rightarrow> bool" where
  "better b p q \<longleftrightarrow> (if b then q < p else p < q)"

lemma better_irrefl [simp]: "\<not> better b p p"
  by (simp add: better_def)

lemma better_trans: "better b p q \<Longrightarrow> better b q r \<Longrightarrow> better b p r"
  by (auto simp: better_def split: if_splits)

lemma better_asym: "better b p q \<Longrightarrow> \<not> better b q p"
  by (auto simp: better_def split: if_splits)

lemma better_total: "better b p q \<or> p = q \<or> better b q p"
  by (auto simp: better_def)

text \<open>
  Inserting order \<open>i\<close> by price, last at its price; removing an order, and with it a level
  that has become empty.
\<close>

fun spec_insert :: "(nat \<Rightarrow> u64) \<Rightarrow> bool \<Rightarrow> nat \<Rightarrow> nat list list \<Rightarrow> nat list list" where
  "spec_insert pr b i [] = [[i]]"
| "spec_insert pr b i (l # L) =
     (if better b (pr (hd l)) (pr i) then l # spec_insert pr b i L
      else if pr (hd l) = pr i then (l @ [i]) # L
      else [i] # l # L)"

definition spec_remove :: "nat \<Rightarrow> nat list list \<Rightarrow> nat list list" where
  "spec_remove i L = filter (\<lambda>l. l \<noteq> []) (map (removeAll i) L)"

text \<open>A side is priced when every level has one price and the levels are strictly ordered.\<close>

definition priced :: "(nat \<Rightarrow> u64) \<Rightarrow> bool \<Rightarrow> nat list list \<Rightarrow> bool" where
  "priced pr b L \<longleftrightarrow> (\<forall>l \<in> set L. l \<noteq> [] \<and> (\<forall>i \<in> set l. pr (hd l) = pr i)) \<and>
     sorted_wrt (\<lambda>l m. better b (pr (hd l)) (pr (hd m))) L"

lemma pricedD:
  assumes "priced pr b L"
  shows "l \<in> set L \<Longrightarrow> l \<noteq> []" "l \<in> set L \<Longrightarrow> i \<in> set l \<Longrightarrow> pr (hd l) = pr i"
    "sorted_wrt (\<lambda>l m. better b (pr (hd l)) (pr (hd m))) L"
  using assms by (auto simp: priced_def)

lemma spec_insert_takeWhile:
  "spec_insert pr b i L = takeWhile (\<lambda>l. better b (pr (hd l)) (pr i)) L @
     (case dropWhile (\<lambda>l. better b (pr (hd l)) (pr i)) L of [] \<Rightarrow> [[i]]
      | l # Q \<Rightarrow> if pr (hd l) = pr i then (l @ [i]) # Q else [i] # l # Q)"
  by (induction L) auto

lemma spec_insert_cases:
  assumes "priced pr b L"
  obtains (new) P Q where "L = P @ Q" "\<forall>l \<in> set P. better b (pr (hd l)) (pr i)"
      "\<forall>l \<in> set Q. better b (pr i) (pr (hd l))" "spec_insert pr b i L = P @ [i] # Q"
    | (found) P l Q where "L = P @ l # Q" "\<forall>l \<in> set P. better b (pr (hd l)) (pr i)"
      "\<forall>l \<in> set Q. better b (pr i) (pr (hd l))" "pr (hd l) = pr i" "spec_insert pr b i L = P @ (l @ [i]) # Q"
proof -
  let ?p = "\<lambda>l. better b (pr (hd l)) (pr i)"
  define P R where "P = takeWhile ?p L" and "R = dropWhile ?p L"
  have L: "L = P @ R" by (simp add: P_def R_def)
  have P: "\<forall>l \<in> set P. ?p l" by (auto simp: P_def dest: set_takeWhileD)
  have ins: "spec_insert pr b i L = P @ (case R of [] \<Rightarrow> [[i]]
      | l # Q \<Rightarrow> if pr (hd l) = pr i then (l @ [i]) # Q else [i] # l # Q)"
    by (simp add: P_def R_def spec_insert_takeWhile)
  show thesis
  proof (cases R)
    case Nil
    then show thesis using new [of P "[]"] L P ins by simp
  next
    case (Cons l Q)
    have nl: "\<not> ?p l" using Cons hd_dropWhile [of ?p L] by (auto simp: R_def)
    have Q: "\<forall>m \<in> set Q. better b (pr (hd l)) (pr (hd m))"
      using pricedD(3) [OF assms] L Cons by (simp add: sorted_wrt_append)
    show thesis
    proof (cases "pr (hd l) = pr i")
      case True
      then show thesis using found [of P l Q] L P Q ins Cons by simp
    next
      case False
      then have "better b (pr i) (pr (hd l))" using nl better_total by blast
      then show thesis using new [of P "l # Q"] L P Q ins Cons False by (auto intro: better_trans)
    qed
  qed
qed

lemma priced_new:
  assumes "priced pr b (P @ Q)" and "\<forall>l \<in> set P. better b (pr (hd l)) (pr i)"
    and "\<forall>l \<in> set Q. better b (pr i) (pr (hd l))"
  shows "priced pr b (P @ [i] # Q)"
  using assms by (auto simp: priced_def sorted_wrt_append)

lemma priced_join:
  assumes "priced pr b (P @ l # Q)" and "pr (hd l) = pr i"
  shows "priced pr b (P @ (l @ [i]) # Q)"
proof -
  have "l \<noteq> []" using pricedD(1) [OF assms(1), of l] by simp
  then have "hd (l @ [i]) = hd l" by simp
  then show ?thesis using assms by (auto simp: priced_def sorted_wrt_append simp del: hd_append2)
qed

lemma priced_insert:
  assumes "priced pr b L"
  shows "priced pr b (spec_insert pr b i L)"
  using assms
proof (cases rule: spec_insert_cases [where i = i])
  case (new P Q)
  then show ?thesis using assms by (simp add: priced_new)
next
  case (found P l Q)
  then show ?thesis using assms by (simp add: priced_join)
qed

lemma set_spec_insert: "set (concat (spec_insert pr b i L)) = insert i (set (concat L))"
  by (induction L) auto

text \<open>Removal by the shape of the level.\<close>

lemma spec_remove_split:
  assumes "distinct (concat (P @ l # Q))" and "i \<in> set l" and "\<forall>l' \<in> set (P @ Q). l' \<noteq> []"
  shows "spec_remove i (P @ l # Q) = P @ (if removeAll i l = [] then Q else removeAll i l # Q)"
proof -
  have id: "filter (\<lambda>l. l \<noteq> []) (map (removeAll i) R) = R" if "set R \<subseteq> set (P @ Q)" for R
  proof -
    have "set l \<inter> set (concat (P @ Q)) = {}" using assms(1) by auto
    then have "i \<notin> set l'" if "l' \<in> set R" for l'
      using assms(2) \<open>set R \<subseteq> set (P @ Q)\<close> that unfolding set_concat by blast
    then have "removeAll i l' = l'" if "l' \<in> set R" for l' using that by simp
    then have "map (removeAll i) R = R" by (simp add: map_idI)
    then show ?thesis using that assms(3) by (simp add: subset_iff)
  qed
  show ?thesis using id [of P] id [of Q] by (simp add: spec_remove_def)
qed

lemma concat_spec_remove: "concat (spec_remove i L) = removeAll i (concat L)"
  by (induction L) (auto simp: spec_remove_def)

lemma set_spec_remove: "set (concat (spec_remove i L)) = set (concat L) - {i}"
  unfolding concat_spec_remove by auto

lemma priced_remove:
  assumes "priced pr b L"
  shows "priced pr b (spec_remove i L)"
proof -
  have hdp: "pr (hd (removeAll i l)) = pr (hd l)" if "l \<in> set L" "removeAll i l \<noteq> []" for l
    using pricedD(2) [OF assms that(1), of "hd (removeAll i l)"] hd_in_set [OF that(2)] by auto
  let ?M = "filter (\<lambda>l. removeAll i l \<noteq> []) L"
  have eq: "filter (\<lambda>l. l \<noteq> []) (map (removeAll i) L) = map (removeAll i) ?M"
    by (simp add: filter_map comp_def)
  have "sorted_wrt (\<lambda>l m. better b (pr (hd l)) (pr (hd m))) ?M"
    using pricedD(3) [OF assms] by (rule sorted_wrt_filter)
  then have "sorted_wrt (\<lambda>l m. better b (pr (hd (removeAll i l))) (pr (hd (removeAll i m)))) ?M"
    by (rule sorted_wrt_mono_rel [rotated]) (simp add: hdp)
  then have "sorted_wrt (\<lambda>l m. better b (pr (hd l)) (pr (hd m))) (filter (\<lambda>l. l \<noteq> []) (map (removeAll i) L))"
    unfolding eq by (simp add: sorted_wrt_map)
  moreover have "pr (hd (removeAll i l)) = pr j" if "l \<in> set L" "j \<in> set (removeAll i l)" for l j
    using that hdp [OF that(1)] pricedD(2) [OF assms that(1), of j] by (cases "removeAll i l = []") auto
  ultimately show ?thesis unfolding priced_def spec_remove_def by auto
qed

section \<open>The search tree\<close>

text \<open>What the order book relies on of the balanced tree: it keeps the nodes in key order.\<close>

definition kavl_ok :: "('h, 'i, 'w) env \<Rightarrow> bool" where
  "kavl_ok E \<longleftrightarrow>
     (\<forall>key t n xs ys. inorder t = xs @ ys \<longrightarrow> sorted_wrt (\<lambda>x y. key x < key y) (xs @ n # ys) \<longrightarrow>
        inorder (kavl_insert E key t n) = xs @ n # ys) \<and>
     (\<forall>key t n xs ys. inorder t = xs @ n # ys \<longrightarrow> sorted_wrt (\<lambda>x y. key x < key y) (xs @ n # ys) \<longrightarrow>
        inorder (kavl_erase E key t (key n)) = xs @ ys)"

lemma descend_found:
  assumes "sorted_wrt (\<lambda>x y. node_key c x < node_key c y) (inorder t)"
    and "n \<in> set (inorder t)" and "node_key c n = pr"
    and "\<forall>m \<in> set (inorder t). om_slot_from_idx (slab c) (pn_slot (price_nodes c m)) = Some m"
  shows "fst (price_descend c pr b t ins) = Some n"
  using assms
proof (induction t arbitrary: ins)
  case Leaf
  then show ?case by simp
next
  case (Node l m r)
  consider "node_key c m = pr" | "pr < node_key c m" | "node_key c m < pr" by fastforce
  then show ?case
  proof cases
    case 1
    then have "n = m" using Node.prems by (auto simp: sorted_wrt_append)
    then show ?thesis using 1 Node.prems(4) by simp
  next
    case 2
    then have "n \<in> set (inorder l)" using Node.prems by (auto simp: sorted_wrt_append)
    then show ?thesis using 2 Node by (auto simp: sorted_wrt_append)
  next
    case 3
    then have "n \<in> set (inorder r)" using Node.prems by (auto simp: sorted_wrt_append)
    then show ?thesis using 3 Node by (auto simp: sorted_wrt_append)
  qed
qed

lemma descend_missing:
  assumes "sorted_wrt (\<lambda>x y. node_key c x < node_key c y) (inorder t)"
    and "\<forall>n \<in> set (inorder t). node_key c n \<noteq> pr"
    and "\<forall>m \<in> set (inorder t). om_slot_from_idx (slab c) (pn_slot (price_nodes c m)) = Some m"
  shows "price_descend c pr b t ins =
    (None, let xs = filter (\<lambda>n. better b (node_key c n) pr) (inorder t)
           in if xs = [] then ins else Some (if b then hd xs else last xs))"
  using assms
proof (induction t arbitrary: ins)
  case Leaf
  then show ?case by simp
next
  case (Node l m r)
  have lr: "\<forall>x \<in> set (inorder l). node_key c x < node_key c m" "\<forall>x \<in> set (inorder r). node_key c m < node_key c x"
    using Node.prems(1) by (auto simp: sorted_wrt_append)
  have m: "om_slot_from_idx (slab c) (pn_slot (price_nodes c m)) = Some m" using Node.prems(3) by simp
  consider "pr < node_key c m" | "node_key c m < pr" using Node.prems(2) by fastforce
  then show ?case
  proof cases
    case 1
    have IH: "price_descend c pr b l ins' =
      (None, let xs = filter (\<lambda>n. better b (node_key c n) pr) (inorder l)
           in if xs = [] then ins' else Some (if b then hd xs else last xs))" for ins'
      using Node by (simp add: sorted_wrt_append)
    have "filter (\<lambda>n. better b (node_key c n) pr) (inorder r) = (if b then inorder r else [])"
      using lr(2) 1 by (auto simp: better_def filter_id_conv filter_empty_conv dest: order.strict_trans)
    then show ?thesis using 1 IH m by (auto simp: better_def Let_def hd_append)
  next
    case 2
    have IH: "price_descend c pr b r ins' =
      (None, let xs = filter (\<lambda>n. better b (node_key c n) pr) (inorder r)
           in if xs = [] then ins' else Some (if b then hd xs else last xs))" for ins'
      using Node by (simp add: sorted_wrt_append)
    have "filter (\<lambda>n. better b (node_key c n) pr) (inorder l) = (if b then [] else inorder l)"
      using lr(1) 2 by (auto simp: better_def filter_id_conv filter_empty_conv dest: order.strict_trans)
    then show ?thesis using 2 IH m by (auto simp: better_def Let_def)
  qed
qed

section \<open>The invariant of a side\<close>

definition oprice :: "('h, 'w) OmOrderbookContext \<Rightarrow> nat \<Rightarrow> u64" where
  "oprice c i = price (slot_at (slab c) i)"

text \<open>A recorded organisation of a level (not all ones) is the organisation of all its orders.\<close>

definition node_ok :: "('h, 'w) OmOrderbookContext \<Rightarrow> nat list \<Rightarrow> bool" where
  "node_ok c l \<longleftrightarrow> pn_price (price_nodes c (hd l)) = oprice c (hd l) \<and> pn_slot (price_nodes c (hd l)) = hd l \<and>
     (known_org (price_nodes c (hd l)) \<noteq> 0xFFFFFFFF \<longrightarrow>
        (\<forall>i \<in> set l. known_org (price_nodes c (hd l)) = ucast (org (slot_at (slab c) i))))"

definition side_inv :: "('h, 'w) OmOrderbookContext \<Rightarrow> u16 \<Rightarrow> bool \<Rightarrow> nat list list \<Rightarrow> bool" where
  "side_inv c pid b L \<longleftrightarrow> ladder (slab c) (book_head c pid b) L \<and> priced (oprice c) b L \<and>
     (\<forall>i \<in> set (concat L). OM_IS_BID (flags (slot_at (slab c) i)) = b) \<and>
     inorder (price_roots c (price_root pid b)) = (if b then rev (map hd L) else map hd L) \<and>
     (\<forall>l \<in> set L. node_ok c l)"

lemma side_invD:
  assumes "side_inv c pid b L"
  shows "ladder (slab c) (book_head c pid b) L" "priced (oprice c) b L"
    "i \<in> set (concat L) \<Longrightarrow> OM_IS_BID (flags (slot_at (slab c) i)) = b"
    "inorder (price_roots c (price_root pid b)) = (if b then rev (map hd L) else map hd L)"
    "l \<in> set L \<Longrightarrow> node_ok c l"
  using assms unfolding side_inv_def by blast+

text \<open>
  \<open>effect c c' pid b X\<close>: the step from \<open>c\<close> to \<open>c'\<close> concerns side \<open>b\<close> of product \<open>pid\<close> only, and in
  the slab and the price nodes only the slots \<open>X\<close>.
\<close>

definition effect ::
  "('h, 'w) OmOrderbookContext \<Rightarrow> ('h, 'w) OmOrderbookContext \<Rightarrow> u16 \<Rightarrow> bool \<Rightarrow> nat set \<Rightarrow> bool" where
  "effect c c' pid b X \<longleftrightarrow> touches X (slab c) (slab c') \<and>
     (\<forall>p d. (p, d) \<noteq> (pid, b) \<longrightarrow> book_head c' p d = book_head c p d \<and>
        price_roots c' (price_root p d) = price_roots c (price_root p d)) \<and>
     (\<forall>j. j \<notin> X \<longrightarrow> price_nodes c' j = price_nodes c j) \<and>
     max_products c' = max_products c \<and> max_org c' = max_org c \<and>
     order_hashmap c' = order_hashmap c \<and> wal c' = wal c"

lemma effect_slot:
  assumes "effect c c' pid b X"
  shows "price (slot_at (slab c') j) = price (slot_at (slab c) j)" "org (slot_at (slab c') j) = org (slot_at (slab c) j)"
    "flags (slot_at (slab c') j) = flags (slot_at (slab c) j)" "order_id (slot_at (slab c') j) = order_id (slot_at (slab c) j)"
    "oprice c' = oprice c" "a_capacity (slab_a (slab c')) = a_capacity (slab_a (slab c))"
    "core (slot_at (slab c') j) = core (slot_at (slab c) j)" "next_order_id (slab c') = next_order_id (slab c)"
proof -
  have "touches X (slab c) (slab c')" using assms by (simp add: effect_def)
  from same_frameD [OF touches_frame [OF this]]
  show "price (slot_at (slab c') j) = price (slot_at (slab c) j)" "org (slot_at (slab c') j) = org (slot_at (slab c) j)"
    "flags (slot_at (slab c') j) = flags (slot_at (slab c) j)" "order_id (slot_at (slab c') j) = order_id (slot_at (slab c) j)"
    "oprice c' = oprice c" "a_capacity (slab_a (slab c')) = a_capacity (slab_a (slab c))"
    "core (slot_at (slab c') j) = core (slot_at (slab c) j)" "next_order_id (slab c') = next_order_id (slab c)"
    by (simp_all add: oprice_def fun_eq_iff)
qed

lemma effect_side:
  assumes e: "effect c c' pid b X" and o: "(p, d) \<noteq> (pid, b)" "X \<inter> set (concat L) = {}" and inv: "side_inv c p d L"
  shows "side_inv c' p d L"
proof -
  note S = effect_slot [OF e] and D = side_invD [OF inv]
  have t: "touches X (slab c) (slab c')" and bh: "book_head c' p d = book_head c p d"
    and rt: "price_roots c' (price_root p d) = price_roots c (price_root p d)"
    and nd: "\<And>j. j \<notin> X \<Longrightarrow> price_nodes c' j = price_nodes c j"
    using e o(1) by (auto simp: effect_def)
  have "node_ok c' l" if "l \<in> set L" for l
  proof -
    have "hd l \<notin> X" using ladderD(7) [OF D(1) that] o(2) by blast
    then show ?thesis using D(5) [OF that] by (simp add: node_ok_def nd S)
  qed
  then show ?thesis using D ladder_touches [OF t o(2)] unfolding side_inv_def
    by (auto simp: bh rt S)
qed

section \<open>Finding a level\<close>

lemma side_keys:
  assumes "side_inv c pid b L"
  defines "t \<equiv> price_roots c (price_root pid b)"
  shows "sorted_wrt (\<lambda>x y. node_key c x < node_key c y) (inorder t)"
    "\<forall>m \<in> set (inorder t). om_slot_from_idx (slab c) (pn_slot (price_nodes c m)) = Some m"
    "set (inorder t) = set (map hd L)" "\<forall>m \<in> set (map hd L). node_key c m = oprice c m"
proof -
  note D = side_invD [OF assms(1)]
  show st: "set (inorder t) = set (map hd L)" using D(4) by (simp add: t_def)
  show k: "\<forall>m \<in> set (map hd L). node_key c m = oprice c m" using D(5) by (auto simp: node_ok_def node_key_def)
  have hin: "m < a_capacity (slab_a (slab c)) \<and> m \<noteq> OM_SLOT_IDX_NULL" if "m \<in> set (map hd L)" for m
    using that ladderD(4,5,7) [OF D(1)] by auto
  then show "\<forall>m \<in> set (inorder t). om_slot_from_idx (slab c) (pn_slot (price_nodes c m)) = Some m"
    unfolding st using D(5) by (auto simp: node_ok_def)
  have "sorted_wrt (\<lambda>x y. better b (oprice c x) (oprice c y)) (map hd L)"
    using pricedD(3) [OF D(2)] by (simp add: sorted_wrt_map)
  then have "sorted_wrt (\<lambda>x y. better b (node_key c x) (node_key c y)) (map hd L)"
    by (rule sorted_wrt_mono_rel [rotated]) (use k in auto)
  then show "sorted_wrt (\<lambda>x y. node_key c x < node_key c y) (inorder t)"
    using D(4) by (cases b) (simp_all add: t_def better_def sorted_wrt_rev)
qed

lemma find_price_level_head:
  assumes "side_inv c pid b L"
  shows "find_price_level_with_insertion_point c pid p b =
    (if L = [] \<or> better b p (oprice c (hd (hd L))) then (None, None)
     else price_descend c p b (price_roots c (price_root pid b)) None)"
proof -
  have "book_head c pid b = (if L = [] then OM_SLOT_IDX_NULL else hd (hd L))"
    "L \<noteq> [] \<Longrightarrow> hd (hd L) \<noteq> OM_SLOT_IDX_NULL"
    using ladderD(8) [OF side_invD(1) [OF assms]] ladderD(5,7) [OF side_invD(1) [OF assms]] by auto
  then show ?thesis
    by (auto simp: find_price_level_with_insertion_point_def Let_def better_def oprice_def)
qed

lemma find_price_level_found:
  assumes inv: "side_inv c pid b L" and l: "l \<in> set L" "oprice c (hd l) = p"
  shows "fst (find_price_level_with_insertion_point c pid p b) = Some (hd l)"
proof -
  note K = side_keys [OF inv] and D = side_invD [OF inv]
  obtain l0 L' where L: "L = l0 # L'" using l(1) by (cases L) auto
  have "\<not> better b p (oprice c (hd (hd L)))"
    using pricedD(3) [OF D(2)] l L better_asym [of b "oprice c (hd l0)" p] by auto
  then show ?thesis unfolding find_price_level_head [OF inv]
    using descend_found [OF K(1), of "hd l" p b None] K(2-4) l L by auto
qed

lemma find_price_level_missing:
  assumes inv: "side_inv c pid b L" and n: "\<forall>l \<in> set L. oprice c (hd l) \<noteq> p"
    and P: "L = P @ Q" "\<forall>l \<in> set P. better b (oprice c (hd l)) p" "\<forall>l \<in> set Q. better b p (oprice c (hd l))"
  shows "find_price_level_with_insertion_point c pid p b = (None, if P = [] then None else Some (hd (last P)))"
proof -
  note K = side_keys [OF inv] and D = side_invD [OF inv]
  have flt: "filter (\<lambda>h. better b (node_key c h) p) (map hd L) = map hd P"
    using P K(4) by (auto simp: filter_id_conv filter_empty_conv dest: better_asym)
  have miss: "\<forall>m \<in> set (inorder (price_roots c (price_root pid b))). node_key c m \<noteq> p"
    using n K(3,4) by auto
  have ds: "price_descend c p b (price_roots c (price_root pid b)) None = (None, if P = [] then None else Some (hd (last P)))"
    unfolding descend_missing [OF K(1) miss K(2)] using flt D(4)
    by (auto simp: Let_def rev_filter [symmetric] hd_rev last_map)
  have "L = [] \<or> better b p (oprice c (hd (hd L))) \<Longrightarrow> P = []"
    using P by (cases P) (auto dest: better_asym)
  then show ?thesis unfolding find_price_level_head [OF inv] ds by auto
qed

section \<open>Linking an order\<close>

lemma upd_slab_simps [simp]:
  "slab (upd_slab f c) = f (slab c)" "products (upd_slab f c) = products c"
  "book_head (upd_slab f c) = book_head c"
  "price_nodes (upd_slab f c) = price_nodes c" "price_roots (upd_slab f c) = price_roots c"
  "max_products (upd_slab f c) = max_products c" "max_org (upd_slab f c) = max_org c"
  "order_hashmap (upd_slab f c) = order_hashmap c" "wal (upd_slab f c) = wal c"
  "org_heads (upd_slab f c) = org_heads c"
  by (simp_all add: upd_slab_def book_head_def fun_eq_iff)

lemma set_book_head_simps [simp]:
  "slab (set_book_head p d i c) = slab c"
  "price_nodes (set_book_head p d i c) = price_nodes c" "price_roots (set_book_head p d i c) = price_roots c"
  "max_products (set_book_head p d i c) = max_products c" "max_org (set_book_head p d i c) = max_org c"
  "order_hashmap (set_book_head p d i c) = order_hashmap c" "wal (set_book_head p d i c) = wal c"
  "org_heads (set_book_head p d i c) = org_heads c"
  "book_head (set_book_head p d i c) p' d' = (if p' = p \<and> d' = d then i else book_head c p' d')"
  by (auto simp: set_book_head_def book_head_def)

lemma set_known_org_simps [simp]:
  "slab (set_known_org i v c) = slab c" "book_head (set_known_org i v c) = book_head c"
  "price_roots (set_known_org i v c) = price_roots c"
  "price_nodes (set_known_org i v c) = (price_nodes c)(i := (price_nodes c i)\<lparr>known_org := v\<rparr>)"
  "max_products (set_known_org i v c) = max_products c" "max_org (set_known_org i v c) = max_org c"
  "order_hashmap (set_known_org i v c) = order_hashmap c" "wal (set_known_org i v c) = wal c"
  "org_heads (set_known_org i v c) = org_heads c"
  by (auto simp: set_known_org_def book_head_def fun_eq_iff)

lemma price_add_simps [simp]:
  "slab (price_add E c p d i) = slab c" "book_head (price_add E c p d i) = book_head c"
  "max_products (price_add E c p d i) = max_products c" "max_org (price_add E c p d i) = max_org c"
  "order_hashmap (price_add E c p d i) = order_hashmap c" "wal (price_add E c p d i) = wal c"
  "org_heads (price_add E c p d i) = org_heads c"
  "price_nodes (price_add E c p d i) = (price_nodes c)(i := \<lparr>pn_price = oprice c i, pn_slot = i,
     known_org = ucast (org (slot_at (slab c) i))\<rparr>)"
  "price_roots (price_add E c p d i) = (price_roots c)(price_root p d :=
     kavl_insert E ((node_key c)(i := oprice c i)) (price_roots c (price_root p d)) i)"
  by (auto simp: price_add_def Let_def book_head_def oprice_def node_key_def fun_eq_iff
      intro!: arg_cong2 [where f = "kavl_insert E _"] arg_cong [where f = "\<lambda>k. kavl_insert E k _ _"])

lemma price_remove_simps [simp]:
  "slab (price_remove E c p d i) = slab c" "book_head (price_remove E c p d i) = book_head c"
  "max_products (price_remove E c p d i) = max_products c" "max_org (price_remove E c p d i) = max_org c"
  "order_hashmap (price_remove E c p d i) = order_hashmap c" "wal (price_remove E c p d i) = wal c"
  "org_heads (price_remove E c p d i) = org_heads c" "price_nodes (price_remove E c p d i) = price_nodes c"
  "price_roots (price_remove E c p d i) = (price_roots c)(price_root p d :=
     kavl_erase E (node_key c) (price_roots c (price_root p d)) (oprice c i))"
  by (auto simp: price_remove_def Let_def book_head_def oprice_def fun_eq_iff)

lemma price_root_inj [simp]: "price_root p d = price_root p' d' \<longleftrightarrow> p = p' \<and> d = d'"
proof
  assume a: "price_root p d = price_root p' d'"
  have "unat p = price_root p d div 2" "d \<longleftrightarrow> price_root p d mod 2 = 0"
    "unat p' = price_root p' d' div 2" "d' \<longleftrightarrow> price_root p' d' mod 2 = 0"
    by (auto simp: price_root_def)
  with a show "p = p' \<and> d = d'" by (metis unsigned_word_eqI)
qed simp

text \<open>The order as a new level.\<close>

definition new_level ::
  "('h, 'i, 'w) env \<Rightarrow> ('h, 'w) OmOrderbookContext \<Rightarrow> u16 \<Rightarrow> bool \<Rightarrow> nat \<Rightarrow> nat option \<Rightarrow> ('h, 'w) OmOrderbookContext" where
  "new_level E c pid b i ins = upd_slab (\<lambda>s. set_next OM_Q2_TIME_FIFO i OM_SLOT_IDX_NULL
      (set_prev OM_Q2_TIME_FIFO i OM_SLOT_IDX_NULL s)) (price_add E (insert_order_at c pid b i ins) pid b i)"

lemma insert_order_at_simps:
  "price_nodes (insert_order_at c pid b i ins) = price_nodes c"
  "price_roots (insert_order_at c pid b i ins) = price_roots c"
  "max_products (insert_order_at c pid b i ins) = max_products c" "max_org (insert_order_at c pid b i ins) = max_org c"
  "order_hashmap (insert_order_at c pid b i ins) = order_hashmap c" "wal (insert_order_at c pid b i ins) = wal c"
  "org_heads (insert_order_at c pid b i ins) = org_heads c"
  "book_head (insert_order_at c pid b i ins) p d =
     (if ins = None \<and> p = pid \<and> d = b then i else book_head c p d)"
  "node_key (insert_order_at c pid b i ins) = node_key c"
  by (auto simp: insert_order_at_def Let_def node_key_def fun_eq_iff split: option.splits)

lemma insert_order_at_frame: "same_frame (slab c) (slab (insert_order_at c pid b i ins))"
proof -
  have "same_frame s (om_queue_link_after t a i q)" if "same_frame s t" for s t a q
    using that queue_ops_frame(1) by (rule same_frame_trans)
  then show ?thesis by (auto simp: insert_order_at_def Let_def split: option.splits)
qed

lemma insert_order_at_slot:
  "oprice (insert_order_at c pid b i ins) = oprice c"
  "org (slot_at (slab (insert_order_at c pid b i ins)) j) = org (slot_at (slab c) j)"
  using same_frameD(8,10) [OF insert_order_at_frame, of c pid b i ins] by (simp_all add: oprice_def fun_eq_iff)

lemma new_level_slab: "slab (new_level E c pid b i ins) = level_links (slab c) (book_head c pid b) i ins"
  by (auto simp: new_level_def insert_order_at_def level_links_def Let_def split: option.splits)

lemma side_new_level:
  assumes K: "kavl_ok E" and inv: "side_inv c pid b (P @ Q)"
    and i: "i \<notin> set (concat (P @ Q))" "i \<noteq> OM_SLOT_IDX_NULL" "i < a_capacity (slab_a (slab c))"
      "OM_IS_BID (flags (slot_at (slab c) i)) = b"
    and P: "\<forall>l \<in> set P. better b (oprice c (hd l)) (oprice c i)" "\<forall>l \<in> set Q. better b (oprice c i) (oprice c (hd l))"
    and ins: "ins = (if P = [] then None else Some (hd (last P)))"
  defines "c' \<equiv> new_level E c pid b i ins"
  shows "side_inv c' pid b (P @ [i] # Q) \<and> effect c c' pid b (insert i (set (concat (P @ Q))))"
proof -
  note D = side_invD [OF inv] and S = side_keys [OF inv]
  have lad: "ladder (slab c') (if P = [] then i else book_head c pid b) (P @ [i] # Q)"
    "touches (insert i (set (concat (P @ Q)))) (slab c) (slab c')"
    using ladder_new_level [OF D(1) i(1-3) ins] by (simp_all add: c'_def new_level_slab)
  have nodes: "price_nodes c' = (price_nodes c)(i := \<lparr>pn_price = oprice c i, pn_slot = i,
      known_org = ucast (org (slot_at (slab c) i))\<rparr>)"
    by (simp add: c'_def new_level_def insert_order_at_simps insert_order_at_slot)
  have roots: "price_roots c' = (price_roots c)(price_root pid b :=
      kavl_insert E ((node_key c)(i := oprice c i)) (price_roots c (price_root pid b)) i)"
    by (simp add: c'_def new_level_def insert_order_at_simps insert_order_at_slot)
  have eff: "effect c c' pid b (insert i (set (concat (P @ Q))))"
    using lad(2) nodes roots unfolding effect_def
    by (auto simp: c'_def new_level_def insert_order_at_simps)
  note F = effect_slot [OF eff]
  have bh: "book_head c' pid b = (if P = [] then i else book_head c pid b)"
    by (simp add: c'_def new_level_def insert_order_at_simps ins)
  have prc: "priced (oprice c') b (P @ [i] # Q)"
    using D(2) P unfolding F(5) by (rule priced_new)
  have hi: "i \<notin> set (map hd (P @ Q))" using ladderD(7) [OF D(1)] i(1) by auto
  have rt: "inorder (price_roots c' (price_root pid b)) = (if b then rev (map hd (P @ [i] # Q)) else map hd (P @ [i] # Q))"
  proof -
    let ?k = "(node_key c)(i := oprice c i)"
    let ?xs = "if b then rev (map hd Q) else map hd P" and ?ys = "if b then rev (map hd P) else map hd Q"
    have io: "inorder (price_roots c (price_root pid b)) = ?xs @ ?ys" using D(4) by simp
    have "\<forall>x \<in> set ?xs. ?k x < ?k i" "\<forall>y \<in> set ?ys. ?k i < ?k y"
      using P hi S(4) by (auto simp: better_def)
    moreover have ni: "i \<notin> set (?xs @ ?ys)" using hi by auto
    have "sorted_wrt (\<lambda>x y. ?k x < ?k y) (?xs @ ?ys)"
    proof (rule sorted_wrt_mono_rel [OF _ S(1) [unfolded io]])
      fix x y assume "x \<in> set (?xs @ ?ys)" "y \<in> set (?xs @ ?ys)" "node_key c x < node_key c y"
      then show "?k x < ?k y" using ni by (metis fun_upd_other)
    qed
    ultimately have "sorted_wrt (\<lambda>x y. ?k x < ?k y) (?xs @ i # ?ys)" by (auto simp: sorted_wrt_append)
    then have "inorder (kavl_insert E ?k (price_roots c (price_root pid b)) i) = ?xs @ i # ?ys"
      using K io unfolding kavl_ok_def by blast
    then show ?thesis by (simp add: roots)
  qed
  have "node_ok c' l" if "l \<in> set (P @ [i] # Q)" for l
  proof (cases "l = [i]")
    case True
    then show ?thesis by (simp add: node_ok_def nodes F)
  next
    case False
    then have "l \<in> set (P @ Q)" "hd l \<noteq> i" using that hi by auto
    then show ?thesis using D(5) [of l] by (simp add: node_ok_def nodes F)
  qed
  then show ?thesis using lad bh prc rt eff D(3) i(4) unfolding side_inv_def by (auto simp: F)
qed

text \<open>The order behind the others of its price.\<close>

definition join_level ::
  "('h, 'w) OmOrderbookContext \<Rightarrow> nat \<Rightarrow> nat \<Rightarrow> ('h, 'w) OmOrderbookContext" where
  "join_level c head i =
     (let c2 = append_to_time_queue c head i; known = known_org (price_nodes c2 head)
      in if known \<noteq> 0xFFFFFFFF \<and> known \<noteq> ucast (org (slot_at (slab c) i)) then set_known_org head 0xFFFFFFFF c2 else c2)"

lemma join_level_simps:
  "slab (join_level c h i) = append_links (slab c) h i" "book_head (join_level c h i) = book_head c"
  "price_roots (join_level c h i) = price_roots c"
  "price_nodes (join_level c h i) = (if known_org (price_nodes c h) \<noteq> 0xFFFFFFFF \<and>
      known_org (price_nodes c h) \<noteq> ucast (org (slot_at (slab c) i))
     then (price_nodes c)(h := (price_nodes c h)\<lparr>known_org := 0xFFFFFFFF\<rparr>) else price_nodes c)"
  "max_products (join_level c h i) = max_products c" "max_org (join_level c h i) = max_org c"
  "order_hashmap (join_level c h i) = order_hashmap c" "wal (join_level c h i) = wal c"
  "org_heads (join_level c h i) = org_heads c"
  by (simp_all add: join_level_def append_to_time_queue_def append_links_def Let_def)

lemma side_join_level:
  assumes inv: "side_inv c pid b (P @ l # Q)"
    and i: "i \<notin> set (concat (P @ l # Q))" "i \<noteq> OM_SLOT_IDX_NULL" "i < a_capacity (slab_a (slab c))"
      "OM_IS_BID (flags (slot_at (slab c) i)) = b" "oprice c (hd l) = oprice c i"
  defines "c' \<equiv> join_level c (hd l) i"
  shows "side_inv c' pid b (P @ (l @ [i]) # Q) \<and> effect c c' pid b (insert i (set (concat (P @ l # Q))))"
proof -
  note D = side_invD [OF inv]
  have ne: "l \<noteq> []" using pricedD(1) [OF D(2)] by simp
  have hl: "hd (l @ [i]) = hd l" "hd l \<in> set (concat (P @ l # Q))" using ne by simp_all
  have lad: "ladder (slab c') (book_head c pid b) (P @ (l @ [i]) # Q)"
    "touches (insert i (set (concat (P @ l # Q)))) (slab c) (slab c')"
    using ladder_append [OF D(1) i(1-3)] by (simp_all add: c'_def join_level_simps)
  have eff: "effect c c' pid b (insert i (set (concat (P @ l # Q))))"
    using lad(2) hl(2) unfolding effect_def by (auto simp: c'_def join_level_simps)
  note F = effect_slot [OF eff]
  have prc: "priced (oprice c') b (P @ (l @ [i]) # Q)"
    using D(2) i(5) unfolding F(5) by (rule priced_join)
  have dist: "hd m \<noteq> hd l" if "m \<in> set (P @ Q)" for m
  proof -
    have "hd m \<in> set m" "hd l \<in> set l" using ladderD(6) [OF D(1), of m] that ne by auto
    then show ?thesis using ladder_level_parts [OF D(1) that] by (metis IntI empty_iff)
  qed
  have nodes: "price_nodes c' = (if known_org (price_nodes c (hd l)) \<noteq> 0xFFFFFFFF \<and>
      known_org (price_nodes c (hd l)) \<noteq> ucast (org (slot_at (slab c) i))
     then (price_nodes c)(hd l := (price_nodes c (hd l))\<lparr>known_org := 0xFFFFFFFF\<rparr>) else price_nodes c)"
    by (simp add: c'_def join_level_simps)
  have "node_ok c' m" if "m \<in> set (P @ Q)" for m
    using D(5) [of m] that dist [OF that] by (auto simp: node_ok_def nodes F)
  moreover have "node_ok c' (l @ [i])"
    using D(5) [of l] hl(1) by (auto simp: node_ok_def nodes F)
  moreover have "map hd (P @ (l @ [i]) # Q) = map hd (P @ l # Q)" using hl(1) by simp
  moreover have "OM_IS_BID (flags (slot_at (slab c') j)) = b" if "j \<in> set (concat (P @ (l @ [i]) # Q))" for j
    using that D(3) [of j] i(4) F(3) by auto
  moreover have "book_head c' pid b = book_head c pid b" "price_roots c' = price_roots c"
    by (simp_all add: c'_def join_level_simps)
  ultimately show ?thesis using lad prc eff D(4) unfolding side_inv_def by auto
qed

section \<open>Unlinking an order\<close>

lemma node_key_frame [simp]:
  "node_key (upd_slab f c) = node_key c" "node_key (set_book_head p d i c) = node_key c"
  "node_key (price_remove E c p d i) = node_key c"
  "oprice (set_book_head p d i c) = oprice c" "oprice (price_remove E c p d i) = oprice c"
  by (simp_all add: node_key_def oprice_def fun_eq_iff)

text \<open>Erasing the node of a level from the tree.\<close>

lemma side_erase:
  assumes K: "kavl_ok E" and inv: "side_inv c pid b (P @ l # Q)"
  shows "inorder (kavl_erase E (node_key c) (price_roots c (price_root pid b)) (oprice c (hd l))) =
    (if b then rev (map hd (P @ Q)) else map hd (P @ Q))"
proof -
  note D = side_invD [OF inv] and S = side_keys [OF inv]
  let ?xs = "if b then rev (map hd Q) else map hd P" and ?ys = "if b then rev (map hd P) else map hd Q"
  have io: "inorder (price_roots c (price_root pid b)) = ?xs @ hd l # ?ys" using D(4) by simp
  have "node_key c (hd l) = oprice c (hd l)" using S(4) by simp
  moreover have "inorder (kavl_erase E (node_key c) (price_roots c (price_root pid b)) (node_key c (hd l))) = ?xs @ ?ys"
    using K io S(1) [unfolded io] unfolding kavl_ok_def by blast
  ultimately show ?thesis by simp
qed

lemma side_unlink_single:
  assumes K: "kavl_ok E" and inv: "side_inv c pid b (P @ [i] # Q)"
  defines "c' \<equiv> level_unlink E c pid b i i"
  shows "side_inv c' pid b (P @ Q) \<and> effect c c' pid b (set (concat (P @ [i] # Q)))"
proof -
  note D = side_invD [OF inv]
  have "fifo OM_SLOT_IDX_NULL (qnext OM_Q2_TIME_FIFO (slab c)) (qprev OM_Q2_TIME_FIFO (slab c)) [i]"
    using ladderD(2) [OF D(1)] by simp
  then have "qnext OM_Q2_TIME_FIFO (slab c) i = OM_SLOT_IDX_NULL" by (simp add: fifo_def)
  then have c': "c' = remove_price_level E c pid i b" by (simp add: c'_def level_unlink_def)
  have slab: "slab c' = snd (om_queue_unlink (slab c) i OM_Q1_PRICE_LADDER)"
    and nodes: "price_nodes c' = price_nodes c"
    and roots: "price_roots c' = (price_roots c)(price_root pid b :=
      kavl_erase E (node_key c) (price_roots c (price_root pid b)) (oprice c i))"
    and bh: "\<And>p d. book_head c' p d = (if (p, d) = (pid, b) \<and> book_head c pid b = i
      then qnext OM_Q1_PRICE_LADDER (slab c) i else book_head c p d)"
    and rest: "max_products c' = max_products c" "max_org c' = max_org c" "order_hashmap c' = order_hashmap c" "wal c' = wal c"
    by (auto simp: c' remove_price_level_def Let_def)
  note lad = ladder_remove_level [OF D(1)]
  have eff: "effect c c' pid b (set (concat (P @ [i] # Q)))"
    using lad nodes roots bh rest unfolding effect_def slab by (auto split: if_splits)
  note F = effect_slot [OF eff]
  have "priced (oprice c') b (P @ Q)" using D(2) unfolding F(5) by (auto simp: priced_def sorted_wrt_append)
  moreover have "inorder (price_roots c' (price_root pid b)) = (if b then rev (map hd (P @ Q)) else map hd (P @ Q))"
    using side_erase [OF K inv] by (simp add: roots)
  moreover have "node_ok c' l" if "l \<in> set (P @ Q)" for l
    using D(5) [of l] that by (auto simp: node_ok_def nodes F)
  moreover have "book_head c' pid b = (if book_head c pid b = i then qnext OM_Q1_PRICE_LADDER (slab c) i else book_head c pid b)"
    by (simp add: bh)
  moreover have "OM_IS_BID (flags (slot_at (slab c') j)) = b" if "j \<in> set (concat (P @ Q))" for j
    using D(3) [of j] that by (simp add: F)
  ultimately show ?thesis using lad eff unfolding side_inv_def slab by auto
qed

lemma side_unlink_head:
  assumes K: "kavl_ok E" and inv: "side_inv c pid b (P @ (i # j # zs) # Q)"
  defines "c' \<equiv> level_unlink E c pid b i i"
  shows "side_inv c' pid b (P @ (j # zs) # Q) \<and> effect c c' pid b (set (concat (P @ (i # j # zs) # Q)))"
proof -
  note D = side_invD [OF inv] and S = side_keys [OF inv]
  have "fifo OM_SLOT_IDX_NULL (qnext OM_Q2_TIME_FIFO (slab c)) (qprev OM_Q2_TIME_FIFO (slab c)) (i # j # zs)"
    using ladderD(2) [OF D(1)] by simp
  then have n: "qnext OM_Q2_TIME_FIFO (slab c) i = j" "j \<noteq> OM_SLOT_IDX_NULL" by (auto simp: fifo_def)
  have pj: "oprice c j = oprice c i" using pricedD(2) [OF D(2), of "i # j # zs" j] by simp
  let ?k = "(node_key c)(j := oprice c j)"
  let ?t = "kavl_erase E (node_key c) (price_roots c (price_root pid b)) (oprice c i)"
  have slab: "slab c' = promote_links i j (slab c)"
    and nodes: "price_nodes c' = (price_nodes c)(j := \<lparr>pn_price = oprice c j, pn_slot = j,
      known_org = known_org (price_nodes c i)\<rparr>)"
    and roots: "price_roots c' = (price_roots c)(price_root pid b := kavl_insert E ?k ?t j)"
    and bh: "\<And>p d. book_head c' p d = (if (p, d) = (pid, b) \<and> book_head c pid b = i then j else book_head c p d)"
    and rest: "max_products c' = max_products c" "max_org c' = max_org c" "order_hashmap c' = order_hashmap c" "wal c' = wal c"
    using n by (auto simp: c'_def level_unlink_def price_promote_def Let_def)
  note lad = ladder_promote [OF D(1)]
  have eff: "effect c c' pid b (set (concat (P @ (i # j # zs) # Q)))"
    using lad nodes roots bh rest unfolding effect_def slab by (auto split: if_splits)
  note F = effect_slot [OF eff]
  have prc: "priced (oprice c') b (P @ (j # zs) # Q)"
    using D(2) pj unfolding F(5) by (auto simp: priced_def sorted_wrt_append)
  have hj: "j \<notin> set (map hd (P @ Q))"
    using ladder_neighbours(3) [OF D(1)] ladderD(3) [OF D(1)] by auto
  have rt: "inorder (price_roots c' (price_root pid b)) = (if b then rev (map hd (P @ (j # zs) # Q)) else map hd (P @ (j # zs) # Q))"
  proof -
    let ?xs = "if b then rev (map hd Q) else map hd P" and ?ys = "if b then rev (map hd P) else map hd Q"
    have io: "inorder (price_roots c (price_root pid b)) = ?xs @ i # ?ys" using D(4) by simp
    have it: "inorder ?t = ?xs @ ?ys" using side_erase [OF K inv] by simp
    have ki: "node_key c i = oprice c j" using S(4) pj by simp
    have nj: "j \<notin> set (?xs @ ?ys)" using hj by auto
    then have eq: "?k x = node_key c x" if "x \<in> set (?xs @ ?ys)" for x using that by (metis fun_upd_other)
    have srt: "sorted_wrt (\<lambda>x y. node_key c x < node_key c y) (?xs @ i # ?ys)" using S(1) unfolding io .
    then have "sorted_wrt (\<lambda>x y. node_key c x < node_key c y) (?xs @ ?ys)"
      and "\<forall>x \<in> set ?xs. node_key c x < oprice c j" "\<forall>y \<in> set ?ys. oprice c j < node_key c y"
      using ki by (auto simp: sorted_wrt_append)
    then have "sorted_wrt (\<lambda>x y. ?k x < ?k y) (?xs @ ?ys)" "\<forall>x \<in> set ?xs. ?k x < ?k j" "\<forall>y \<in> set ?ys. ?k j < ?k y"
      using eq nj by (auto intro: sorted_wrt_mono_rel [rotated] simp del: fun_upd_apply simp add: fun_upd_same)
    then have "sorted_wrt (\<lambda>x y. ?k x < ?k y) (?xs @ j # ?ys)" by (simp only: sorted_wrt_append sorted_wrt.simps) auto
    then have "inorder (kavl_insert E ?k ?t j) = ?xs @ j # ?ys" using K it unfolding kavl_ok_def by blast
    then show ?thesis by (simp add: roots)
  qed
  have "node_ok c' l" if "l \<in> set (P @ Q)" for l
    using D(5) [of l] that hj by (auto simp: node_ok_def nodes F)
  moreover have "node_ok c' (j # zs)" using D(5) [of "i # j # zs"] by (auto simp: node_ok_def nodes F)
  moreover have "OM_IS_BID (flags (slot_at (slab c') k)) = b" if "k \<in> set (concat (P @ (j # zs) # Q))" for k
    using D(3) [of k] that by (auto simp: F)
  moreover have "book_head c' pid b = (if book_head c pid b = i then j else book_head c pid b)" by (simp add: bh)
  ultimately show ?thesis using lad eff prc rt unfolding side_inv_def slab by auto
qed

lemma side_unlink_behind:
  fixes E :: "('h, 'i, 'w) env" and c :: "('h, 'w) OmOrderbookContext"
  assumes inv: "side_inv c pid b (P @ (a # xs @ i # ys) # Q)"
  defines "c' \<equiv> level_unlink E c pid b a i"
  shows "side_inv c' pid b (P @ (a # xs @ ys) # Q) \<and> effect c c' pid b (set (concat (P @ (a # xs @ i # ys) # Q)))"
proof -
  note D = side_invD [OF inv]
  have "i \<noteq> a" using ladderD(3) [OF D(1)] by auto
  then have slab: "slab c' = unlink_links_q2 (slab c) a i"
    and nodes: "price_nodes c' = price_nodes c" and roots: "price_roots c' = price_roots c"
    and bh: "book_head c' = book_head c"
    and rest: "max_products c' = max_products c" "max_org c' = max_org c" "order_hashmap c' = order_hashmap c" "wal c' = wal c"
    by (auto simp: c'_def level_unlink_def unlink_links_q2_def Let_def)
  note lad = ladder_remove_behind [OF D(1)]
  have eff: "effect c c' pid b (set (concat (P @ (a # xs @ i # ys) # Q)))"
    using lad unfolding effect_def slab nodes roots bh rest by auto
  note F = effect_slot [OF eff]
  have "priced (oprice c') b (P @ (a # xs @ ys) # Q)" using D(2) unfolding F(5) by (auto simp: priced_def sorted_wrt_append)
  moreover have "node_ok c' l" if "l \<in> set (P @ (a # xs @ ys) # Q)" for l
    using D(5) [of l] D(5) [of "a # xs @ i # ys"] that by (auto simp: node_ok_def nodes F)
  moreover have "OM_IS_BID (flags (slot_at (slab c') k)) = b" if "k \<in> set (concat (P @ (a # xs @ ys) # Q))" for k
    using D(3) [of k] that by (auto simp: F)
  ultimately show ?thesis using lad eff D(4) unfolding side_inv_def slab bh roots by auto
qed

lemma side_level_unlink:
  assumes K: "kavl_ok E" and inv: "side_inv c pid b L" and l: "l \<in> set L" "i \<in> set l"
  shows "side_inv (level_unlink E c pid b (hd l) i) pid b (spec_remove i L) \<and>
    effect c (level_unlink E c pid b (hd l) i) pid b (set (concat L))"
proof -
  note D = side_invD [OF inv]
  obtain P Q where L: "L = P @ l # Q" using l(1) by (meson split_list)
  note inv' = inv [unfolded L]
  have dc: "distinct (concat (P @ l # Q))" using ladderD(3) [OF D(1)] L by simp
  have "spec_remove i L = P @ (if removeAll i l = [] then Q else removeAll i l # Q)"
    unfolding L using dc l(2) by (rule spec_remove_split) (use ladderD(6) [OF D(1)] L in auto)
  note sr = this
  have dl: "distinct l" using dc by auto
  obtain xs ys where s: "l = xs @ i # ys" using l(2) by (meson split_list)
  have ra: "removeAll i l = xs @ ys" using dl s by auto
  show ?thesis
  proof (cases xs)
    case (Cons a xs')
    then have "l = a # xs' @ i # ys" using s by simp
    with side_unlink_behind [of c pid b P a xs' i ys Q E] inv' sr ra Cons L show ?thesis by simp
  next
    case Nil
    show ?thesis
    proof (cases ys)
      case Nil
      with \<open>xs = []\<close> s have "l = [i]" by simp
      with side_unlink_single [OF K, of c pid b P i Q] inv' sr ra L \<open>xs = []\<close> Nil show ?thesis by simp
    next
      case (Cons j zs)
      with \<open>xs = []\<close> s have "l = i # j # zs" by simp
      with side_unlink_head [OF K, of c pid b P i j zs Q] inv' sr ra L \<open>xs = []\<close> Cons show ?thesis by simp
    qed
  qed
qed

end
