(* ===== verification/Book_Inv.thy ===== *)
theory Book_Inv
  imports Side_Inv
begin

text \<open>
  The invariant of the whole order book: the levels of every side of every product, the slots
  held by deactivated orders, the free list and the order map; and the refinement theorems
  for insertion, cancellation, removal and unlinking.
\<close>

section \<open>Shape: slab and sides\<close>

type_synonym levels = "u16 \<Rightarrow> bool \<Rightarrow> nat list list"

definition resting :: "levels \<Rightarrow> nat set" where
  "resting B = (\<Union>p b. set (concat (B p b)))"

definition upd_levels :: "levels \<Rightarrow> u16 \<Rightarrow> bool \<Rightarrow> nat list list \<Rightarrow> levels" where
  "upd_levels B p b L = B(p := (B p)(b := L))"

lemma upd_levels_apply [simp]: "upd_levels B p b L p' b' = (if p' = p \<and> b' = b then L else B p' b')"
  by (simp add: upd_levels_def)

lemma restingI: "i \<in> set (concat (B p b)) \<Longrightarrow> i \<in> resting B"
  by (auto simp: resting_def)

text \<open>\<open>D\<close> are slots in use outside the ladders, \<open>F\<close> the free list.\<close>

definition book_shape :: "('h, 'w) OmOrderbookContext \<Rightarrow> levels \<Rightarrow> nat set \<Rightarrow> nat list \<Rightarrow> bool" where
  "book_shape c B D F \<longleftrightarrow> slab_inv (slab c) F \<and>
     (\<forall>p b. ucast p < max_products c \<longrightarrow> side_inv c p b (B p b)) \<and>
     (\<forall>p b. \<not> ucast p < max_products c \<longrightarrow> B p b = []) \<and>
     (\<forall>p b p' b'. (p, b) \<noteq> (p', b') \<longrightarrow> set (concat (B p b)) \<inter> set (concat (B p' b')) = {}) \<and>
     resting B \<inter> set F = {} \<and> D \<inter> set F = {} \<and> D \<inter> resting B = {} \<and>
     (\<forall>i \<in> D. i < a_capacity (slab_a (slab c)))"

lemma book_shapeD:
  assumes "book_shape c B D F"
  shows "slab_inv (slab c) F" "ucast p < max_products c \<Longrightarrow> side_inv c p b (B p b)"
    "\<not> ucast p < max_products c \<Longrightarrow> B p b = []"
    "(p, b) \<noteq> (p', b') \<Longrightarrow> set (concat (B p b)) \<inter> set (concat (B p' b')) = {}"
    "resting B \<inter> set F = {}" "D \<inter> set F = {}" "D \<inter> resting B = {}"
    "i \<in> D \<Longrightarrow> i < a_capacity (slab_a (slab c))"
    "i \<in> set (concat (B p b)) \<Longrightarrow> ucast p < max_products c"
    "i \<in> resting B \<Longrightarrow> i < a_capacity (slab_a (slab c))"
proof -
  note A = assms [unfolded book_shape_def]
  note A2 = A [THEN conjunct2] note A3 = A2 [THEN conjunct2] note A4 = A3 [THEN conjunct2]
  note A5 = A4 [THEN conjunct2] note A6 = A5 [THEN conjunct2] note A7 = A6 [THEN conjunct2]
  show sides: "ucast p < max_products c \<Longrightarrow> side_inv c p b (B p b)" for p b using A2 [THEN conjunct1] by blast
  show none: "\<not> ucast p < max_products c \<Longrightarrow> B p b = []" for p b using A3 [THEN conjunct1] by blast
  show "slab_inv (slab c) F" by (rule A [THEN conjunct1])
  show "(p, b) \<noteq> (p', b') \<Longrightarrow> set (concat (B p b)) \<inter> set (concat (B p' b')) = {}"
    by (rule A4 [THEN conjunct1, rule_format])
  show "resting B \<inter> set F = {}" by (rule A5 [THEN conjunct1])
  show "D \<inter> set F = {}" by (rule A6 [THEN conjunct1])
  show "D \<inter> resting B = {}" by (rule A7 [THEN conjunct1])
  show "i \<in> D \<Longrightarrow> i < a_capacity (slab_a (slab c))" using A7 [THEN conjunct2] by blast
  show inp: "i \<in> set (concat (B p b)) \<Longrightarrow> ucast p < max_products c" for i p b using none [of p b] by fastforce
  show "i \<in> resting B \<Longrightarrow> i < a_capacity (slab_a (slab c))"
    using inp sides side_invD(1) ladderD(4) unfolding resting_def by blast
qed

lemma resting_upd:
  assumes "set (concat L) \<subseteq> insert i (set (concat (B p b)))"
  shows "resting (upd_levels B p b L) \<subseteq> insert i (resting B)"
proof
  fix x assume "x \<in> resting (upd_levels B p b L)"
  then obtain q d where "x \<in> set (concat (upd_levels B p b L q d))" unfolding resting_def by blast
  then show "x \<in> insert i (resting B)" using assms restingI [of x B] by (cases "q = p \<and> d = b") auto
qed

lemma levels_remove:
  assumes L: "set (concat L) = set (concat (B p b)) - {i}"
    and dj: "\<forall>p' b'. (p', b') \<noteq> (p, b) \<longrightarrow> i \<notin> set (concat (B p' b'))"
    and j: "j \<in> set (concat (upd_levels B p b L q d))"
  shows "j \<in> set (concat (B q d)) \<and> j \<noteq> i"
proof (cases "(q, d) = (p, b)")
  case True
  then have "j \<in> set (concat L)" using j by simp
  with L True show ?thesis by blast
next
  case False
  then have "upd_levels B p b L q d = B q d" by auto
  with j dj False show ?thesis by metis
qed

lemma resting_remove:
  assumes "set (concat L) = set (concat (B p b)) - {i}"
    and "\<forall>p' b'. (p', b') \<noteq> (p, b) \<longrightarrow> i \<notin> set (concat (B p' b'))"
  shows "resting (upd_levels B p b L) = resting B - {i}"
proof (rule set_eqI)
  fix x
  have "(\<exists>q d. x \<in> set (concat (upd_levels B p b L q d))) \<longleftrightarrow> (\<exists>q d. x \<in> set (concat (B q d))) \<and> x \<noteq> i"
  proof
    assume "\<exists>q d. x \<in> set (concat (upd_levels B p b L q d))"
    then obtain q d where "x \<in> set (concat (upd_levels B p b L q d))" by blast
    then have "x \<in> set (concat (B q d)) \<and> x \<noteq> i" by (rule levels_remove [OF assms])
    then show "(\<exists>q d. x \<in> set (concat (B q d))) \<and> x \<noteq> i" by blast
  next
    assume "(\<exists>q d. x \<in> set (concat (B q d))) \<and> x \<noteq> i"
    then obtain q d where x: "x \<in> set (concat (B q d))" "x \<noteq> i" by blast
    then have "x \<in> set (concat (upd_levels B p b L q d))" using assms(1) by (auto simp del: set_concat)
    then show "\<exists>q d. x \<in> set (concat (upd_levels B p b L q d))" by blast
  qed
  then show "x \<in> resting (upd_levels B p b L) \<longleftrightarrow> x \<in> resting B - {i}" unfolding resting_def by blast
qed

text \<open>A step on one side replaces the levels of that side.\<close>

lemma shape_side:
  assumes sh: "book_shape c B D F" and p: "ucast pid < max_products c"
    and e: "effect c c' pid b X" and s: "side_inv c' pid b L"
    and X: "X \<subseteq> insert i (set (concat (B pid b)))" and L: "set (concat L) \<subseteq> insert i (set (concat (B pid b)))"
    and i: "\<forall>p' b'. (p', b') \<noteq> (pid, b) \<longrightarrow> i \<notin> set (concat (B p' b'))" "i \<notin> set F" "i \<notin> D"
  shows "book_shape c' (upd_levels B pid b L) D F"
proof -
  note S = book_shapeD [OF sh] and Fr = effect_slot [OF e]
  have mx: "max_products c' = max_products c" and t: "touches X (slab c) (slab c')" using e by (auto simp: effect_def)
  have dj: "insert i (set (concat (B pid b))) \<inter> set (concat (B p' b')) = {}" if "(p', b') \<noteq> (pid, b)" for p' b'
    using S(4) [of pid b p' b'] i(1) that by blast
  have "side_inv c' p' b' (upd_levels B pid b L p' b')" if "ucast p' < max_products c'" for p' b'
  proof (cases "(p', b') = (pid, b)")
    case False
    then have "X \<inter> set (concat (B p' b')) = {}" using dj X by blast
    with effect_side [OF e False this] S(2) that mx False show ?thesis by auto
  qed (use s in simp)
  moreover have "set (concat (upd_levels B pid b L q d)) \<inter> set (concat (upd_levels B pid b L q' d')) = {}"
    if "(q, d) \<noteq> (q', d')" for q d q' d'
  proof -
    have "set (concat L) \<inter> set (concat (B p' b')) = {}" if "(p', b') \<noteq> (pid, b)" for p' b' using dj [OF that] L by blast
    then show ?thesis using that S(4) [OF that] by (simp del: set_concat) blast
  qed
  moreover have "resting (upd_levels B pid b L) \<subseteq> insert i (resting B)" using L by (rule resting_upd)
  ultimately show ?thesis unfolding book_shape_def
    using S(1,3,5-8) i p mx by (auto simp: touches_slab_inv [OF t] Fr simp del: set_concat)
qed

text \<open>Steps that only concern organisation lists.\<close>

definition silent :: "('h, 'w) OmOrderbookContext \<Rightarrow> ('h, 'w) OmOrderbookContext \<Rightarrow> bool" where
  "silent c c' \<longleftrightarrow> touches {} (slab c) (slab c') \<and> book_head c' = book_head c \<and> price_roots c' = price_roots c \<and>
     price_nodes c' = price_nodes c \<and> max_products c' = max_products c \<and> max_org c' = max_org c \<and>
     order_hashmap c' = order_hashmap c \<and> wal c' = wal c"

lemma silent_slot:
  assumes "silent c c'"
  shows "core (slot_at (slab c') j) = core (slot_at (slab c) j)" "oprice c' = oprice c"
    "order_id (slot_at (slab c') j) = order_id (slot_at (slab c) j)" "flags (slot_at (slab c') j) = flags (slot_at (slab c) j)"
    "org (slot_at (slab c') j) = org (slot_at (slab c) j)"
    "a_capacity (slab_a (slab c')) = a_capacity (slab_a (slab c))" "next_order_id (slab c') = next_order_id (slab c)"
proof -
  have "touches {} (slab c) (slab c')" using assms by (simp add: silent_def)
  from same_frameD [OF touches_frame [OF this]]
  show "core (slot_at (slab c') j) = core (slot_at (slab c) j)" "oprice c' = oprice c"
    "order_id (slot_at (slab c') j) = order_id (slot_at (slab c) j)" "flags (slot_at (slab c') j) = flags (slot_at (slab c) j)"
    "org (slot_at (slab c') j) = org (slot_at (slab c) j)"
    "a_capacity (slab_a (slab c')) = a_capacity (slab_a (slab c))" "next_order_id (slab c') = next_order_id (slab c)"
    by (simp_all add: oprice_def fun_eq_iff)
qed

lemma silent_trans: "silent c c' \<Longrightarrow> silent c' c'' \<Longrightarrow> silent c c''"
  unfolding silent_def by (auto intro: touches_trans)

lemma silent_shape:
  assumes "silent c c'"
  shows "book_shape c' B D F = book_shape c B D F"
proof -
  have t: "touches {} (slab c) (slab c')" using assms by (simp add: silent_def)
  note S = silent_slot [OF assms]
  have "side_inv c' p b L = side_inv c p b L" for p b L
    using assms ladder_touches [OF t, of L] unfolding silent_def side_inv_def node_ok_def by (simp add: S)
  then show ?thesis using assms unfolding book_shape_def silent_def by (simp add: touches_slab_inv [OF t] S)
qed

lemma org_ops_silent:
  "silent c (org_unlink c i)" "silent c (org_head_skip c pid i)" "silent c (org_queue_insert c pid i)"
proof -
  show "silent c (org_unlink c i)" by (simp add: silent_def org_unlink_def touches_q3)
  show "silent c (org_head_skip c pid i)"
    by (auto simp: silent_def org_head_skip_def Let_def set_org_head_def book_head_def fun_eq_iff)
  have "touches {} s (set_next OM_Q3_ORG_QUEUE i v (set_prev OM_Q3_ORG_QUEUE i w s))" for s v w
    using touches_trans [OF touches_q3(2) touches_q3(1)] .
  then show "silent c (org_queue_insert c pid i)"
    by (auto simp: silent_def org_queue_insert_def Let_def set_org_head_def book_head_def fun_eq_iff touches_q3)
qed

text \<open>The order map and the log do not matter to the shape.\<close>

lemma oprice_record [simp]:
  "oprice (c\<lparr>order_hashmap := h\<rparr>) = oprice c" "oprice (c\<lparr>wal := w\<rparr>) = oprice c"
  by (simp_all add: oprice_def fun_eq_iff)

lemma side_record [simp]:
  "side_inv (c\<lparr>order_hashmap := h\<rparr>) p b L = side_inv c p b L" "side_inv (c\<lparr>wal := w\<rparr>) p b L = side_inv c p b L"
  by (simp_all add: side_inv_def node_ok_def book_head_def)

lemma shape_record [simp]:
  "book_shape (c\<lparr>order_hashmap := h\<rparr>) B D F = book_shape c B D F"
  "book_shape (c\<lparr>wal := w\<rparr>) B D F = book_shape c B D F"
  by (simp_all add: book_shape_def)

text \<open>Giving a slot back.\<close>

lemma shape_free:
  assumes sh: "book_shape c B D F" and i: "i \<notin> resting B" "i \<notin> set F" "i \<notin> D" "i < a_capacity (slab_a (slab c))"
  shows "book_shape (upd_slab (\<lambda>s. om_slab_free s i) c) B D (i # F)"
proof -
  let ?c = "upd_slab (\<lambda>s. om_slab_free s i) c"
  note S = book_shapeD [OF sh]
  have nn: "i \<noteq> OM_SLOT_IDX_NULL" using slab_invD(10) [OF S(1) i(4)] .
  note L = om_slab_free_links [OF nn]
  note C = core_eqD [OF L(5)]
  have "side_inv ?c p b (B p b)" if p: "ucast p < max_products c" for p b
  proof -
    note D = side_invD [OF S(2) [OF p, of b]]
    have out: "i \<notin> set (concat (B p b))" using i(1) restingI by blast
    then have "i \<notin> set (map hd (B p b))" "\<forall>l \<in> set (B p b). i \<notin> set l" using ladderD(7) [OF D(1)] by (auto simp del: set_concat, auto)
    then have "ladder (slab ?c) (book_head ?c p b) (B p b)" using D(1)
      by (simp add: ladder_def L)
    moreover have "oprice ?c = oprice c" by (simp add: oprice_def C fun_eq_iff)
    moreover have "node_ok ?c l" if "l \<in> set (B p b)" for l
      using D(5) [OF that] by (simp add: node_ok_def oprice_def C)
    ultimately show ?thesis using D(2-4) unfolding side_inv_def by (simp add: C)
  qed
  then show ?thesis using S(1,3-8) i om_slab_free_inv [OF S(1) i(2,4)] unfolding book_shape_def by auto
qed

section \<open>The book and its order map\<close>

text \<open>
  Every resting order is found under its id with its slot and product, every entry is a
  resting or a deactivated order, and every deactivated order has an entry.
\<close>

definition book_map :: "('h, 'i, 'w) env \<Rightarrow> ('h, 'w) OmOrderbookContext \<Rightarrow> levels \<Rightarrow> nat set \<Rightarrow> bool" where
  "book_map E c B D \<longleftrightarrow>
     (\<forall>p b. \<forall>i \<in> set (concat (B p b)). om_hash_get (env_hash E) (order_hashmap c) (ucast (order_id (slot_at (slab c) i))) =
        Some \<lparr>slot_idx = i, product_id = p\<rparr>) \<and>
     (\<forall>i \<in> D. \<exists>p. om_hash_get (env_hash E) (order_hashmap c) (ucast (order_id (slot_at (slab c) i))) =
        Some \<lparr>slot_idx = i, product_id = p\<rparr>) \<and>
     (\<forall>k e. om_hash_get (env_hash E) (order_hashmap c) k = Some e \<longrightarrow>
        k = ucast (order_id (slot_at (slab c) (slot_idx e))) \<and> ucast (product_id e) < max_products c \<and>
        (slot_idx e \<in> D \<or> (\<exists>b. slot_idx e \<in> set (concat (B (product_id e) b)))))"

definition book_inv ::
  "('h, 'i, 'w) env \<Rightarrow> ('h, 'w) OmOrderbookContext \<Rightarrow> levels \<Rightarrow> nat set \<Rightarrow> nat list \<Rightarrow> bool" where
  "book_inv E c B D F \<longleftrightarrow> book_shape c B D F \<and> book_map E c B D"

lemma book_mapD:
  assumes "book_map E c B D"
  shows "i \<in> set (concat (B p b)) \<Longrightarrow>
      om_hash_get (env_hash E) (order_hashmap c) (ucast (order_id (slot_at (slab c) i))) = Some \<lparr>slot_idx = i, product_id = p\<rparr>"
    "i \<in> D \<Longrightarrow> \<exists>p. om_hash_get (env_hash E) (order_hashmap c) (ucast (order_id (slot_at (slab c) i))) =
        Some \<lparr>slot_idx = i, product_id = p\<rparr>"
    "om_hash_get (env_hash E) (order_hashmap c) k = Some e \<Longrightarrow> k = ucast (order_id (slot_at (slab c) (slot_idx e)))"
    "om_hash_get (env_hash E) (order_hashmap c) k = Some e \<Longrightarrow> ucast (product_id e) < max_products c"
    "om_hash_get (env_hash E) (order_hashmap c) k = Some e \<Longrightarrow>
        slot_idx e \<in> D \<or> (\<exists>b. slot_idx e \<in> set (concat (B (product_id e) b)))"
  using assms unfolding book_map_def by blast+

lemma book_map_cong:
  assumes "order_hashmap c' = order_hashmap c" and "max_products c' = max_products c"
    and "\<And>i. order_id (slot_at (slab c') i) = order_id (slot_at (slab c) i)"
  shows "book_map E c' B D = book_map E c B D"
  unfolding book_map_def assms ..

text \<open>Adding an order and dropping one, in the map.\<close>

lemma book_map_add:
  assumes m: "book_map E c B D" and L: "set (concat L) = insert i (set (concat (B p b)))"
    and g: "om_hash_get (env_hash E) (order_hashmap c') = (om_hash_get (env_hash E) (order_hashmap c))
        (ucast (order_id (slot_at (slab c) i)) \<mapsto> \<lparr>slot_idx = i, product_id = p\<rparr>)"
    and new: "om_hash_get (env_hash E) (order_hashmap c) (ucast (order_id (slot_at (slab c) i))) = None"
    and fr: "max_products c' = max_products c" "\<And>i. order_id (slot_at (slab c') i) = order_id (slot_at (slab c) i)"
    and p: "ucast p < max_products c"
  shows "book_map E c' (upd_levels B p b L) D"
proof -
  note M = book_mapD [OF m]
  let ?h = "om_hash_get (env_hash E) (order_hashmap c)"
  have other: "ucast (order_id (slot_at (slab c) j)) \<noteq> (ucast (order_id (slot_at (slab c) i)) :: u64)"
    if "?h (ucast (order_id (slot_at (slab c) j))) = Some e" for j e
  proof
    assume "ucast (order_id (slot_at (slab c) j)) = (ucast (order_id (slot_at (slab c) i)) :: u64)"
    then show False using that new by simp
  qed
  show ?thesis unfolding book_map_def fr g
  proof (intro conjI allI ballI impI)
    fix q d j assume "j \<in> set (concat (upd_levels B p b L q d))"
    then have "j = i \<and> q = p \<or> j \<in> set (concat (B q d))" using L by (auto simp del: set_concat split: if_splits)
    then show "(?h(ucast (order_id (slot_at (slab c) i)) \<mapsto> \<lparr>slot_idx = i, product_id = p\<rparr>))
        (ucast (order_id (slot_at (slab c) j))) = Some \<lparr>slot_idx = j, product_id = q\<rparr>"
      using M(1) [of j q d] other by auto
  next
    fix j assume "j \<in> D"
    then show "\<exists>q. (?h(ucast (order_id (slot_at (slab c) i)) \<mapsto> \<lparr>slot_idx = i, product_id = p\<rparr>))
        (ucast (order_id (slot_at (slab c) j))) = Some \<lparr>slot_idx = j, product_id = q\<rparr>"
      using M(2) [of j] other by auto
  next
    fix k e assume a: "(?h(ucast (order_id (slot_at (slab c) i)) \<mapsto> \<lparr>slot_idx = i, product_id = p\<rparr>)) k = Some e"
    show "k = ucast (order_id (slot_at (slab c) (slot_idx e)))" using a M(3) [of k e] by (auto split: if_splits)
    show "ucast (product_id e) < max_products c" using a M(4) [of k e] p by (auto split: if_splits)
    show "slot_idx e \<in> D \<or> (\<exists>d. slot_idx e \<in> set (concat (upd_levels B p b L (product_id e) d)))"
    proof (cases "k = ucast (order_id (slot_at (slab c) i))")
      case True
      then have "e = \<lparr>slot_idx = i, product_id = p\<rparr>" using a by simp
      then have "slot_idx e \<in> set (concat (upd_levels B p b L (product_id e) b))" using L by (simp del: set_concat)
      then show ?thesis by blast
    next
      case False
      then have "?h k = Some e" using a by simp
      from M(5) [OF this] show ?thesis
      proof
        assume "\<exists>d. slot_idx e \<in> set (concat (B (product_id e) d))"
        then obtain d where "slot_idx e \<in> set (concat (B (product_id e) d))" by blast
        then have "slot_idx e \<in> set (concat (upd_levels B p b L (product_id e) d))" using L by (auto simp del: set_concat)
        then show ?thesis by blast
      qed simp
    qed
  qed
qed

lemma book_map_drop:
  assumes m: "book_map E c B D" and i: "i \<in> set (concat (B p b))" and L: "set (concat L) = set (concat (B p b)) - {i}"
    and dj: "\<forall>p' b'. (p', b') \<noteq> (p, b) \<longrightarrow> i \<notin> set (concat (B p' b'))" and iD: "i \<notin> D"
    and g: "om_hash_get (env_hash E) (order_hashmap c') = (om_hash_get (env_hash E) (order_hashmap c))
        (ucast (order_id (slot_at (slab c) i)) := None)"
    and fr: "max_products c' = max_products c" "\<And>i. order_id (slot_at (slab c') i) = order_id (slot_at (slab c) i)"
  shows "book_map E c' (upd_levels B p b L) D"
proof -
  note M = book_mapD [OF m]
  let ?h = "om_hash_get (env_hash E) (order_hashmap c)"
  have hi: "?h (ucast (order_id (slot_at (slab c) i))) = Some \<lparr>slot_idx = i, product_id = p\<rparr>" by (rule M(1) [OF i])
  have other: "j = i" if "?h (ucast (order_id (slot_at (slab c) j))) = Some \<lparr>slot_idx = j, product_id = q\<rparr>"
    "ucast (order_id (slot_at (slab c) j)) = (ucast (order_id (slot_at (slab c) i)) :: u64)" for j q
    using that hi by simp
  have sub: "j \<in> set (concat (B q d)) \<and> j \<noteq> i" if "j \<in> set (concat (upd_levels B p b L q d))" for j q d
    by (rule levels_remove [OF L dj that])
  show ?thesis unfolding book_map_def fr g
  proof (intro conjI allI ballI impI)
    fix q d j assume "j \<in> set (concat (upd_levels B p b L q d))"
    then have "j \<in> set (concat (B q d))" "j \<noteq> i" using sub by blast+
    then show "(?h(ucast (order_id (slot_at (slab c) i)) := None)) (ucast (order_id (slot_at (slab c) j))) =
        Some \<lparr>slot_idx = j, product_id = q\<rparr>"
      using M(1) [of j q d] other by auto
  next
    fix j assume "j \<in> D"
    then have "j \<noteq> i" using iD by blast
    then show "\<exists>q. (?h(ucast (order_id (slot_at (slab c) i)) := None)) (ucast (order_id (slot_at (slab c) j))) =
        Some \<lparr>slot_idx = j, product_id = q\<rparr>"
      using M(2) [OF \<open>j \<in> D\<close>] other by auto
  next
    fix k e assume "(?h(ucast (order_id (slot_at (slab c) i)) := None)) k = Some e"
    then have a: "?h k = Some e" "k \<noteq> ucast (order_id (slot_at (slab c) i))" by (auto split: if_splits)
    show "k = ucast (order_id (slot_at (slab c) (slot_idx e)))" "ucast (product_id e) < max_products c"
      using M(3,4) [OF a(1)] by auto
    have ne: "slot_idx e \<noteq> i" using M(3) [OF a(1)] a(2) by auto
    from M(5) [OF a(1)] show "slot_idx e \<in> D \<or> (\<exists>d. slot_idx e \<in> set (concat (upd_levels B p b L (product_id e) d)))"
    proof
      assume "\<exists>d. slot_idx e \<in> set (concat (B (product_id e) d))"
      then obtain d where "slot_idx e \<in> set (concat (B (product_id e) d))" by blast
      then have "slot_idx e \<in> set (concat (upd_levels B p b L (product_id e) d))" using L ne by (auto simp del: set_concat)
      then show ?thesis by blast
    qed simp
  qed
qed

section \<open>Linking and unlinking in the whole book\<close>

text \<open>What linking and unlinking keep: the order fields of every slot, the map, the log, the limits.\<close>

definition same_orders :: "('h, 'w) OmOrderbookContext \<Rightarrow> ('h, 'w) OmOrderbookContext \<Rightarrow> bool" where
  "same_orders c c' \<longleftrightarrow> (\<forall>j. core (slot_at (slab c') j) = core (slot_at (slab c) j)) \<and>
     max_products c' = max_products c \<and> max_org c' = max_org c \<and>
     order_hashmap c' = order_hashmap c \<and> wal c' = wal c \<and>
     a_capacity (slab_a (slab c')) = a_capacity (slab_a (slab c)) \<and> next_order_id (slab c') = next_order_id (slab c)"

lemma same_ordersD:
  assumes "same_orders c c'"
  shows "price (slot_at (slab c') j) = price (slot_at (slab c) j)"
    "volume (slot_at (slab c') j) = volume (slot_at (slab c) j)"
    "volume_remain (slot_at (slab c') j) = volume_remain (slot_at (slab c) j)"
    "org (slot_at (slab c') j) = org (slot_at (slab c) j)" "flags (slot_at (slab c') j) = flags (slot_at (slab c) j)"
    "order_id (slot_at (slab c') j) = order_id (slot_at (slab c) j)" "oprice c' = oprice c"
    "max_products c' = max_products c" "max_org c' = max_org c" "order_hashmap c' = order_hashmap c" "wal c' = wal c"
    "a_capacity (slab_a (slab c')) = a_capacity (slab_a (slab c))"
  using assms core_eqD [of "slot_at (slab c') j" "slot_at (slab c) j" for j]
  by (auto simp: same_orders_def oprice_def fun_eq_iff)

lemma same_orders_trans: "same_orders c c' \<Longrightarrow> same_orders c' c'' \<Longrightarrow> same_orders c c''"
  by (simp add: same_orders_def)

lemma effect_same: "effect c c' pid b X \<Longrightarrow> same_orders c c'"
  using effect_slot [of c c' pid b X] by (simp add: same_orders_def effect_def)

lemma silent_same: "silent c c' \<Longrightarrow> same_orders c c'"
  using silent_slot [of c c'] by (simp add: same_orders_def silent_def)

lemma book_link_shape:
  assumes K: "kavl_ok E" and sh: "book_shape c B D F" and p: "ucast pid < max_products c"
    and i: "i \<notin> resting B" "i \<notin> set F" "i \<notin> D" "i < a_capacity (slab_a (slab c))"
  defines "b \<equiv> OM_IS_BID (flags (slot_at (slab c) i))"
  defines "L \<equiv> spec_insert (oprice c) b i (B pid b)"
  shows "book_shape (book_link E c pid i) (upd_levels B pid b L) D F \<and> same_orders c (book_link E c pid i)"
proof -
  note S = book_shapeD [OF sh]
  have inv: "side_inv c pid b (B pid b)" using S(2) p .
  have nn: "i \<noteq> OM_SLOT_IDX_NULL" using slab_invD(10) [OF S(1) i(4)] .
  have out: "i \<notin> set (concat (B p' b'))" for p' b' using i(1) restingI by blast
  have hb: "OM_IS_BID (flags (slot_at (slab c) i)) = b" by (simp add: b_def)
  have "\<exists>c1 X. book_link E c pid i = org_queue_insert c1 pid i \<and> side_inv c1 pid b L \<and> effect c c1 pid b X \<and>
      X \<subseteq> insert i (set (concat (B pid b)))"
  proof (cases rule: spec_insert_cases [OF side_invD(2) [OF inv], of i, case_names new found])
    case (new P Q)
    have miss: "\<forall>l \<in> set (B pid b). oprice c (hd l) \<noteq> oprice c i" using new by fastforce
    have fd: "find_price_level_with_insertion_point c pid (oprice c i) b = (None, if P = [] then None else Some (hd (last P)))"
      by (rule find_price_level_missing [OF inv miss new(1-3)])
    have "book_link E c pid i = org_queue_insert (new_level E c pid b i (if P = [] then None else Some (hd (last P)))) pid i"
      using fd by (simp add: book_link_def new_level_def oprice_def b_def Let_def)
    moreover have "i \<notin> set (concat (P @ Q))" using out [of pid b] new(1) by simp
    ultimately show ?thesis
      using side_new_level [OF K inv [unfolded new(1)] _ nn i(4) hb new(2,3) refl] new(1,4)
      unfolding L_def by (metis subset_refl)
  next
    case (found P l Q)
    have fd: "fst (find_price_level_with_insertion_point c pid (oprice c i) b) = Some (hd l)"
      using found by (intro find_price_level_found [OF inv]) auto
    have "book_link E c pid i = org_queue_insert (join_level c (hd l) i) pid i"
      using fd by (simp add: book_link_def join_level_def oprice_def b_def Let_def case_prod_beta)
    moreover have "i \<notin> set (concat (P @ l # Q))" using out [of pid b] found(1) by simp
    ultimately show ?thesis
      using side_join_level [OF inv [unfolded found(1)] _ nn i(4) hb found(4)] found(1,5)
      unfolding L_def by (metis subset_refl)
  qed
  then obtain c1 X where c1: "book_link E c pid i = org_queue_insert c1 pid i" "side_inv c1 pid b L"
    "effect c c1 pid b X" "X \<subseteq> insert i (set (concat (B pid b)))" by blast
  have "set (concat L) \<subseteq> insert i (set (concat (B pid b)))" unfolding L_def set_spec_insert by simp
  then have "book_shape c1 (upd_levels B pid b L) D F"
    using out i by (intro shape_side [OF sh p c1(3,2,4)]) auto
  then show ?thesis
    using silent_shape [OF org_ops_silent(3)] silent_same [OF org_ops_silent(3)] effect_same [OF c1(3)] c1(1)
      same_orders_trans by metis
qed

text \<open>Unlinking finds the level of a resting order and takes the order out of it.\<close>

lemma find_resting:
  assumes sh: "book_shape c B D F" and i: "i \<in> set (concat (B pid b))"
  obtains l where "l \<in> set (B pid b)" "i \<in> set l" "OM_IS_BID (flags (slot_at (slab c) i)) = b"
    "fst (find_price_level_with_insertion_point c pid (price (slot_at (slab c) i)) b) = Some (hd l)"
proof -
  note S = book_shapeD [OF sh]
  have inv: "side_inv c pid b (B pid b)" using S(2) [OF S(9) [OF i]] .
  from i obtain l where l: "l \<in> set (B pid b)" "i \<in> set l" by auto
  have "oprice c (hd l) = price (slot_at (slab c) i)"
    using pricedD(2) [OF side_invD(2) [OF inv] l] by (simp add: oprice_def)
  with that l side_invD(3) [OF inv i] find_price_level_found [OF inv l(1)] show thesis by blast
qed

lemma level_unlink_shape:
  assumes K: "kavl_ok E" and sh: "book_shape c B D F" and i: "i \<in> set (concat (B pid b))"
    and l: "l \<in> set (B pid b)" "i \<in> set l"
  shows "book_shape (level_unlink E c pid b (hd l) i) (upd_levels B pid b (spec_remove i (B pid b))) D F \<and>
    same_orders c (level_unlink E c pid b (hd l) i)"
proof -
  note S = book_shapeD [OF sh]
  have p: "ucast pid < max_products c" using S(9) [OF i] .
  note U = side_level_unlink [OF K S(2) [OF p] l]
  have "i \<notin> set (concat (B p' b'))" if "(p', b') \<noteq> (pid, b)" for p' b' using S(4) [OF that] i by blast
  moreover have "i \<notin> set F" "i \<notin> D" using S(5,7) restingI [of i B pid b] i by blast+
  ultimately have "book_shape (level_unlink E c pid b (hd l) i) (upd_levels B pid b (spec_remove i (B pid b))) D F"
    using U i by (intro shape_side [OF sh p, where i = i]) (auto simp: set_spec_remove simp del: set_concat)
  with U effect_same show ?thesis by blast
qed

end
