(* ===== verification/Book_Ops.thy ===== *)
theory Book_Ops
  imports Book_Inv
begin

text \<open>
  The operations of the order book against the list-of-levels specification: initialisation,
  insertion, cancellation, removal and unlinking, with the environment instance on which the
  witnesses evaluate them.
\<close>

section \<open>An environment\<close>

text \<open>A tree kept as a right spine, a map kept as a function, and an operating system that always succeeds.\<close>

fun spine :: "nat list \<Rightarrow> nat tree" where
  "spine [] = Leaf"
| "spine (x # xs) = Node Leaf x (spine xs)"

lemma inorder_spine [simp]: "inorder (spine xs) = xs"
  by (induction xs) auto

definition null_os :: "unit os_ops" where
  "null_os = \<lparr>os_clock = (\<lambda>w. (0, w)), os_realtime = (\<lambda>w. (0, w)), os_path = (\<lambda>p _. p), os_open_append = (\<lambda>_ w. (3, w)),
     os_open_read = (\<lambda>_ w. (-1, True, w)), os_fstat = (\<lambda>_ _. Some 0), os_read = (\<lambda>_ _ _ _. None),
     os_write = (\<lambda>_ bs w. (int (length bs), w)), os_fsync = (\<lambda>_ w. (True, w)), os_close = (\<lambda>_ w. w)\<rparr>"

definition demo_env :: "(u64 \<Rightarrow> OmOrderEntry option, u64, unit) env" where
  "demo_env = \<lparr>env_hash = fun_khash \<lparr>slot_idx = 0, product_id = 0\<rparr>,
     kavl_insert = (\<lambda>key t n. spine (takeWhile (\<lambda>x. key x < key n) (inorder t) @ n # dropWhile (\<lambda>x. key x < key n) (inorder t))),
     kavl_erase = (\<lambda>key t k. spine (filter (\<lambda>x. key x \<noteq> k) (inorder t))),
     env_os = null_os\<rparr>"

lemma demo_env_hash: "khash_ok (env_hash demo_env)"
  by (simp add: demo_env_def khash_ok_fun)

lemma demo_env_kavl: "kavl_ok demo_env"
proof -
  have ins: "takeWhile (\<lambda>x. key x < key n) (xs @ ys) = xs \<and> dropWhile (\<lambda>x. key x < key n) (xs @ ys) = ys"
    if "sorted_wrt (\<lambda>x y. key x < key y) (xs @ n # ys)" for key :: "nat \<Rightarrow> u64" and n xs ys
    using that by (cases ys) (auto simp: sorted_wrt_append takeWhile_eq_all_conv dropWhile_append)
  have era: "filter (\<lambda>x. key x \<noteq> key n) (xs @ n # ys) = xs @ ys"
    if "sorted_wrt (\<lambda>x y. key x < key y) (xs @ n # ys)" for key :: "nat \<Rightarrow> u64" and n xs ys
  proof -
    have "filter (\<lambda>x. key x \<noteq> key n) xs = xs" "filter (\<lambda>x. key x \<noteq> key n) ys = ys"
      using that by (auto simp: sorted_wrt_append filter_id_conv)
    then show ?thesis by simp
  qed
  show ?thesis unfolding kavl_ok_def using ins era by (simp add: demo_env_def)
qed

section \<open>Initialisation\<close>

lemma side_inv_empty:
  assumes "book_head c p b = OM_SLOT_IDX_NULL" and "price_roots c (price_root p b) = Leaf"
  shows "side_inv c p b []"
  using assms by (simp add: side_inv_def ladder_def priced_def)

lemma orderbook_init:
  assumes "khash_ok (env_hash E)" and "om_orderbook_init E A config w mp mo cap = Inr c"
  shows "book_inv E c (\<lambda>_ _. []) {} (rev [0..<unat (cfg_total_slots config)])"
proof -
  from assms(2) obtain s h where s: "om_slab_init config (alloc_slab_a A) (alloc_slab_block A) (alloc_slab_blocks A) = Inr s"
    and h: "om_hash_create (env_hash E) (alloc_map A)
      (unat (if cap \<noteq> 0 then cap else cfg_total_slots config)) = Some h"
    and c: "slab c = s" "order_hashmap c = h" "max_products c = mp"
      "products c = (\<lambda>p. if unat p < unat mp then \<lparr>bid_head_q1 = OM_SLOT_IDX_NULL, ask_head_q1 = OM_SLOT_IDX_NULL\<rparr>
         else \<lparr>bid_head_q1 = 0, ask_head_q1 = 0\<rparr>)" "price_roots c = (\<lambda>_. Leaf)"
    by (auto simp: om_orderbook_init_def Let_def split: if_splits sum.splits option.splits)
  have "alloc_slab_a A \<and> alloc_slab_block A \<and> alloc_slab_blocks A"
    using s by (auto simp: om_slab_init_def Let_def split: if_splits)
  then have "slab_inv s (rev [0..<unat (cfg_total_slots config)])" using s by (simp add: om_slab_init_inv)
  moreover have "side_inv c p b []" if "ucast p < max_products c" for p b
  proof -
    have "unat p < 2 ^ 32" using unsigned_less [of p, where 'a = nat] by simp
    then have "unat p < unat mp" using that c
      by (simp add: word_less_nat_alt unsigned_ucast_eq take_bit_nat_eq_self)
    then show ?thesis using c by (intro side_inv_empty) (simp_all add: book_head_def)
  qed
  ultimately have "book_shape c (\<lambda>_ _. []) {} (rev [0..<unat (cfg_total_slots config)])"
    by (simp add: book_shape_def c resting_def)
  moreover have "book_map E c (\<lambda>_ _. []) {}"
    using om_hash_create_get [OF assms(1) h] by (simp add: book_map_def c)
  ultimately show ?thesis by (simp add: book_inv_def)
qed

section \<open>Updates outside the links\<close>

text \<open>The levels only depend on the links, prices, organisations and sides of the orders in them.\<close>

definition same_place :: "OmSlabSlot \<Rightarrow> OmSlabSlot \<Rightarrow> bool" where
  "same_place x y \<longleftrightarrow> price x = price y \<and> org x = org y \<and> OM_IS_BID (flags x) = OM_IS_BID (flags y) \<and>
     queue_nodes x = queue_nodes y"

lemma side_slots:
  assumes inv: "side_inv c p b L" and s: "\<forall>j \<in> set (concat L). same_place (slot_at t j) (slot_at (slab c) j)"
    and cap: "a_capacity (slab_a t) = a_capacity (slab_a (slab c))"
  shows "side_inv (c\<lparr>slab := t\<rparr>) p b L"
proof -
  note D = side_invD [OF inv] and La = ladderD [OF side_invD(1) [OF inv]]
  have q: "qnext q t j = qnext q (slab c) j" "qprev q t j = qprev q (slab c) j" if "j \<in> set (concat L)" for q j
    using s that by (auto simp: qnext_def qprev_def same_place_def)
  have in_l: "j \<in> set (concat L)" if "l \<in> set L" "j \<in> set l" for l j using that by auto
  have "dll OM_SLOT_IDX_NULL (qnext OM_Q1_PRICE_LADDER t) (qprev OM_Q1_PRICE_LADDER t) (book_head c p b) (map hd L)
      = dll OM_SLOT_IDX_NULL (qnext OM_Q1_PRICE_LADDER (slab c)) (qprev OM_Q1_PRICE_LADDER (slab c)) (book_head c p b) (map hd L)"
    by (rule dll_cong) (use q La(7) in \<open>auto simp del: set_concat\<close>)
  moreover have "fifo OM_SLOT_IDX_NULL (qnext OM_Q2_TIME_FIFO t) (qprev OM_Q2_TIME_FIFO t) l
      = fifo OM_SLOT_IDX_NULL (qnext OM_Q2_TIME_FIFO (slab c)) (qprev OM_Q2_TIME_FIFO (slab c)) l" if "l \<in> set L" for l
    by (rule fifo_cong) (use q in_l [OF that] in blast)+
  ultimately have "ladder t (book_head c p b) L" using La(1-4) by (simp add: ladder_def cap del: set_concat)
  moreover have pr: "oprice (c\<lparr>slab := t\<rparr>) j = oprice c j" if "j \<in> set (concat L)" for j
    using s that by (simp add: oprice_def same_place_def del: set_concat)
  have "priced (oprice (c\<lparr>slab := t\<rparr>)) b L"
    unfolding priced_def
  proof (intro conjI ballI)
    fix l assume l: "l \<in> set L"
    show "l \<noteq> []" using La(6) [OF l] .
    show "oprice (c\<lparr>slab := t\<rparr>) (hd l) = oprice (c\<lparr>slab := t\<rparr>) i" if "i \<in> set l" for i
      using pr [OF La(7) [OF l]] pr [OF in_l [OF l that]] pricedD(2) [OF D(2) l that] by simp
  next
    show "sorted_wrt (\<lambda>l m. better b (oprice (c\<lparr>slab := t\<rparr>) (hd l)) (oprice (c\<lparr>slab := t\<rparr>) (hd m))) L"
      using pricedD(3) [OF D(2)] by (rule sorted_wrt_mono_rel [rotated]) (simp add: pr La(7) del: set_concat)
  qed
  moreover have "node_ok (c\<lparr>slab := t\<rparr>) l" if "l \<in> set L" for l
    using D(5) [OF that] pr [OF La(7) [OF that]] s in_l [OF that] by (auto simp: node_ok_def same_place_def simp del: set_concat)
  moreover have "book_head (c\<lparr>slab := t\<rparr>) p b = book_head c p b" by (simp add: book_head_def)
  ultimately show ?thesis using D(3,4) s by (simp add: side_inv_def same_place_def del: set_concat)
qed

lemma shape_slots:
  assumes sh: "book_shape c B D F" and s: "\<forall>j \<in> resting B. same_place (slot_at t j) (slot_at (slab c) j)"
    and t: "slab_inv t F'" "set F' \<subseteq> set F" "a_capacity (slab_a t) = a_capacity (slab_a (slab c))"
  shows "book_shape (c\<lparr>slab := t\<rparr>) B D F'"
proof -
  note S = book_shapeD [OF sh]
  have "side_inv (c\<lparr>slab := t\<rparr>) p b (B p b)" if "ucast p < max_products c" for p b
    using S(2) [OF that] s t(3) by (intro side_slots) (auto intro: restingI simp del: set_concat)
  moreover have "resting B \<inter> set F' = {}" "D \<inter> set F' = {}" using S(5,6) t(2) by blast+
  ultimately show ?thesis using S(3,4,7,8) t(1,3) unfolding book_shape_def by simp
qed

lemma slab_inv_upd:
  assumes "\<And>sl. queue_nodes (f sl) = queue_nodes sl"
  shows "slab_inv (upd_slot i f s) F = slab_inv s F"
proof -
  have "qnext q (upd_slot i f s) = qnext q s" for q using assms by (intro ext) (simp add: qnext_def)
  moreover have "aux_next (upd_slot i f s) = aux_next s" by (intro ext) (simp add: aux_next_def upd_slot_def)
  ultimately show ?thesis by (simp add: slab_inv_def upd_slot_def)
qed

lemma book_map_slots:
  assumes m: "book_map E c B D" and c': "order_hashmap c' = order_hashmap c" "max_products c' = max_products c"
    and o: "\<And>j. j \<in> D \<or> j \<in> resting B \<Longrightarrow> order_id (slot_at (slab c') j) = order_id (slot_at (slab c) j)"
  shows "book_map E c' B D"
  unfolding book_map_def c'
proof (intro conjI allI ballI impI)
  note M = book_mapD [OF m]
  fix p b i assume "i \<in> set (concat (B p b))"
  then show "om_hash_get (env_hash E) (order_hashmap c) (ucast (order_id (slot_at (slab c') i))) =
      Some \<lparr>slot_idx = i, product_id = p\<rparr>" using M(1) o restingI by metis
next
  note M = book_mapD [OF m]
  fix i assume "i \<in> D"
  then show "\<exists>p. om_hash_get (env_hash E) (order_hashmap c) (ucast (order_id (slot_at (slab c') i))) =
      Some \<lparr>slot_idx = i, product_id = p\<rparr>" using M(2) o by metis
next
  note M = book_mapD [OF m]
  fix k e assume a: "om_hash_get (env_hash E) (order_hashmap c) k = Some e"
  show "slot_idx e \<in> D \<or> (\<exists>b. slot_idx e \<in> set (concat (B (product_id e) b)))"
    and "ucast (product_id e) < max_products c" using M(4,5) a by blast+
  then have "order_id (slot_at (slab c') (slot_idx e)) = order_id (slot_at (slab c) (slot_idx e))"
    using o restingI by metis
  then show "k = ucast (order_id (slot_at (slab c') (slot_idx e)))" using M(3) [OF a] by simp
qed

text \<open>Taking a slot from the free list and filling in its fields, as a caller does before an insertion.\<close>

lemma book_inv_alloc:
  assumes inv: "book_inv E c B D (i # F)"
    and f: "\<And>sl. queue_nodes (f sl) = queue_nodes sl"
  shows "book_inv E (upd_slab (\<lambda>s. upd_slot i f (snd (om_slab_alloc s))) c) B D F"
proof -
  let ?t = "upd_slot i f (snd (om_slab_alloc (slab c)))"
  have sh: "book_shape c B D (i # F)" and m: "book_map E c B D" using inv by (auto simp: book_inv_def)
  note S = book_shapeD [OF sh]
  have I: "slab_inv (snd (om_slab_alloc (slab c))) F" using om_slab_alloc_inv [OF S(1)] .
  have other: "slot_at ?t j = slot_at (slab c) j" if "j \<noteq> i" for j
    using that om_slab_alloc_other [OF S(1) that] by simp
  have cap: "a_capacity (slab_a ?t) = a_capacity (slab_a (slab c))" by (simp add: om_slab_alloc_Cons [OF S(1)])
  have "slab_inv ?t F" using I by (simp add: slab_inv_upd [of f, OF f])
  then have "book_shape (c\<lparr>slab := ?t\<rparr>) B D F" using S(5) other cap
    by (intro shape_slots [OF sh]) (auto simp: same_place_def)
  moreover have "order_id (slot_at ?t j) = order_id (slot_at (slab c) j)" if "j \<in> D \<or> j \<in> resting B" for j
    using that S(5,6) other by auto
  then have "book_map E (c\<lparr>slab := ?t\<rparr>) B D" using m by (rule_tac book_map_slots) simp_all
  ultimately show ?thesis by (simp add: book_inv_def upd_slab_def)
qed

section \<open>Insertion\<close>

lemma book_link_inv:
  assumes K: "khash_ok (env_hash E)" "kavl_ok E" and inv: "book_inv E c B D F"
    and p: "ucast pid < max_products c"
    and i: "i \<notin> resting B" "i \<notin> set F" "i \<notin> D" "i < a_capacity (slab_a (slab c))"
    and new: "om_hash_get (env_hash E) (order_hashmap c) (ucast (order_id (slot_at (slab c) i))) = None"
    and h: "om_hash_get (env_hash E) (order_hashmap c1) = (om_hash_get (env_hash E) (order_hashmap c))
        (ucast (order_id (slot_at (slab c) i)) \<mapsto> \<lparr>slot_idx = i, product_id = pid\<rparr>)"
    and c1: "book_shape c1 B D F" "slab c1 = slab c" "max_products c1 = max_products c"
  defines "b \<equiv> OM_IS_BID (flags (slot_at (slab c) i))"
  shows "book_inv E (book_link E c1 pid i) (upd_levels B pid b (spec_insert (oprice c) b i (B pid b))) D F \<and>
    same_orders c1 (book_link E c1 pid i)"
proof -
  have pr: "oprice c1 = oprice c" by (simp add: oprice_def fun_eq_iff c1)
  from book_link_shape [OF K(2) c1(1), of pid i] p i
  have S: "book_shape (book_link E c1 pid i) (upd_levels B pid b (spec_insert (oprice c) b i (B pid b))) D F"
    and s: "same_orders c1 (book_link E c1 pid i)" by (auto simp: c1 pr b_def)
  have "book_map E (book_link E c1 pid i) (upd_levels B pid b (spec_insert (oprice c) b i (B pid b))) D"
    using inv by (intro book_map_add) (auto simp: book_inv_def same_ordersD [OF s] c1 h new p set_spec_insert simp del: set_concat)
  with S s show ?thesis by (simp add: book_inv_def)
qed

text \<open>The outcomes of an insertion: rejected with the map as before, or linked.\<close>

lemma om_orderbook_insert_cases:
  assumes K: "khash_ok (env_hash E)" and r: "om_orderbook_insert E c pid i = (rc, c')"
  defines "k \<equiv> ucast (order_id (slot_at (slab c) i)) :: u64"
  obtains (rejected) h w where "rc \<in> {OM_ERR_RECOVERY_FAILED, OM_ERR_WAL_WRITE}" "c' = c\<lparr>order_hashmap := h, wal := w\<rparr>"
      "om_hash_get (env_hash E) h = om_hash_get (env_hash E) (order_hashmap c)" "w = None \<longleftrightarrow> wal c = None"
    | (linked) h w where "rc = OM_OK" "c' = book_link E (c\<lparr>order_hashmap := h, wal := w\<rparr>) pid i"
      "om_hash_get (env_hash E) h = (om_hash_get (env_hash E) (order_hashmap c))(k \<mapsto> \<lparr>slot_idx = i, product_id = pid\<rparr>)"
      "om_hash_get (env_hash E) (order_hashmap c) k = None" "org_in_range c pid (org (slot_at (slab c) i))"
      "w = None \<longleftrightarrow> wal c = None"
proof (cases "org_in_range c pid (org (slot_at (slab c) i)) \<and> order_id (slot_at (slab c) i) \<noteq> 0 \<and>
    om_hash_get (env_hash E) (order_hashmap c) k = None")
  case False
  then have "rc = OM_ERR_RECOVERY_FAILED" "c' = c\<lparr>order_hashmap := order_hashmap c, wal := wal c\<rparr>"
    using r by (auto simp: om_orderbook_insert_def Let_def k_def split: if_splits)
  then show thesis by (intro rejected [of "wal c" "order_hashmap c"]) auto
next
  case G: True
  obtain ok h where h: "om_hash_insert (env_hash E) (order_hashmap c) k \<lparr>slot_idx = i, product_id = pid\<rparr> = (ok, h)"
    by fastforce
  note D = om_orderbook_insert_def [of E c pid i, unfolded Let_def, folded k_def, unfolded h prod.case]
  show thesis
  proof (cases ok)
    case False
    then have "h = order_hashmap c" using om_hash_insert_fail h by metis
    then show thesis using G False r D by (intro rejected [of "wal c" h]) auto
  next
    case True
    then have g: "om_hash_get (env_hash E) h = (om_hash_get (env_hash E) (order_hashmap c))(k \<mapsto> \<lparr>slot_idx = i, product_id = pid\<rparr>)"
      using om_hash_insert_get [OF K] h by simp
    have rm: "om_hash_get (env_hash E) (snd (om_hash_remove (env_hash E) h k)) = om_hash_get (env_hash E) (order_hashmap c)"
      using G by (auto simp: om_hash_remove_get [OF K] g)
    show thesis
    proof (cases "wal c")
      case None
      then have "rc = OM_OK" "c' = book_link E (c\<lparr>order_hashmap := h\<rparr>) pid i" using G True r D by auto
      then show thesis using G g by (intro linked [of "wal c" h]) simp_all
    next
      case (Some w)
      obtain seq w' where w: "om_wal_insert (env_os E) w (slab c) i pid = (seq, w')" by fastforce
      show thesis
      proof (cases "seq = 0")
        case seq: True
        show thesis using G True Some w seq r D rm
          by (intro rejected [of "Some w'" "snd (om_hash_remove (env_hash E) h k)"]) auto
      next
        case False
        then show thesis using G True Some w r D g by (intro linked [of "Some w'" h]) auto
      qed
    qed
  qed
qed

lemma orderbook_insert:
  assumes K: "khash_ok (env_hash E)" "kavl_ok E" and inv: "book_inv E c B D F"
    and i: "i \<notin> resting B" "i \<notin> set F" "i \<notin> D" "i < a_capacity (slab_a (slab c))"
    and r: "om_orderbook_insert E c pid i = (rc, c')" and b: "b = OM_IS_BID (flags (slot_at (slab c) i))"
  shows "if rc = OM_OK
    then book_inv E c' (upd_levels B pid b (spec_insert (oprice c) b i (B pid b))) D F \<and>
      (\<forall>j. core (slot_at (slab c') j) = core (slot_at (slab c) j)) \<and> ucast pid < max_products c \<and>
      same_orders c (c'\<lparr>order_hashmap := order_hashmap c, wal := wal c\<rparr>) \<and> (wal c' = None \<longleftrightarrow> wal c = None)
    else rc \<in> {OM_ERR_RECOVERY_FAILED, OM_ERR_WAL_WRITE} \<and> book_inv E c' B D F \<and> slab c' = slab c \<and>
      max_products c' = max_products c \<and> (wal c' = None \<longleftrightarrow> wal c = None)"
  using K(1) r
proof (cases rule: om_orderbook_insert_cases)
  case (rejected h w)
  have "book_map E c' B D" using inv by (simp add: book_inv_def book_map_def rejected)
  then show ?thesis using inv rejected by (auto simp: book_inv_def)
next
  case (linked h w)
  have p: "ucast pid < max_products c" using linked(5) by (simp add: org_in_range_def)
  from book_link_inv [OF K inv p i linked(4), of "c\<lparr>order_hashmap := h, wal := w\<rparr>"] linked(3) inv
  show ?thesis using p linked(6) by (simp add: linked(1,2) b book_inv_def same_orders_def)
qed

section \<open>Removal\<close>

lemma spec_remove_facts:
  assumes sh: "book_shape c B D F" and i: "i \<in> set (concat (B pid b))"
  shows "i < a_capacity (slab_a (slab c))" "i \<notin> set F" "i \<notin> D"
    "\<forall>p' b'. (p', b') \<noteq> (pid, b) \<longrightarrow> i \<notin> set (concat (B p' b'))"
    "i \<notin> resting (upd_levels B pid b (spec_remove i (B pid b)))"
proof -
  note S = book_shapeD [OF sh]
  have r: "i \<in> resting B" using i by (rule restingI)
  show "i < a_capacity (slab_a (slab c))" using S(10) r .
  show "i \<notin> set F" "i \<notin> D" using r S(5,7) by blast+
  show dj: "\<forall>p' b'. (p', b') \<noteq> (pid, b) \<longrightarrow> i \<notin> set (concat (B p' b'))" using S(4) i by (metis IntI empty_iff)
  show "i \<notin> resting (upd_levels B pid b (spec_remove i (B pid b)))"
    using resting_remove [OF set_spec_remove dj] by simp
qed

lemma release_inv:
  assumes K: "khash_ok (env_hash E)" and inv: "book_inv E c B D F" and i: "i \<in> set (concat (B pid b))"
    and sh: "book_shape c1 (upd_levels B pid b (spec_remove i (B pid b))) D F" and s: "same_orders c c1"
  shows "book_inv E (release_order E c1 (order_id (slot_at (slab c) i)) i)
      (upd_levels B pid b (spec_remove i (B pid b))) D (i # F)"
proof -
  have sh0: "book_shape c B D F" and m: "book_map E c B D" using inv by (auto simp: book_inv_def)
  note R = spec_remove_facts [OF sh0 i]
  have nn: "i \<noteq> OM_SLOT_IDX_NULL" using slab_invD(10) [OF book_shapeD(1) [OF sh0] R(1)] .
  let ?c2 = "c1\<lparr>order_hashmap := snd (om_hash_remove (env_hash E) (order_hashmap c1) (ucast (order_id (slot_at (slab c) i))))\<rparr>"
  let ?B = "upd_levels B pid b (spec_remove i (B pid b))"
  have "book_shape (upd_slab (\<lambda>s. om_slab_free s i) ?c2) ?B D (i # F)"
    using sh R by (intro shape_free) (simp_all add: same_ordersD [OF s])
  moreover have m2: "book_map E ?c2 ?B D"
    by (rule book_map_drop [OF m i set_spec_remove R(4,3)]) (simp_all add: same_ordersD [OF s] om_hash_remove_get [OF K])
  moreover have "book_map E (upd_slab (\<lambda>s. om_slab_free s i) ?c2) ?B D = book_map E ?c2 ?B D"
    by (rule book_map_cong) (simp_all add: core_eqD(6) [OF om_slab_free_links(5) [OF nn]])
  ultimately show ?thesis by (simp add: book_inv_def release_order_def)
qed

text \<open>The links part shared by the three removals, with or without the organisation head update.\<close>

lemma unlinked_shape:
  assumes K: "kavl_ok E" and sh: "book_shape c B D F" and i: "i \<in> set (concat (B pid b))"
    and l: "l \<in> set (B pid b)" "i \<in> set l"
  shows "book_shape (org_unlink (level_unlink E c pid b (hd l) i) i) (upd_levels B pid b (spec_remove i (B pid b))) D F \<and>
      same_orders c (org_unlink (level_unlink E c pid b (hd l) i) i)"
    "book_shape (org_unlink (org_head_skip (level_unlink E c pid b (hd l) i) pid i) i)
        (upd_levels B pid b (spec_remove i (B pid b))) D F \<and>
      same_orders c (org_unlink (org_head_skip (level_unlink E c pid b (hd l) i) pid i) i)"
  using level_unlink_shape [OF K sh i l] silent_shape silent_same same_orders_trans org_ops_silent silent_trans
  by metis+

lemma orderbook_cancel:
  assumes K: "khash_ok (env_hash E)" "kavl_ok E" and inv: "book_inv E c B D F"
    and i: "i \<in> set (concat (B pid b))" "oid = order_id (slot_at (slab c) i)"
    and r: "om_orderbook_cancel E c oid = (ok, c')"
  shows "(wal c' = None \<longleftrightarrow> wal c = None) \<and> max_products c' = max_products c \<and>
    (if ok then book_inv E c' (upd_levels B pid b (spec_remove i (B pid b))) D (i # F) \<and>
      om_orderbook_get_slot_by_id E c' oid = None
    else wal c \<noteq> None \<and> book_inv E c' B D F \<and> slab c' = slab c)"
proof -
  have sh: "book_shape c B D F" and m: "book_map E c B D" using inv by (auto simp: book_inv_def)
  have e: "om_hash_get (env_hash E) (order_hashmap c) (ucast oid) = Some \<lparr>slot_idx = i, product_id = pid\<rparr>"
    using book_mapD(1) [OF m i(1)] i(2) by simp
  define q where "q = (case wal c of None \<Rightarrow> (True, c)
    | Some w \<Rightarrow> (case om_wal_cancel (env_os E) w oid i pid of (seq, w') \<Rightarrow> (seq \<noteq> 0, c\<lparr>wal := Some w'\<rparr>)))"
  have "\<exists>w. snd q = c\<lparr>wal := w\<rparr> \<and> (w = None \<longleftrightarrow> wal c = None)"
  proof (cases "wal c")
    case None
    then have "snd q = c\<lparr>wal := wal c\<rparr>" by (simp add: q_def)
    then show ?thesis by (intro exI [of _ "wal c"]) simp
  qed (auto simp: q_def split: prod.splits)
  then obtain w where q: "snd q = c\<lparr>wal := w\<rparr>" and w: "w = None \<longleftrightarrow> wal c = None"
    by (elim exE conjE) (rule that)
  show ?thesis
  proof (cases "fst q")
    case False
    have "ok = False" "c' = c\<lparr>wal := w\<rparr>" using r False q
      by (simp_all add: om_orderbook_cancel_def e Let_def flip: q_def split: prod.splits)
    moreover have "wal c \<noteq> None" using False by (cases "wal c") (auto simp: q_def)
    ultimately show ?thesis using inv w by (simp add: book_inv_def book_map_def)
  next
    case True
    let ?c1 = "c\<lparr>wal := w\<rparr>"
    have sh1: "book_shape ?c1 B D F" and inv1: "book_inv E ?c1 B D F" using inv by (simp_all add: book_inv_def book_map_def)
    obtain l where l: "l \<in> set (B pid b)" "i \<in> set l" "OM_IS_BID (flags (slot_at (slab ?c1) i)) = b"
      "fst (find_price_level_with_insertion_point ?c1 pid (price (slot_at (slab ?c1) i)) b) = Some (hd l)"
      using find_resting [OF sh1 i(1)] .
    define c2 where "c2 = org_unlink (org_head_skip (level_unlink E ?c1 pid b (hd l) i) pid i) i"
    have c': "ok" "c' = release_order E c2 oid i" unfolding c2_def
      using r True q l by (simp_all add: om_orderbook_cancel_def e Let_def flip: q_def split: prod.splits)
    note U = unlinked_shape(2) [OF K(2) sh1 i(1) l(1,2), folded c2_def]
    have R: "book_inv E c' (upd_levels B pid b (spec_remove i (B pid b))) D (i # F)"
      using release_inv [OF K(1) inv1 i(1) U [THEN conjunct1] U [THEN conjunct2]] i(2) c'(2) by simp
    have "wal c' = w" "max_products c' = max_products c" using U by (simp_all add: c'(2) release_order_def same_orders_def)
    moreover have "om_orderbook_get_slot_by_id E c' oid = None"
      by (simp add: c'(2) om_orderbook_get_slot_by_id_def release_order_def om_hash_remove_get [OF K(1)])
    ultimately show ?thesis using R w c'(1) by simp
  qed
qed

lemma orderbook_remove_slot:
  assumes K: "khash_ok (env_hash E)" "kavl_ok E" and inv: "book_inv E c B D F" and i: "i \<in> set (concat (B pid b))"
  shows "\<exists>c'. om_orderbook_remove_slot E c pid i = (True, c') \<and>
    book_inv E c' (upd_levels B pid b (spec_remove i (B pid b))) D (i # F) \<and> wal c' = wal c \<and>
    (\<forall>j. core (slot_at (slab c') j) = core (slot_at (slab c) j)) \<and> max_products c' = max_products c \<and>
    a_capacity (slab_a (slab c')) = a_capacity (slab_a (slab c))"
proof -
  have sh: "book_shape c B D F" using inv by (auto simp: book_inv_def)
  obtain l where l: "l \<in> set (B pid b)" "i \<in> set l" "OM_IS_BID (flags (slot_at (slab c) i)) = b"
    "fst (find_price_level_with_insertion_point c pid (price (slot_at (slab c) i)) b) = Some (hd l)"
    using find_resting [OF sh i] .
  let ?c1 = "org_unlink (level_unlink E c pid b (hd l) i) i"
  note U = unlinked_shape(1) [OF K(2) sh i l(1,2)]
  have oid: "order_id (slot_at (slab ?c1) i) = order_id (slot_at (slab c) i)" using U same_ordersD(6) by blast
  have nn: "i \<noteq> OM_SLOT_IDX_NULL"
    using slab_invD(10) [OF book_shapeD(1) [OF sh] spec_remove_facts(1) [OF sh i]] .
  have "om_orderbook_remove_slot E c pid i = (True, release_order E ?c1 (order_id (slot_at (slab c) i)) i)"
    using l oid by (simp add: om_orderbook_remove_slot_def Let_def)
  with release_inv [OF K(1) inv i U [THEN conjunct1] U [THEN conjunct2]] U show ?thesis
    by (simp add: release_order_def same_orders_def om_slab_free_links(5) [OF nn])
qed

text \<open>An unlinked order keeps its slot and its map entry.\<close>

lemma book_map_park:
  assumes m: "book_map E c B D" and i: "i \<in> set (concat (B p b))" and L: "set (concat L) = set (concat (B p b)) - {i}"
    and dj: "\<forall>p' b'. (p', b') \<noteq> (p, b) \<longrightarrow> i \<notin> set (concat (B p' b'))" and s: "same_orders c c'"
  shows "book_map E c' (upd_levels B p b L) (insert i D)"
proof -
  note M = book_mapD [OF m]
  have sub: "j \<in> set (concat (B q d)) \<and> j \<noteq> i" if "j \<in> set (concat (upd_levels B p b L q d))" for j q d
    by (rule levels_remove [OF L dj that])
  have sup: "j = i \<or> j \<in> set (concat (upd_levels B p b L q d))" if "j \<in> set (concat (B q d))" for j q d
    using that L by (cases "(q, d) = (p, b)") auto
  show ?thesis unfolding book_map_def same_ordersD [OF s]
  proof (intro conjI allI ballI impI)
    fix q d j assume "j \<in> set (concat (upd_levels B p b L q d))"
    then show "om_hash_get (env_hash E) (order_hashmap c) (ucast (order_id (slot_at (slab c) j))) =
        Some \<lparr>slot_idx = j, product_id = q\<rparr>" using M(1) sub by blast
  next
    fix j assume "j \<in> insert i D"
    then show "\<exists>q. om_hash_get (env_hash E) (order_hashmap c) (ucast (order_id (slot_at (slab c) j))) =
        Some \<lparr>slot_idx = j, product_id = q\<rparr>" using M(1) [OF i] M(2) by blast
  next
    fix k e assume a: "om_hash_get (env_hash E) (order_hashmap c) k = Some e"
    show "k = ucast (order_id (slot_at (slab c) (slot_idx e)))" "ucast (product_id e) < max_products c"
      using M(3,4) a by blast+
    show "slot_idx e \<in> insert i D \<or> (\<exists>d. slot_idx e \<in> set (concat (upd_levels B p b L (product_id e) d)))"
      using M(5) [OF a] sup by blast
  qed
qed

lemma orderbook_unlink_slot:
  assumes K: "kavl_ok E" and inv: "book_inv E c B D F" and i: "i \<in> set (concat (B pid b))"
  shows "\<exists>c'. om_orderbook_unlink_slot E c pid i = (True, c') \<and>
    book_inv E c' (upd_levels B pid b (spec_remove i (B pid b))) (insert i D) F \<and> same_orders c c'"
proof -
  have sh: "book_shape c B D F" and m: "book_map E c B D" using inv by (auto simp: book_inv_def)
  obtain l where l: "l \<in> set (B pid b)" "i \<in> set l" "OM_IS_BID (flags (slot_at (slab c) i)) = b"
    "fst (find_price_level_with_insertion_point c pid (price (slot_at (slab c) i)) b) = Some (hd l)"
    using find_resting [OF sh i] .
  note U = unlinked_shape(2) [OF K sh i l(1,2)] and R = spec_remove_facts [OF sh i]
  have "book_shape (org_unlink (org_head_skip (level_unlink E c pid b (hd l) i) pid i) i)
      (upd_levels B pid b (spec_remove i (B pid b))) (insert i D) F"
    using U [THEN conjunct1] R(2,5) R(1) same_ordersD(12) [OF U [THEN conjunct2]] unfolding book_shape_def by auto
  with book_map_park [OF m i set_spec_remove R(4) U [THEN conjunct2]] U l show ?thesis
    by (simp add: om_orderbook_unlink_slot_def Let_def book_inv_def)
qed

section \<open>Example books\<close>

definition all_allocs :: ob_allocs where
  "all_allocs = \<lparr>alloc_products = True, alloc_org_heads = True, alloc_slab_a = True, alloc_slab_block = True,
     alloc_slab_blocks = True, alloc_map = True, alloc_nodes = True, alloc_roots = True\<rparr>"

lemma demo_init:
  obtains c where "om_orderbook_init demo_env all_allocs slab_example None 2 8 0 = Inr c"
    "max_products c = 2" "max_org c = 8" "wal c = None" "next_order_id (slab c) = 1"
    "order_hashmap c = (\<lambda>_. None)" "3 < a_capacity (slab_a (slab c))"
proof -
  obtain s where s: "om_slab_init slab_example True True True = Inr s" and n: "next_order_id s = 1"
    by (simp add: om_slab_init_def slab_example_def Let_def)
  have "unat (cfg_total_slots slab_example) = 4" by (simp add: slab_example_def)
  then have "slab_inv s (rev [0..<4])" using om_slab_init_inv [OF s] by simp
  from slab_invD(3) [OF this, of 3] have "3 < a_capacity (slab_a s)" by simp
  then show thesis using that s n
    by (simp add: om_orderbook_init_def all_allocs_def om_hash_create_def demo_env_def fun_khash_def slab_example_def)
qed

text \<open>An empty book of two products with an order in slot 3 ready to be inserted.\<close>

definition fill_slot :: "u64 \<Rightarrow> u64 \<Rightarrow> u16 \<Rightarrow> u16 \<Rightarrow> u32 \<Rightarrow> OmSlabSlot \<Rightarrow> OmSlabSlot" where
  "fill_slot pr vol og fl oid sl = sl\<lparr>price := pr, volume := vol, volume_remain := vol, org := og, flags := fl, order_id := oid\<rparr>"

lemma fill_slot_simps [simp]:
  "queue_nodes (fill_slot pr vol og fl oid sl) = queue_nodes sl" "price (fill_slot pr vol og fl oid sl) = pr"
  "volume_remain (fill_slot pr vol og fl oid sl) = vol" "org (fill_slot pr vol og fl oid sl) = og"
  "flags (fill_slot pr vol og fl oid sl) = fl" "order_id (fill_slot pr vol og fl oid sl) = oid"
  "volume (fill_slot pr vol og fl oid sl) = vol"
  by (simp_all add: fill_slot_def)

lemma demo_ready:
  obtains c where "book_inv demo_env c (\<lambda>_ _. []) {} [2, 1, 0]" "max_products c = 2" "max_org c = 8" "wal c = None"
    "order_hashmap c = (\<lambda>_. None)" "3 < a_capacity (slab_a (slab c))"
    "price (slot_at (slab c) 3) = 100" "volume_remain (slot_at (slab c) 3) = 10" "org (slot_at (slab c) 3) = 5"
    "flags (slot_at (slab c) 3) = OM_SIDE_BID" "order_id (slot_at (slab c) 3) = 1"
proof -
  obtain c where c: "om_orderbook_init demo_env all_allocs slab_example None 2 8 0 = Inr c"
    "max_products c = 2" "max_org c = 8" "wal c = None" "next_order_id (slab c) = 1"
    "order_hashmap c = (\<lambda>_. None)" "3 < a_capacity (slab_a (slab c))" using demo_init .
  from orderbook_init [OF demo_env_hash c(1)] have "book_inv demo_env c (\<lambda>_ _. []) {} (rev [0..<4])"
    by (simp add: slab_example_def)
  then have inv: "book_inv demo_env c (\<lambda>_ _. []) {} (3 # [2, 1, 0])" by (simp add: upt_rec eval_nat_numeral)
  have sl: "slab_inv (slab c) (3 # [2, 1, 0])" using inv by (simp add: book_inv_def book_shape_def)
  from book_inv_alloc [OF inv, of "fill_slot 100 10 5 OM_SIDE_BID 1"] c(2-7) show thesis
    by (intro that [of "upd_slab (\<lambda>s. upd_slot 3 (fill_slot 100 10 5 OM_SIDE_BID 1) (snd (om_slab_alloc s))) c"])
      (simp_all add: om_slab_alloc_Cons [OF sl])
qed

lemma demo_insert:
  obtains c c' where "book_inv demo_env c (\<lambda>_ _. []) {} [2, 1, 0]" "3 < a_capacity (slab_a (slab c))"
    "om_orderbook_insert demo_env c 0 3 = (OM_OK, c')" "OM_IS_BID (flags (slot_at (slab c) 3))" "oprice c 3 = 100"
    "order_id (slot_at (slab c) 3) = 1"  "volume_remain (slot_at (slab c) 3) = 10" "org (slot_at (slab c) 3) = 5"
    "wal c = None" "max_products c = 2"
proof -
  obtain c where c: "book_inv demo_env c (\<lambda>_ _. []) {} [2, 1, 0]" "max_products c = 2" "max_org c = 8" "wal c = None"
    "order_hashmap c = (\<lambda>_. None)" "3 < a_capacity (slab_a (slab c))"
    "price (slot_at (slab c) 3) = 100" "volume_remain (slot_at (slab c) 3) = 10" "org (slot_at (slab c) 3) = 5"
    "flags (slot_at (slab c) 3) = OM_SIDE_BID" "order_id (slot_at (slab c) 3) = 1" using demo_ready .
  have "fst (om_orderbook_insert demo_env c 0 3) = OM_OK"
    by (simp add: om_orderbook_insert_def Let_def c org_in_range_def om_hash_get_def om_hash_insert_def demo_env_def fun_khash_def)
  then obtain c' where "om_orderbook_insert demo_env c 0 3 = (OM_OK, c')" by (metis prod.collapse)
  with c show thesis by (intro that [of c c']) (simp_all add: oprice_def OM_IS_BID_def OM_SIDE_BID_def OM_SIDE_MASK_def)
qed

text \<open>A book with one resting bid, price 100, organisation 5, in slot 3.\<close>

lemma demo_resting:
  obtains c where "book_inv demo_env c (upd_levels (\<lambda>_ _. []) 0 True [[3]]) {} [2, 1, 0]"
    "order_id (slot_at (slab c) 3) = 1" "volume_remain (slot_at (slab c) 3) = 10" "org (slot_at (slab c) 3) = 5"
    "wal c = None" "oprice c 3 = 100" "max_products c = 2"
proof -
  obtain c c' where c: "book_inv demo_env c (\<lambda>_ _. []) {} [2, 1, 0]" "3 < a_capacity (slab_a (slab c))"
    "om_orderbook_insert demo_env c 0 3 = (OM_OK, c')" "OM_IS_BID (flags (slot_at (slab c) 3))" "oprice c 3 = 100"
    "order_id (slot_at (slab c) 3) = 1"  "volume_remain (slot_at (slab c) 3) = 10" "org (slot_at (slab c) 3) = 5"
    "wal c = None" "max_products c = 2" using demo_insert .
  note I = orderbook_insert [OF demo_env_hash demo_env_kavl c(1) _ _ _ c(2,3) refl, unfolded resting_def, simplified]
  have "core (slot_at (slab c') 3) = core (slot_at (slab c) 3)" using I by blast
  note C = core_eqD [OF this]
  have "max_products c' = 2" using I c(10) by (simp add: same_orders_def)
  with I c C show thesis by (intro that [of c']) (simp_all add: oprice_def)
qed

section \<open>The claims\<close>

text \<open>
  C19: a successfully initialised order book is empty: no side of any product has a level, no
  order is known, all slots are free, and the book invariant holds.
\<close>

theorem om_orderbook_init_empty:
  assumes "khash_ok (env_hash E)" and "om_orderbook_init E A config w mp mo cap = Inr c"
  shows "book_inv E c (\<lambda>_ _. []) {} (rev [0..<unat (cfg_total_slots config)])"
  using assms by (rule orderbook_init)

theorem om_orderbook_init_empty_witness:
  "\<exists>c. om_orderbook_init demo_env all_allocs slab_example None 2 8 0 = Inr c \<and>
     book_inv demo_env c (\<lambda>_ _. []) {} [3, 2, 1, 0]"
proof -
  obtain c where c: "om_orderbook_init demo_env all_allocs slab_example None 2 8 0 = Inr c" using demo_init by metis
  have "unat (cfg_total_slots slab_example) = 4" by (simp add: slab_example_def)
  then have "rev [0..<unat (cfg_total_slots slab_example)] = [3, 2, 1, 0]" by (simp add: upt_rec)
  with om_orderbook_init_empty [OF demo_env_hash c] c show ?thesis by simp
qed

text \<open>
  C4: inserting an order refines the specification: on success the order joins the back of
  the level of its price, or becomes a new level in price order, on its own side of its
  product and nowhere else; on any error (wrong organisation or product, id 0, known id,
  full map, log failure) the book holds the same orders and the slab is untouched.
\<close>

theorem om_orderbook_insert_refines:
  assumes "khash_ok (env_hash E)" and "kavl_ok E" and "book_inv E c B D F"
    and "i \<notin> resting B" and "i \<notin> set F" and "i \<notin> D" and "i < a_capacity (slab_a (slab c))"
    and "om_orderbook_insert E c pid i = (rc, c')" and "b = OM_IS_BID (flags (slot_at (slab c) i))"
  shows "if rc = OM_OK
    then book_inv E c' (upd_levels B pid b (spec_insert (oprice c) b i (B pid b))) D F \<and>
      (\<forall>j. core (slot_at (slab c') j) = core (slot_at (slab c) j)) \<and> ucast pid < max_products c
    else rc \<in> {OM_ERR_RECOVERY_FAILED, OM_ERR_WAL_WRITE} \<and> book_inv E c' B D F \<and> slab c' = slab c"
  using orderbook_insert [OF assms] by (simp split: if_splits)

theorem om_orderbook_insert_refines_witness:
  "\<exists>c c'. om_orderbook_insert demo_env c 0 3 = (OM_OK, c') \<and>
     book_inv demo_env c' (upd_levels (\<lambda>_ _. []) 0 True [[3]]) {} [2, 1, 0]"
proof -
  obtain c c' where c: "book_inv demo_env c (\<lambda>_ _. []) {} [2, 1, 0]" "3 < a_capacity (slab_a (slab c))"
    "om_orderbook_insert demo_env c 0 3 = (OM_OK, c')" "OM_IS_BID (flags (slot_at (slab c) 3))" using demo_insert by metis
  from om_orderbook_insert_refines [OF demo_env_hash demo_env_kavl c(1) _ _ _ c(2,3) refl] c(3,4) show ?thesis
    by (auto simp: resting_def)
qed



text \<open>
  C6: removing a resting order by its slot always succeeds, and removes exactly that order,
  its id and its slot.
\<close>

theorem om_orderbook_remove_slot_refines:
  assumes "khash_ok (env_hash E)" and "kavl_ok E" and "book_inv E c B D F" and "i \<in> set (concat (B pid b))"
  shows "\<exists>c'. om_orderbook_remove_slot E c pid i = (True, c') \<and>
    book_inv E c' (upd_levels B pid b (spec_remove i (B pid b))) D (i # F) \<and> wal c' = wal c \<and>
    (\<forall>j. core (slot_at (slab c') j) = core (slot_at (slab c) j)) \<and> max_products c' = max_products c"
  using orderbook_remove_slot [OF assms] by blast

theorem om_orderbook_remove_slot_refines_witness:
  "\<exists>c c'. om_orderbook_remove_slot demo_env c 0 3 = (True, c') \<and>
     book_inv demo_env c' (upd_levels (upd_levels (\<lambda>_ _. []) 0 True [[3]]) 0 True []) {} [3, 2, 1, 0]"
proof -
  obtain c where c: "book_inv demo_env c (upd_levels (\<lambda>_ _. []) 0 True [[3]]) {} [2, 1, 0]" using demo_resting by metis
  from om_orderbook_remove_slot_refines [OF demo_env_hash demo_env_kavl c(1), of 3 0 True] show ?thesis
    by (auto simp: spec_remove_def)
qed

text \<open>
  C7: unlinking a resting order takes it out of its level, and keeps its slot allocated, its
  fields and its id known.
\<close>

theorem om_orderbook_unlink_slot_refines:
  assumes "kavl_ok E" and "book_inv E c B D F" and "i \<in> set (concat (B pid b))"
  shows "\<exists>c'. om_orderbook_unlink_slot E c pid i = (True, c') \<and>
    book_inv E c' (upd_levels B pid b (spec_remove i (B pid b))) (insert i D) F \<and> same_orders c c'"
  using assms by (rule orderbook_unlink_slot)

theorem om_orderbook_unlink_slot_refines_witness:
  "\<exists>c c'. om_orderbook_unlink_slot demo_env c 0 3 = (True, c') \<and>
     book_inv demo_env c' (upd_levels (upd_levels (\<lambda>_ _. []) 0 True [[3]]) 0 True []) {3} [2, 1, 0]"
proof -
  obtain c where c: "book_inv demo_env c (upd_levels (\<lambda>_ _. []) 0 True [[3]]) {} [2, 1, 0]" using demo_resting by metis
  from om_orderbook_unlink_slot_refines [OF demo_env_kavl c(1), of 3 0 True] show ?thesis
    by (auto simp: spec_remove_def)
qed

end
