(* ===== verification/Book_Query.thy ===== *)
theory Book_Query
  imports Book_Ops
begin

text \<open>
  The queries and batch cancellations of the order book: what they return on a book that
  meets the invariant, and that their loops end.
\<close>

section \<open>Loops along a chain\<close>

lemma volume_loop_chain:
  assumes "chain OM_SLOT_IDX_NULL (qnext OM_Q2_TIME_FIFO s) i l"
  shows "volume_loop s i v = Some (v + sum_list (map (\<lambda>j. volume_remain (slot_at s j)) l))"
  using assms
proof (induction l arbitrary: i v)
  case Nil
  then show ?case by (simp add: volume_loop.simps)
next
  case (Cons x l)
  then show ?case by (subst volume_loop.simps) (simp add: add.assoc)
qed

lemma level_count_loop_chain:
  assumes "chain OM_SLOT_IDX_NULL (qnext OM_Q1_PRICE_LADDER s) i l"
  shows "level_count_loop s i n = Some (n + of_nat (length l))"
  using assms
proof (induction l arbitrary: i n)
  case Nil
  then show ?case by (simp add: level_count_loop.simps)
next
  case (Cons x l)
  then show ?case by (subst level_count_loop.simps) (simp add: algebra_simps)
qed

lemma first_other_loop_chain:
  assumes "chain OM_SLOT_IDX_NULL (qnext OM_Q2_TIME_FIFO s) i l" and "\<forall>j \<in> set l. j < a_capacity (slab_a s)"
  shows "first_other_loop s i og = Some (case find (\<lambda>j. org (slot_at s j) \<noteq> og) l of None \<Rightarrow> OM_SLOT_IDX_NULL | Some j \<Rightarrow> j)"
  using assms
proof (induction l arbitrary: i)
  case Nil
  then show ?case by (simp add: first_other_loop.simps)
next
  case (Cons x l)
  then show ?case by (subst first_other_loop.simps) (simp add: om_slot_from_idx_def)
qed

lemma book_side: "book_inv E c B D F \<Longrightarrow> ucast pid < max_products c \<Longrightarrow> side_inv c pid b (B pid b)"
  unfolding book_inv_def using book_shapeD(2) by blast

section \<open>Best prices, volumes and level counts\<close>

lemma best_head:
  assumes "side_inv c pid b L"
  shows "book_head c pid b = (if L = [] then OM_SLOT_IDX_NULL else hd (hd L))"
    "L \<noteq> [] \<Longrightarrow> hd (hd L) \<noteq> OM_SLOT_IDX_NULL" "L \<noteq> [] \<Longrightarrow> hd (hd L) < a_capacity (slab_a (slab c))"
    "L \<noteq> [] \<Longrightarrow> hd (hd L) \<in> set (concat L)"
    "i \<in> set (concat L) \<Longrightarrow> oprice c (hd (hd L)) = oprice c i \<or> better b (oprice c (hd (hd L))) (oprice c i)"
proof -
  note La = ladderD [OF side_invD(1) [OF assms]] and P = pricedD [OF side_invD(2) [OF assms]]
  show "book_head c pid b = (if L = [] then OM_SLOT_IDX_NULL else hd (hd L))" using La(8) .
  show m: "hd (hd L) \<in> set (concat L)" if "L \<noteq> []" using La(7) that by simp
  show "hd (hd L) \<noteq> OM_SLOT_IDX_NULL" "hd (hd L) < a_capacity (slab_a (slab c))" if "L \<noteq> []"
    using La(4,5) m [OF that] by blast+
  assume "i \<in> set (concat L)"
  then obtain l where l: "l \<in> set L" "i \<in> set l" by auto
  then obtain l0 L' where L: "L = l0 # L'" by (cases L) auto
  have "oprice c (hd l) = oprice c i" using P(2) l by blast
  moreover have "l = l0 \<or> better b (oprice c (hd l0)) (oprice c (hd l))" using P(3) l(1) by (auto simp: L)
  ultimately show "oprice c (hd (hd L)) = oprice c i \<or> better b (oprice c (hd (hd L))) (oprice c i)" by (auto simp: L)
qed



lemma priced_split:
  assumes "priced pr b L" and "\<forall>l \<in> set L. pr (hd l) \<noteq> p"
  obtains P Q where "L = P @ Q" "\<forall>l \<in> set P. better b (pr (hd l)) p" "\<forall>l \<in> set Q. better b p (pr (hd l))"
  using assms
proof (induction L arbitrary: thesis)
  case (Cons l L)
  have tl: "priced pr b L" and l: "\<forall>m \<in> set L. better b (pr (hd l)) (pr (hd m))"
    using Cons.prems(2) by (simp_all add: priced_def)
  show ?case
  proof (cases "better b (pr (hd l)) p")
    case True
    obtain P Q where "L = P @ Q" "\<forall>l \<in> set P. better b (pr (hd l)) p" "\<forall>l \<in> set Q. better b p (pr (hd l))"
      using Cons.IH tl Cons.prems(3) by auto
    then show ?thesis using True Cons.prems(1) [of "l # P" Q] by simp
  next
    case False
    then have "better b p (pr (hd l))" using Cons.prems(3) better_total by force
    then show ?thesis using l Cons.prems(1) [of "[]" "l # L"] better_trans by fastforce
  qed
qed simp

lemma priced_distinct: "priced pr b L \<Longrightarrow> distinct (map (\<lambda>l. pr (hd l)) L)"
  by (induction L) (auto simp: priced_def better_def split: if_splits)

lemma level_at_price:
  assumes inv: "side_inv c pid b L"
  shows "filter (\<lambda>i. oprice c i = p) (concat L) = (case find (\<lambda>l. oprice c (hd l) = p) L of None \<Rightarrow> [] | Some l \<Rightarrow> l)"
  using side_invD(2) [OF inv]
proof (induction L)
  case (Cons l L)
  have tl: "priced (oprice c) b L" using Cons.prems by (simp add: priced_def)
  have l: "\<forall>i \<in> set l. oprice c i = oprice c (hd l)" using pricedD(2) [OF Cons.prems, of l] by simp
  show ?case
  proof (cases "oprice c (hd l) = p")
    case True
    have "oprice c i \<noteq> p" if "m \<in> set L" "i \<in> set m" for m i
    proof -
      have "better b (oprice c (hd l)) (oprice c (hd m))" using pricedD(3) [OF Cons.prems] that(1) by simp
      moreover have "oprice c (hd m) = oprice c i" using pricedD(2) [OF tl that] .
      ultimately show ?thesis using True better_irrefl by metis
    qed
    then have "filter (\<lambda>i. oprice c i = p) (concat L) = []" by (auto simp: filter_empty_conv)
    then show ?thesis using True l by (simp add: filter_id_conv)
  next
    case False
    then have "filter (\<lambda>i. oprice c i = p) l = []" using l by (simp add: filter_empty_conv)
    then show ?thesis using False Cons.IH [OF tl] by simp
  qed
qed simp

text \<open>
  C17: the volume at a price is the sum, in 64 bits, of the remaining volumes of all resting
  orders of that side with that price; the query always returns.
\<close>

theorem volume_at_price:
  assumes "book_inv E c B D F" and "ucast pid < max_products c"
  shows "om_orderbook_get_volume_at_price c pid p b =
    Some (\<Sum>i \<leftarrow> filter (\<lambda>i. oprice c i = p) (concat (B pid b)). volume_remain (slot_at (slab c) i))"
proof -
  have inv: "side_inv c pid b (B pid b)" using assms by (rule book_side)
  note La = ladderD [OF side_invD(1) [OF inv]]
  show ?thesis
  proof (cases "find (\<lambda>l. oprice c (hd l) = p) (B pid b)")
    case None
    have n: "\<forall>l \<in> set (B pid b). oprice c (hd l) \<noteq> p" using None by (auto simp: find_None_iff)
    obtain P Q where "B pid b = P @ Q" "\<forall>l \<in> set P. better b (oprice c (hd l)) p" "\<forall>l \<in> set Q. better b p (oprice c (hd l))"
      using priced_split [OF side_invD(2) [OF inv], of p] n by metis
    from find_price_level_missing [OF inv n this] show ?thesis
      by (simp add: om_orderbook_get_volume_at_price_def level_at_price [OF inv] None)
  next
    case (Some l)
    then have l: "l \<in> set (B pid b)" "oprice c (hd l) = p" by (auto simp: find_Some_iff)
    from volume_loop_chain [OF fifoD(2) [OF La(2) [OF l(1)]], of 0] find_price_level_found [OF inv l] show ?thesis
      by (simp add: om_orderbook_get_volume_at_price_def level_at_price [OF inv] Some)
  qed
qed

theorem volume_at_price_witness:
  "\<exists>c. om_orderbook_get_volume_at_price c 0 100 True = Some 10 \<and> om_orderbook_get_volume_at_price c 0 101 True = Some 0 \<and>
     book_inv demo_env c (upd_levels (\<lambda>_ _. []) 0 True [[3]]) {} [2, 1, 0]"
proof -
  obtain c where c: "book_inv demo_env c (upd_levels (\<lambda>_ _. []) 0 True [[3]]) {} [2, 1, 0]"
    "volume_remain (slot_at (slab c) 3) = 10" "oprice c 3 = 100" "max_products c = 2" using demo_resting by metis
  from volume_at_price [OF c(1), of 0 100 True] volume_at_price [OF c(1), of 0 101 True] c show ?thesis by auto
qed

text \<open>
  C18: the level count is the number of distinct prices of the resting orders of the side (as
  a 32-bit count), and a price level exists exactly when some resting order has that price.
\<close>

theorem level_count_distinct_prices:
  assumes "book_inv E c B D F" and "ucast pid < max_products c"
  shows "om_orderbook_get_price_level_count c pid b = Some (of_nat (card (oprice c ` set (concat (B pid b))))) \<and>
    (om_orderbook_price_level_exists c pid p b \<longleftrightarrow> p \<in> oprice c ` set (concat (B pid b)))"
proof
  have inv: "side_inv c pid b (B pid b)" using assms by (rule book_side)
  note La = ladderD [OF side_invD(1) [OF inv]] and P = pricedD [OF side_invD(2) [OF inv]]
  have im: "oprice c ` set (concat (B pid b)) = set (map (\<lambda>l. oprice c (hd l)) (B pid b))"
  proof (intro equalityI subsetI)
    fix x assume "x \<in> oprice c ` set (concat (B pid b))"
    then obtain i l where "l \<in> set (B pid b)" "i \<in> set l" "x = oprice c i" by auto
    then show "x \<in> set (map (\<lambda>l. oprice c (hd l)) (B pid b))" using P(2) by force
  next
    fix x assume "x \<in> set (map (\<lambda>l. oprice c (hd l)) (B pid b))"
    then show "x \<in> oprice c ` set (concat (B pid b))" using La(7) by (auto simp del: set_concat)
  qed
  have "distinct (map (\<lambda>l. oprice c (hd l)) (B pid b))" using side_invD(2) [OF inv] by (rule priced_distinct)
  then have "card (oprice c ` set (concat (B pid b))) = length (B pid b)" unfolding im by (metis distinct_card length_map)
  then show "om_orderbook_get_price_level_count c pid b = Some (of_nat (card (oprice c ` set (concat (B pid b)))))"
    using level_count_loop_chain [OF dllD(1) [OF La(1)], of 0] best_head(1,2) [OF inv]
    by (cases "B pid b = []") (simp_all add: om_orderbook_get_price_level_count_def)
  show "om_orderbook_price_level_exists c pid p b \<longleftrightarrow> p \<in> oprice c ` set (concat (B pid b))"
  proof (cases "p \<in> oprice c ` set (concat (B pid b))")
    case True
    then show ?thesis unfolding im using find_price_level_found [OF inv] by (auto simp: om_orderbook_price_level_exists_def)
  next
    case False
    then have n: "\<forall>l \<in> set (B pid b). oprice c (hd l) \<noteq> p" unfolding im by auto
    obtain P Q where "B pid b = P @ Q" "\<forall>l \<in> set P. better b (oprice c (hd l)) p" "\<forall>l \<in> set Q. better b p (oprice c (hd l))"
      using priced_split [OF side_invD(2) [OF inv] n] .
    from find_price_level_missing [OF inv n this] False show ?thesis by (simp add: om_orderbook_price_level_exists_def)
  qed
qed

theorem level_count_distinct_prices_witness:
  "\<exists>c. om_orderbook_get_price_level_count c 0 True = Some 1 \<and> om_orderbook_price_level_exists c 0 100 True \<and>
     \<not> om_orderbook_price_level_exists c 0 99 True \<and>
     book_inv demo_env c (upd_levels (\<lambda>_ _. []) 0 True [[3]]) {} [2, 1, 0]"
proof -
  obtain c where c: "book_inv demo_env c (upd_levels (\<lambda>_ _. []) 0 True [[3]]) {} [2, 1, 0]"
    "oprice c 3 = 100" "max_products c = 2" using demo_resting by metis
  from level_count_distinct_prices [OF c(1), of 0 True 100] level_count_distinct_prices [OF c(1), of 0 True 99] c
  show ?thesis by auto
qed

section \<open>The first order of another organisation\<close>

lemma unat_u16_u32 [simp]: "unat (ucast (x :: u16) :: u32) = unat x"
  using unsigned_less [of x, where 'a = nat] by (simp add: unsigned_ucast_eq take_bit_nat_eq_self)

lemma ucast_u16_inj: "(ucast (x :: u16) :: u32) = ucast y \<longleftrightarrow> x = y"
  by (metis unat_u16_u32 word_unat_eq_iff)

lemma known_org_inv:
  assumes inv: "book_inv E c B D F" and l: "l \<in> set (B pid b)" and p: "ucast pid < max_products c"
    and v: "\<forall>j \<in> set l. ucast (org (slot_at (slab c) j)) = v"
  shows "book_inv E (set_known_org (hd l) v c) B D F"
proof -
  let ?c' = "set_known_org (hd l) v c"
  have sh: "book_shape c B D F" using inv by (simp add: book_inv_def)
  have side: "side_inv c pid b (B pid b)" using inv p by (rule book_side)
  note La = ladderD [OF side_invD(1) [OF side]]
  note R = spec_remove_facts [OF sh La(7) [OF l]]
  have pr: "oprice ?c' = oprice c" by (simp add: oprice_def fun_eq_iff)
  have "node_ok ?c' m" if "m \<in> set (B pid b)" for m
  proof (cases "hd m = hd l")
    case True
    then have "m = l" using that l La(3,6) by (metis distinct_concat_iff disjoint_iff hd_in_set)
    then show ?thesis using side_invD(5) [OF side l] v by (simp add: node_ok_def pr)
  next
    case False
    then show ?thesis using side_invD(5) [OF side that] by (simp add: node_ok_def pr)
  qed
  then have "side_inv ?c' pid b (B pid b)" using side_invD [OF side] by (simp add: side_inv_def pr del: set_concat)
  moreover have "effect c ?c' pid b {hd l}" by (simp add: effect_def)
  ultimately have "book_shape ?c' (upd_levels B pid b (B pid b)) D F"
    using La(7) [OF l] by (intro shape_side [OF sh p _ _ _ _ R(4,2,3)]) auto
  moreover have "upd_levels B pid b (B pid b) = B" by (simp add: upd_levels_def)
  moreover have "book_map E ?c' B D = book_map E c B D" by (rule book_map_cong) simp_all
  ultimately show ?thesis using inv by (simp add: book_inv_def)
qed

lemma first_other_inv:
  assumes inv: "book_inv E c B D F" and l: "l \<in> set (B pid b)" and p: "ucast pid < max_products c"
  shows "\<exists>c'. om_orderbook_first_other_org c (hd l) og =
      Some (case find (\<lambda>j. org (slot_at (slab c) j) \<noteq> og) l of None \<Rightarrow> OM_SLOT_IDX_NULL | Some j \<Rightarrow> j, c') \<and>
    book_inv E c' B D F \<and> slab c' = slab c \<and> wal c' = wal c \<and> max_products c' = max_products c"
proof -
  have side: "side_inv c pid b (B pid b)" using inv p by (rule book_side)
  note La = ladderD [OF side_invD(1) [OF side]]
  have ne: "l \<noteq> []" and cap: "\<forall>j \<in> set l. j < a_capacity (slab_a (slab c))" using La(4,6) l by auto
  have hl: "hd l \<in> set l" using ne by simp
  then have hc: "\<not> a_capacity (slab_a (slab c)) \<le> hd l" using cap by (simp add: not_le)
  have ch: "chain OM_SLOT_IDX_NULL (qnext OM_Q2_TIME_FIFO (slab c)) (hd l) l" using fifoD(2) La(2) l by blast
  show ?thesis
  proof (cases "known_org (price_nodes c (hd l)) = 0xFFFFFFFF")
    case False
    have "\<forall>j \<in> set l. known_org (price_nodes c (hd l)) = ucast (org (slot_at (slab c) j))"
      using side_invD(5) [OF side l] False by (simp add: node_ok_def)
    then have o: "\<forall>j \<in> set l. org (slot_at (slab c) j) = og \<longleftrightarrow> known_org (price_nodes c (hd l)) = ucast og"
      by (simp add: ucast_u16_inj)
    then have "find (\<lambda>j. org (slot_at (slab c) j) \<noteq> og) l =
        (if known_org (price_nodes c (hd l)) = ucast og then None else Some (hd l))"
      using hl by (cases l) (auto simp: find_None_iff)
    then show ?thesis using inv False hc by (auto simp: om_orderbook_first_other_org_def)
  next
    case True
    let ?c' = "set_known_org (hd l) (ucast og) c"
    note loop = first_other_loop_chain [OF ch cap, of og]
    show ?thesis
    proof (cases "find (\<lambda>j. org (slot_at (slab c) j) \<noteq> og) l")
      case None
      then have "book_inv E ?c' B D F" by (intro known_org_inv [OF inv l p]) (auto simp: find_None_iff)
      then show ?thesis using True hc loop None
        by (intro exI [of _ ?c']) (simp add: om_orderbook_first_other_org_def)
    next
      case (Some j)
      then have "j \<noteq> OM_SLOT_IDX_NULL"
        using fifoD(4) [OF La(2) [OF l]] by (auto simp: find_Some_iff dest: nth_mem)
      then show ?thesis using inv True hc loop Some
        by (intro exI [of _ c]) (simp add: om_orderbook_first_other_org_def)
    qed
  qed
qed

text \<open>
  C16: asked for the first order of a level that is not of a given organisation, the book
  returns the first such order in time priority, or NULL when the whole level belongs to that
  organisation, whether or not the answer comes from the cache of the level; the cache may be
  updated, the book stays the same.
\<close>

theorem first_other_org_correct:
  assumes "book_inv E c B D F" and "l \<in> set (B pid b)" and "ucast pid < max_products c"
  shows "\<exists>c'. om_orderbook_first_other_org c (hd l) og =
      Some (case find (\<lambda>j. org (slot_at (slab c) j) \<noteq> og) l of None \<Rightarrow> OM_SLOT_IDX_NULL | Some j \<Rightarrow> j, c') \<and>
    book_inv E c' B D F \<and> slab c' = slab c \<and> wal c' = wal c"
  using first_other_inv [OF assms, of og] by blast

theorem first_other_org_correct_witness:
  "\<exists>c c' c''. om_orderbook_first_other_org c 3 5 = Some (OM_SLOT_IDX_NULL, c') \<and>
     om_orderbook_first_other_org c 3 6 = Some (3, c'') \<and>
     book_inv demo_env c (upd_levels (\<lambda>_ _. []) 0 True [[3]]) {} [2, 1, 0]"
proof -
  obtain c where c: "book_inv demo_env c (upd_levels (\<lambda>_ _. []) 0 True [[3]]) {} [2, 1, 0]"
    "org (slot_at (slab c) 3) = 5" "max_products c = 2" using demo_resting by metis
  obtain c' where "om_orderbook_first_other_org c 3 5 = Some (OM_SLOT_IDX_NULL, c')"
    using first_other_org_correct [OF c(1), of "[3]" 0 True 5] c(2,3) by auto
  moreover obtain c'' where "om_orderbook_first_other_org c 3 6 = Some (3, c'')"
    using first_other_org_correct [OF c(1), of "[3]" 0 True 6] c(2,3) by auto
  ultimately show ?thesis using c(1) by blast
qed

section \<open>Cancelling a side\<close>

text \<open>
  One order after the other of the first level; \<open>l\<close> is what is left of it and \<open>Q\<close> the
  levels behind it.
\<close>

lemma spec_remove_hd:
  assumes "distinct (concat ((i # l) # Q))" and "\<forall>m \<in> set Q. m \<noteq> []"
  shows "spec_remove i ((i # l) # Q) = (if l = [] then Q else l # Q)"
  using spec_remove_split [of "[]" "i # l" Q i] assms by simp

lemma next_in_level:
  assumes "side_inv c pid b ((i # l) # Q)"
  shows "qnext OM_Q2_TIME_FIFO (slab c) i = (if l = [] then OM_SLOT_IDX_NULL else hd l)"
proof -
  have "chain OM_SLOT_IDX_NULL (qnext OM_Q2_TIME_FIFO (slab c)) i (i # l)"
    using fifoD(2) [OF ladderD(2) [OF side_invD(1) [OF assms]], of "i # l"] by simp
  then show ?thesis using chain_start by fastforce
qed

lemma upd_levels_twice [simp]: "upd_levels (upd_levels B p b L) p b L' = upd_levels B p b L'"
  by (simp add: upd_levels_def)

lemma cancel_level_step:
  assumes K: "khash_ok (env_hash E)" "kavl_ok E" and inv: "book_inv E c (upd_levels B pid b ((i # l) # Q)) D F"
    and w: "wal c = None" and p: "ucast pid < max_products c"
  obtains c1 where "book_inv E c1 (upd_levels B pid b (if l = [] then Q else l # Q)) D (i # F)" "wal c1 = None"
    "max_products c1 = max_products c"
    "cancel_level_loop E i n c = cancel_level_loop E (if l = [] then OM_SLOT_IDX_NULL else hd l) (n + 1) c1"
proof -
  have side: "side_inv c pid b ((i # l) # Q)" using book_side [OF inv p, of b] by simp
  note La = ladderD [OF side_invD(1) [OF side]]
  have i: "i < a_capacity (slab_a (slab c))" "i \<noteq> OM_SLOT_IDX_NULL" using La(4,5) by simp_all
  obtain ok c1 where r: "om_orderbook_cancel E c (order_id (slot_at (slab c) i)) = (ok, c1)" by fastforce
  have rm: "spec_remove i ((i # l) # Q) = (if l = [] then Q else l # Q)"
    using La(3,6) by (intro spec_remove_hd) simp_all
  have c1: "ok" "book_inv E c1 (upd_levels B pid b (if l = [] then Q else l # Q)) D (i # F)" "wal c1 = None"
    "max_products c1 = max_products c"
    using orderbook_cancel [OF K inv, of i pid b, OF _ refl r] w by (simp_all add: rm split: if_split_asm)
  have "cancel_level_loop E i n c = cancel_level_loop E (if l = [] then OM_SLOT_IDX_NULL else hd l) (n + 1) c1"
    using i r c1(1) next_in_level [OF side] by (subst cancel_level_loop.simps) (simp add: om_slot_from_idx_def Let_def)
  with c1 show thesis using that by blast
qed

lemma cancel_level_loop_all:
  assumes K: "khash_ok (env_hash E)" "kavl_ok E" and inv: "book_inv E c (upd_levels B pid b ((i # l) # Q)) D F"
    and w: "wal c = None" and p: "ucast pid < max_products c"
  shows "\<exists>c'. cancel_level_loop E i n c = Some (n + of_nat (Suc (length l)), c') \<and>
    book_inv E c' (upd_levels B pid b Q) D (rev (i # l) @ F) \<and> wal c' = None \<and> max_products c' = max_products c"
  using inv w p
proof (induction l arbitrary: i n c F)
  case Nil
  obtain c1 where c1: "book_inv E c1 (upd_levels B pid b Q) D (i # F)" "wal c1 = None"
    "max_products c1 = max_products c" "cancel_level_loop E i n c = cancel_level_loop E OM_SLOT_IDX_NULL (n + 1) c1"
    using cancel_level_step [OF K Nil, of n] by auto
  moreover have "cancel_level_loop E OM_SLOT_IDX_NULL (n + 1) c1 = Some (n + 1, c1)"
    by (subst cancel_level_loop.simps) simp
  ultimately show ?case by (intro exI [of _ c1]) (simp del: upd_levels_apply)
next
  case (Cons j l)
  obtain c1 where c1: "book_inv E c1 (upd_levels B pid b ((j # l) # Q)) D (i # F)" "wal c1 = None"
    "max_products c1 = max_products c" "cancel_level_loop E i n c = cancel_level_loop E j (n + 1) c1"
    using cancel_level_step [OF K Cons.prems, of n] by auto
  obtain c' where c': "cancel_level_loop E j (n + 1) c1 = Some (n + 1 + of_nat (Suc (length l)), c')"
    "book_inv E c' (upd_levels B pid b Q) D (rev (j # l) @ i # F)" "wal c' = None" "max_products c' = max_products c1"
    using Cons.IH [OF c1(1,2), of "n + 1"] c1(3) Cons.prems(3) by metis
  show ?case using c' c1(3,4) by (intro exI [of _ c']) (simp del: upd_levels_apply add: algebra_simps)
qed

lemma next_level:
  assumes "side_inv c pid b (l # Q)"
  shows "qnext OM_Q1_PRICE_LADDER (slab c) (hd l) = (if Q = [] then OM_SLOT_IDX_NULL else hd (hd Q))"
proof -
  have "chain OM_SLOT_IDX_NULL (qnext OM_Q1_PRICE_LADDER (slab c)) (book_head c pid b) (hd l # map hd Q)"
    using dllD(1) [OF ladderD(1) [OF side_invD(1) [OF assms]]] by simp
  then show ?thesis using chain_start [of OM_SLOT_IDX_NULL "qnext OM_Q1_PRICE_LADDER (slab c)" _ "map hd Q"]
    by (auto simp: hd_map)
qed

lemma cancel_side_loop_all:
  assumes K: "khash_ok (env_hash E)" "kavl_ok E" and inv: "book_inv E c (upd_levels B pid b L) D F"
    and w: "wal c = None" and p: "ucast pid < max_products c"
  shows "\<exists>c'. cancel_side_loop E (if L = [] then OM_SLOT_IDX_NULL else hd (hd L)) n c =
      Some (n + of_nat (length (concat L)), c') \<and>
    book_inv E c' (upd_levels B pid b []) D (rev (concat L) @ F) \<and> wal c' = None \<and> max_products c' = max_products c"
  using inv w p
proof (induction L arbitrary: n c F)
  case Nil
  then show ?case by (simp add: cancel_side_loop.simps)
next
  case (Cons l Q)
  have side: "side_inv c pid b (l # Q)" using book_side [OF Cons.prems(1,3), of b] by simp
  note La = ladderD [OF side_invD(1) [OF side]]
  obtain i m where l: "l = i # m" using La(6) [of l] by (cases l) auto
  have i: "i < a_capacity (slab_a (slab c))" "i \<noteq> OM_SLOT_IDX_NULL" using La(4,5) l by simp_all
  obtain c1 where c1: "cancel_level_loop E i n c = Some (n + of_nat (Suc (length m)), c1)"
    "book_inv E c1 (upd_levels B pid b Q) D (rev l @ F)" "wal c1 = None" "max_products c1 = max_products c"
    using cancel_level_loop_all [OF K Cons.prems(1) [unfolded l] Cons.prems(2,3), of n] l by auto
  have "cancel_side_loop E i n c = cancel_side_loop E (if Q = [] then OM_SLOT_IDX_NULL else hd (hd Q))
      (n + of_nat (Suc (length m))) c1"
    using i c1(1) next_level [OF side] l by (subst cancel_side_loop.simps) (simp add: om_slot_from_idx_def Let_def)
  moreover obtain c' where "cancel_side_loop E (if Q = [] then OM_SLOT_IDX_NULL else hd (hd Q)) (n + of_nat (Suc (length m))) c1 =
      Some (n + of_nat (Suc (length m)) + of_nat (length (concat Q)), c')"
    "book_inv E c' (upd_levels B pid b []) D (rev (concat Q) @ rev l @ F)" "wal c' = None" "max_products c' = max_products c1"
    using Cons.IH [OF c1(2,3), of "n + of_nat (Suc (length m))"] c1(4) Cons.prems(3) by metis
  ultimately show ?case using c1(4) by (intro exI [of _ c']) (simp del: upd_levels_apply add: l algebra_simps)
qed



section \<open>Organisation list heads\<close>

lemma level_unlink_org_heads [simp]: "org_heads (level_unlink E c pid b h i) = org_heads c"
  by (simp add: level_unlink_def Let_def remove_price_level_def price_promote_def)

lemma org_ops_heads [simp]:
  "org_heads (org_unlink c i) = org_heads c" "org_heads (release_order E c oid i) = org_heads c"
  by (simp_all add: org_unlink_def release_order_def)

text \<open>
  C38: removing an order by its slot leaves the list head of its organisation alone. When the
  order was the head, the head still names its slot after the slot has been freed, and
  cancelling all orders of that organisation in the product then cancels nothing, whatever
  else the organisation has resting there.
\<close>

theorem remove_slot_leaves_stale_org_head:
  assumes "khash_ok (env_hash E)" and "kavl_ok E" and "book_inv E c B D F" and "i \<in> set (concat (B pid b))"
    and "og = org (slot_at (slab c) i)" and "org_in_range c pid og" and "org_heads c (org_index c pid og) = i"
  shows "\<exists>c'. om_orderbook_remove_slot E c pid i = (True, c') \<and>
    book_inv E c' (upd_levels B pid b (spec_remove i (B pid b))) D (i # F) \<and>
    org_heads c' (org_index c' pid og) = i \<and> om_orderbook_cancel_org_product E c' pid og = Some (0, c')"
proof -
  have sh: "book_shape c B D F" using assms(3) by (simp add: book_inv_def)
  obtain l where l: "l \<in> set (B pid b)" "i \<in> set l" "OM_IS_BID (flags (slot_at (slab c) i)) = b"
    "fst (find_price_level_with_insertion_point c pid (price (slot_at (slab c) i)) b) = Some (hd l)"
    using find_resting [OF sh assms(4)] .
  note U = unlinked_shape(1) [OF assms(2) sh assms(4) l(1,2)] and R = spec_remove_facts [OF sh assms(4)]
  define c1 where "c1 = org_unlink (level_unlink E c pid b (hd l) i) i"
  define c' where "c' = release_order E c1 (order_id (slot_at (slab c) i)) i"
  have same: "same_orders c c1" using U by (simp add: c1_def)
  have r: "om_orderbook_remove_slot E c pid i = (True, c')"
    using l same_ordersD(6) [OF same, of i] by (simp add: om_orderbook_remove_slot_def Let_def c1_def c'_def)
  have nn: "i \<noteq> OM_SLOT_IDX_NULL" using slab_invD(10) [OF book_shapeD(1) [OF sh] R(1)] .
  have mx: "max_products c' = max_products c" "max_org c' = max_org c"
    using same by (simp_all add: c'_def release_order_def same_orders_def)
  have hd: "org_heads c' (org_index c' pid og) = i"
    using assms(7) by (simp add: c'_def c1_def org_index_def mx [unfolded c'_def c1_def])
  have inv': "book_inv E c' (upd_levels B pid b (spec_remove i (B pid b))) D (i # F)"
    unfolding c'_def using release_inv [OF assms(1,3,4)] U c1_def by blast
  have cap: "om_slot_from_idx (slab c') i = Some i"
    using R(1) same_ordersD(12) [OF same] nn by (simp add: c'_def release_order_def om_slot_from_idx_def)
  have nx: "qnext OM_Q3_ORG_QUEUE (slab c') i = OM_SLOT_IDX_NULL"
    by (simp add: c'_def release_order_def om_slab_free_links [OF nn] OM_Q_distinct)
  have "order_id (slot_at (slab c') i) = order_id (slot_at (slab c) i)"
    using same_ordersD(6) [OF same] core_eqD(6) [OF om_slab_free_links(5) [OF nn]] by (simp add: c'_def release_order_def)
  then have "om_orderbook_cancel E c' (order_id (slot_at (slab c') i)) = (False, c')"
    by (simp add: om_orderbook_cancel_def c'_def release_order_def om_hash_remove_get [OF assms(1)])
  moreover have "cancel_org_loop E OM_SLOT_IDX_NULL 0 c' = Some (0, c')" by (subst cancel_org_loop.simps) simp
  ultimately have "cancel_org_loop E i 0 c' = Some (0, c')"
    using cap nx nn by (subst cancel_org_loop.simps) (simp add: om_slot_from_idx_def Let_def)
  then have "om_orderbook_cancel_org_product E c' pid og = Some (0, c')"
    using assms(6) hd by (simp add: om_orderbook_cancel_org_product_def org_in_range_def mx)
  with r hd inv' show ?thesis by blast
qed

text \<open>An inserted order becomes the head of its organisation's list.\<close>

lemma book_link_org_head:
  assumes s: "same_orders c (book_link E c pid i)" and r: "org_in_range c pid (org (slot_at (slab c) i))"
  shows "org_heads (book_link E c pid i) (org_index c pid (org (slot_at (slab c) i))) = i"
proof -
  obtain c1 where c1: "book_link E c pid i = org_queue_insert c1 pid i" by (simp add: book_link_def Let_def)
  have "same_orders c1 (book_link E c pid i)" unfolding c1 by (rule silent_same [OF org_ops_silent(3)])
  then have "org (slot_at (slab c1) i) = org (slot_at (slab c) i)" "max_org c1 = max_org c" "max_products c1 = max_products c"
    using same_ordersD(4,8,9) [OF s] same_ordersD(4,8,9) by metis+
  then show ?thesis using r unfolding c1
    by (simp add: org_queue_insert_def Let_def org_in_range_def org_index_def set_org_head_def)
qed

lemma demo_org_head:
  obtains c where "book_inv demo_env c (upd_levels (\<lambda>_ _. []) 0 True [[3]]) {} [2, 1, 0]"
    "org (slot_at (slab c) 3) = 5" "org_in_range c 0 5" "org_heads c (org_index c 0 5) = 3"
proof -
  obtain c c' where c: "book_inv demo_env c (\<lambda>_ _. []) {} [2, 1, 0]" "3 < a_capacity (slab_a (slab c))"
    "om_orderbook_insert demo_env c 0 3 = (OM_OK, c')" "OM_IS_BID (flags (slot_at (slab c) 3))"
    "org (slot_at (slab c) 3) = 5" using demo_insert by metis
  note I = orderbook_insert [OF demo_env_hash demo_env_kavl c(1) _ _ _ c(2,3) refl, unfolded resting_def, simplified]
  have s: "org (slot_at (slab c') 3) = 5" "max_org c' = max_org c" "max_products c' = max_products c"
    using I c(5) core_eqD(4) [of "slot_at (slab c') 3" "slot_at (slab c) 3"] by (simp_all add: same_orders_def)
  show thesis using demo_env_hash c(3)
  proof (cases rule: om_orderbook_insert_cases)
    case (linked h w)
    let ?c1 = "c\<lparr>order_hashmap := h, wal := w\<rparr>"
    have "same_orders ?c1 (book_link demo_env ?c1 0 3)"
      using book_link_shape [OF demo_env_kavl, of ?c1 "\<lambda>_ _. []" "{}" "[2, 1, 0]" 0 3] c(1,2) linked(5)
      by (simp add: book_inv_def resting_def org_in_range_def)
    from book_link_org_head [OF this] linked(2,5) c(5) s I show thesis
      by (intro that [of c']) (simp_all add: org_in_range_def org_index_def c(4))
  qed simp
qed

theorem remove_slot_leaves_stale_org_head_witness:
  "\<exists>c c'. om_orderbook_remove_slot demo_env c 0 3 = (True, c') \<and> org_heads c' (org_index c' 0 5) = 3 \<and>
     om_orderbook_cancel_org_product demo_env c' 0 5 = Some (0, c')"
proof -
  obtain c where c: "book_inv demo_env c (upd_levels (\<lambda>_ _. []) 0 True [[3]]) {} [2, 1, 0]"
    "org (slot_at (slab c) 3) = 5" "org_in_range c 0 5" "org_heads c (org_index c 0 5) = 3" using demo_org_head .
  from remove_slot_leaves_stale_org_head [OF demo_env_hash demo_env_kavl c(1), of 3 0 True 5] c(2-4) show ?thesis by auto
qed

end
