(* ===== verification/Engine.thy ===== *)
theory Engine
  imports Book_Query
begin

text \<open>
  The matching engine (\<^verbatim>\<open>src/om_engine.c\<close>): the match loop with its callbacks, cancellation,
  deactivation and activation, and the batch cancellations.

  Callbacks see the contents of the slots they are given (the pointers are to constant slots)
  and act on the user context only.  The engine's log and the log of its order book are one
  object, kept in the order book.  A \<open>NULL\<close> engine or taker is not represented.
\<close>

section \<open>State\<close>

definition OM_CAN_MATCH_CANCEL_MAKER :: u64 where "OM_CAN_MATCH_CANCEL_MAKER = 0xFFFFFFFFFFFFFFFE"
definition OM_CAN_MATCH_CANCEL_BOTH :: u64 where "OM_CAN_MATCH_CANCEL_BOTH = 0xFFFFFFFFFFFFFFFD"
definition OM_CAN_MATCH_DECREMENT_CANCEL :: u64 where "OM_CAN_MATCH_DECREMENT_CANCEL = 0xFFFFFFFFFFFFFFFC"

record 'u OmEngineCallbacks =
  can_match :: "(OmSlabSlot \<Rightarrow> OmSlabSlot \<Rightarrow> 'u \<Rightarrow> u64 \<times> 'u) option"
  on_match :: "(OmSlabSlot \<Rightarrow> u64 \<Rightarrow> u64 \<Rightarrow> 'u \<Rightarrow> 'u) option"
  on_deal :: "(OmSlabSlot \<Rightarrow> OmSlabSlot \<Rightarrow> u64 \<Rightarrow> u64 \<Rightarrow> 'u \<Rightarrow> 'u) option"
  on_booked :: "(OmSlabSlot \<Rightarrow> 'u \<Rightarrow> 'u) option"
  on_filled :: "(OmSlabSlot \<Rightarrow> 'u \<Rightarrow> 'u) option"
  on_cancel :: "(OmSlabSlot \<Rightarrow> 'u \<Rightarrow> 'u) option"
  on_decrement_cancel :: "(OmSlabSlot \<Rightarrow> OmSlabSlot \<Rightarrow> u64 \<Rightarrow> 'u \<Rightarrow> 'u) option"
  pre_booked :: "(OmSlabSlot \<Rightarrow> 'u \<Rightarrow> bool \<times> 'u) option"
  user_ctx :: 'u

record ('h, 'w, 'u) OmEngine =
  orderbook :: "('h, 'w) OmOrderbookContext"
  callbacks :: "'u OmEngineCallbacks"
  wal_owned :: bool

definition eslot :: "('h, 'w, 'u) OmEngine \<Rightarrow> nat \<Rightarrow> OmSlabSlot" where
  "eslot e i = slot_at (slab (orderbook e)) i"

definition upd_book ::
  "(('h, 'w) OmOrderbookContext \<Rightarrow> ('h, 'w) OmOrderbookContext) \<Rightarrow> ('h, 'w, 'u) OmEngine \<Rightarrow> ('h, 'w, 'u) OmEngine" where
  "upd_book f e = e\<lparr>orderbook := f (orderbook e)\<rparr>"

definition set_user :: "'u \<Rightarrow> ('h, 'w, 'u) OmEngine \<Rightarrow> ('h, 'w, 'u) OmEngine" where
  "set_user u e = e\<lparr>callbacks := (callbacks e)\<lparr>user_ctx := u\<rparr>\<rparr>"

text \<open>Calling an optional notification callback, given how to apply it to its slots.\<close>

definition notify ::
  "'f option \<Rightarrow> ('f \<Rightarrow> 'u \<Rightarrow> 'u) \<Rightarrow> ('h, 'w, 'u) OmEngine \<Rightarrow> ('h, 'w, 'u) OmEngine" where
  "notify f app e = (case f of None \<Rightarrow> e | Some g \<Rightarrow> set_user (app g (user_ctx (callbacks e))) e)"

definition set_volume :: "nat \<Rightarrow> u64 \<Rightarrow> ('h, 'w, 'u) OmEngine \<Rightarrow> ('h, 'w, 'u) OmEngine" where
  "set_volume i v = upd_book (upd_slab (upd_slot i (\<lambda>sl. sl\<lparr>volume_remain := v\<rparr>)))"

definition remove_order ::
  "('h, 'i, 'w) env \<Rightarrow> u16 \<Rightarrow> nat \<Rightarrow> ('h, 'w, 'u) OmEngine \<Rightarrow> ('h, 'w, 'u) OmEngine" where
  "remove_order E pid m = upd_book (\<lambda>c. snd (om_orderbook_remove_slot E c pid m))"

text \<open>Logging through the engine's log, if any: whether the log accepted the record.\<close>

definition engine_log ::
  "('w OmWal \<Rightarrow> u64 \<times> 'w OmWal) \<Rightarrow> ('h, 'w, 'u) OmEngine \<Rightarrow> bool \<times> ('h, 'w, 'u) OmEngine" where
  "engine_log f e =
     (case wal (orderbook e) of None \<Rightarrow> (True, e)
      | Some w \<Rightarrow> (case f w of (seq, w') \<Rightarrow> (seq \<noteq> 0, upd_book (\<lambda>c. c\<lparr>wal := Some w'\<rparr>) e)))"

section \<open>Matching\<close>

text \<open>
  One turn of the maker loop: return from the function with an error, leave the loop, or go
  on with a maker index; the remaining volume of the taker is carried along.
\<close>

datatype 'e match_step = MatchReturn OmError 'e | MatchBreak u64 'e | MatchContinue nat u64 'e

record match_args =
  ma_product :: u16
  ma_taker :: nat
  ma_price :: u64
  ma_ts :: u64

definition match_record :: "match_args \<Rightarrow> nat \<Rightarrow> u64 \<Rightarrow> ('h, 'w, 'u) OmEngine \<Rightarrow> OmWalMatch" where
  "match_record a m qty e = \<lparr>wm_maker_id = ucast (order_id (eslot e m)), wm_taker_id = ucast (order_id (eslot e (ma_taker a))),
     wm_price = ma_price a, wm_volume = qty, wm_timestamp_ns = ma_ts a, wm_product_id = ma_product a,
     wm_reserved = (0, 0, 0)\<rparr>"

text \<open>The maker is cancelled, and the taker too when both are to be.\<close>

definition match_cancel ::
  "('h, 'i, 'w) env \<Rightarrow> match_args \<Rightarrow> nat \<Rightarrow> nat \<Rightarrow> u64 \<Rightarrow> bool \<Rightarrow> ('h, 'w, 'u) OmEngine
    \<Rightarrow> ('h, 'w, 'u) OmEngine match_step" where
  "match_cancel E a m next_maker_idx rem both e =
     (case engine_log (\<lambda>w. om_wal_cancel (env_os E) w (order_id (eslot e m)) m (ma_product a)) e of (ok, e1) \<Rightarrow>
        if \<not> ok then MatchReturn OM_ERR_WAL_WRITE e1
        else let e2 = notify (on_cancel (callbacks e1)) (\<lambda>f. f (eslot e1 m)) e1;
                 e3 = remove_order E (ma_product a) m e2
             in if both then MatchBreak 0 (set_volume (ma_taker a) 0 e3)
                else MatchContinue next_maker_idx rem e3)"

text \<open>Both volumes are reduced without a trade.\<close>

definition match_decrement ::
  "('h, 'i, 'w) env \<Rightarrow> match_args \<Rightarrow> nat \<Rightarrow> nat \<Rightarrow> u64 \<Rightarrow> u64 \<Rightarrow> ('h, 'w, 'u) OmEngine
    \<Rightarrow> ('h, 'w, 'u) OmEngine match_step" where
  "match_decrement E a m next_maker_idx rem dec_qty e =
     (case engine_log (\<lambda>w. om_wal_match (env_os E) w (match_record a m dec_qty e)) e of (ok, e1) \<Rightarrow>
        if \<not> ok then MatchReturn OM_ERR_WAL_WRITE e1
        else let rem' = rem - dec_qty;
                 e2 = set_volume (ma_taker a) rem' (set_volume m (volume_remain (eslot e1 m) - dec_qty) e1);
                 e3 = notify (on_decrement_cancel (callbacks e2)) (\<lambda>f. f (eslot e2 m) (eslot e2 (ma_taker a)) dec_qty) e2
             in if volume_remain (eslot e3 m) = 0
                then if rem' = 0 then MatchBreak rem' (remove_order E (ma_product a) m e3)
                     else MatchContinue next_maker_idx rem' (remove_order E (ma_product a) m e3)
                else if rem' = 0 then MatchBreak rem' e3 else MatchContinue m rem' e3)"

text \<open>A trade of \<open>qty\<close> at the price of the level.\<close>

definition match_trade ::
  "('h, 'i, 'w) env \<Rightarrow> match_args \<Rightarrow> nat \<Rightarrow> nat \<Rightarrow> u64 \<Rightarrow> u64 \<Rightarrow> ('h, 'w, 'u) OmEngine
    \<Rightarrow> ('h, 'w, 'u) OmEngine match_step" where
  "match_trade E a m next_maker_idx rem qty e =
     (case engine_log (\<lambda>w. om_wal_match (env_os E) w (match_record a m qty e)) e of (ok, e1) \<Rightarrow>
        if \<not> ok then MatchReturn OM_ERR_WAL_WRITE e1
        else let rem' = rem - qty;
                 e2 = set_volume (ma_taker a) rem' (set_volume m (volume_remain (eslot e1 m) - qty) e1);
                 e3 = notify (on_match (callbacks e2)) (\<lambda>f. f (eslot e2 (ma_taker a)) (ma_price a) qty)
                       (notify (on_match (callbacks e2)) (\<lambda>f. f (eslot e2 m) (ma_price a) qty) e2);
                 e4 = notify (on_deal (callbacks e3)) (\<lambda>f. f (eslot e3 m) (eslot e3 (ma_taker a)) (ma_price a) qty) e3
             in if volume_remain (eslot e4 m) = 0
                then MatchContinue next_maker_idx rem' (remove_order E (ma_product a) m
                       (notify (on_filled (callbacks e4)) (\<lambda>f. f (eslot e4 m)) e4))
                else if rem' = 0 then MatchBreak rem' e4 else MatchContinue m rem' e4)"

definition match_maker ::
  "('h, 'i, 'w) env \<Rightarrow> bool \<Rightarrow> match_args \<Rightarrow> nat \<Rightarrow> u64 \<Rightarrow> ('h, 'w, 'u) OmEngine
    \<Rightarrow> ('h, 'w, 'u) OmEngine match_step" where
  "match_maker E exclude_same_org a m rem e =
     (let next_maker_idx = qnext OM_Q2_TIME_FIFO (slab (orderbook e)) m;
          maker_remaining = volume_remain (eslot e m)
      in if exclude_same_org \<and> org (eslot e m) = org (eslot e (ma_taker a)) then MatchContinue next_maker_idx rem e
         else if maker_remaining = 0 then MatchContinue next_maker_idx rem (remove_order E (ma_product a) m e)
         else let matchable = (if rem < maker_remaining then rem else maker_remaining)
           in case can_match (callbacks e) of
                None \<Rightarrow> if matchable = 0 then MatchContinue next_maker_idx rem e else match_trade E a m next_maker_idx rem matchable e
              | Some f \<Rightarrow>
                (case f (eslot e m) (eslot e (ma_taker a)) (user_ctx (callbacks e)) of (allowed, u) \<Rightarrow>
                   let e1 = set_user u e
                   in if allowed = OM_CAN_MATCH_CANCEL_MAKER \<or> allowed = OM_CAN_MATCH_CANCEL_BOTH
                      then match_cancel E a m next_maker_idx rem (allowed = OM_CAN_MATCH_CANCEL_BOTH) e1
                      else if allowed = OM_CAN_MATCH_DECREMENT_CANCEL
                      then match_decrement E a m next_maker_idx rem matchable e1
                      else if allowed = 0 then MatchContinue next_maker_idx rem e1
                      else let qty = (if allowed < matchable then allowed else matchable)
                        in if qty = 0 then MatchContinue next_maker_idx rem e1
                           else match_trade E a m next_maker_idx rem qty e1))"

partial_function (option) match_level_loop ::
  "('h, 'i, 'w) env \<Rightarrow> bool \<Rightarrow> match_args \<Rightarrow> nat \<Rightarrow> u64 \<Rightarrow> ('h, 'w, 'u) OmEngine
    \<Rightarrow> (OmError \<times> ('h, 'w, 'u) OmEngine + u64 \<times> ('h, 'w, 'u) OmEngine) option" where
  "match_level_loop E exclude a maker_idx rem e =
     (if maker_idx \<noteq> OM_SLOT_IDX_NULL \<and> 0 < rem
      then case om_slot_from_idx (slab (orderbook e)) maker_idx of None \<Rightarrow> Some (Inr (rem, e))
        | Some m \<Rightarrow>
          (case match_maker E exclude a m rem e of
             MatchReturn rc e' \<Rightarrow> Some (Inl (rc, e'))
           | MatchBreak rem' e' \<Rightarrow> Some (Inr (rem', e'))
           | MatchContinue i rem' e' \<Rightarrow> match_level_loop E exclude a i rem' e')
      else Some (Inr (rem, e)))"

text \<open>The first maker of a level: its head, or the first order of another organisation.\<close>

definition first_maker ::
  "bool \<Rightarrow> nat \<Rightarrow> nat \<Rightarrow> ('h, 'w, 'u) OmEngine \<Rightarrow> (nat \<times> ('h, 'w, 'u) OmEngine) option" where
  "first_maker exclude taker level_idx e =
     (if exclude \<and> org (eslot e level_idx) = org (eslot e taker)
      then case om_orderbook_first_other_org (orderbook e) level_idx (org (eslot e taker)) of
          None \<Rightarrow> None
        | Some (i, c) \<Rightarrow> Some (i, e\<lparr>orderbook := c\<rparr>)
      else Some (level_idx, e))"

partial_function (option) match_levels_loop ::
  "('h, 'i, 'w) env \<Rightarrow> bool \<Rightarrow> u16 \<Rightarrow> nat \<Rightarrow> u64 \<Rightarrow> nat \<Rightarrow> u64 \<Rightarrow> ('h, 'w, 'u) OmEngine
    \<Rightarrow> (OmError \<times> ('h, 'w, 'u) OmEngine + u64 \<times> ('h, 'w, 'u) OmEngine) option" where
  "match_levels_loop E exclude pid taker ts level_idx rem e =
     (if 0 < rem \<and> level_idx \<noteq> OM_SLOT_IDX_NULL
      then case om_slot_from_idx (slab (orderbook e)) level_idx of None \<Rightarrow> Some (Inr (rem, e))
        | Some level \<Rightarrow>
          let level_price = price (eslot e level);
              taker_price = price (eslot e taker)
          in if (if OM_IS_BID (flags (eslot e taker)) then taker_price < level_price else level_price < taker_price)
             then Some (Inr (rem, e))
             else let next_level_idx = qnext OM_Q1_PRICE_LADDER (slab (orderbook e)) level
               in case first_maker exclude taker level_idx e of None \<Rightarrow> None
                  | Some (maker_idx, e1) \<Rightarrow>
                    (case match_level_loop E exclude
                        \<lparr>ma_product = pid, ma_taker = taker, ma_price = level_price, ma_ts = ts\<rparr> maker_idx rem e1 of
                       None \<Rightarrow> None
                     | Some (Inl r) \<Rightarrow> Some (Inl r)
                     | Some (Inr (rem', e2)) \<Rightarrow>
                       if rem' = 0 then Some (Inr (rem', e2))
                       else match_levels_loop E exclude pid taker ts next_level_idx rem' e2)
      else Some (Inr (rem, e)))"

text \<open>What happens to a taker with volume left: booked, or cancelled by the pre-booking callback.\<close>

definition book_taker ::
  "('h, 'i, 'w) env \<Rightarrow> u16 \<Rightarrow> nat \<Rightarrow> ('h, 'w, 'u) OmEngine \<Rightarrow> OmError \<times> ('h, 'w, 'u) OmEngine" where
  "book_taker E pid taker e =
     (case (case pre_booked (callbacks e) of None \<Rightarrow> (True, e)
            | Some f \<Rightarrow> (case f (eslot e taker) (user_ctx (callbacks e)) of (ok, u) \<Rightarrow> (ok, set_user u e))) of
       (ok, e1) \<Rightarrow>
         if \<not> ok then (OM_OK, notify (on_cancel (callbacks e1)) (\<lambda>f. f (eslot e1 taker)) e1)
         else case om_orderbook_insert E (orderbook e1) pid taker of (rc, c) \<Rightarrow>
           let e2 = e1\<lparr>orderbook := c\<rparr>
           in (rc, if rc = OM_OK then notify (on_booked (callbacks e2)) (\<lambda>f. f (eslot e2 taker)) e2 else e2))"

definition engine_match ::
  "('h, 'i, 'w) env \<Rightarrow> ('h, 'w, 'u) OmEngine \<Rightarrow> u16 \<Rightarrow> nat \<Rightarrow> bool \<Rightarrow> (OmError \<times> ('h, 'w, 'u) OmEngine) option" where
  "engine_match E e pid taker exclude_same_org =
     (let taker_remaining = volume_remain (eslot e taker)
      in if taker_remaining = 0 then Some (OM_OK, e)
         else let maker_is_bid = (\<not> OM_IS_BID (flags (eslot e taker)));
                  (ts, e1) = (case wal (orderbook e) of None \<Rightarrow> (0, e)
                    | Some w \<Rightarrow> (case os_realtime (env_os E) (world w) of (t, W) \<Rightarrow>
                        (t, upd_book (\<lambda>c. c\<lparr>wal := Some (w\<lparr>world := W\<rparr>)\<rparr>) e)));
                  level_idx = (case om_orderbook_get_best_head (orderbook e1) pid maker_is_bid of
                    None \<Rightarrow> OM_SLOT_IDX_NULL | Some l \<Rightarrow> l)
           in case match_levels_loop E exclude_same_org pid taker ts level_idx taker_remaining e1 of
                None \<Rightarrow> None
              | Some (Inl (rc, e2)) \<Rightarrow> Some (rc, e2)
              | Some (Inr (rem, e2)) \<Rightarrow> Some (if rem = 0 then (OM_OK, e2) else book_taker E pid taker e2))"

definition om_engine_match ::
  "('h, 'i, 'w) env \<Rightarrow> ('h, 'w, 'u) OmEngine \<Rightarrow> u16 \<Rightarrow> nat \<Rightarrow> (OmError \<times> ('h, 'w, 'u) OmEngine) option" where
  "om_engine_match E e pid taker = engine_match E e pid taker False"

definition om_engine_match_excluding_org ::
  "('h, 'i, 'w) env \<Rightarrow> ('h, 'w, 'u) OmEngine \<Rightarrow> u16 \<Rightarrow> nat \<Rightarrow> (OmError \<times> ('h, 'w, 'u) OmEngine) option" where
  "om_engine_match_excluding_org E e pid taker = engine_match E e pid taker True"

section \<open>Cancellation, deactivation and activation\<close>

definition om_engine_cancel ::
  "('h, 'i, 'w) env \<Rightarrow> ('h, 'w, 'u) OmEngine \<Rightarrow> u32 \<Rightarrow> bool \<times> ('h, 'w, 'u) OmEngine" where
  "om_engine_cancel E e oid =
     (case om_hash_get (env_hash E) (order_hashmap (orderbook e)) (ucast oid) of None \<Rightarrow> (False, e)
      | Some entry \<Rightarrow>
        (case om_slot_from_idx (slab (orderbook e)) (slot_idx entry) of None \<Rightarrow> (False, e)
         | Some order \<Rightarrow>
           (case engine_log (\<lambda>w. om_wal_cancel (env_os E) w oid (slot_idx entry) (product_id entry)) e of (ok, e1) \<Rightarrow>
              if \<not> ok then (False, e1)
              else let e2 = notify (on_cancel (callbacks e1)) (\<lambda>f. f (eslot e1 order)) e1
                   in case om_orderbook_remove_slot E (orderbook e2) (product_id entry) order of (r, c) \<Rightarrow>
                        (r, e2\<lparr>orderbook := c\<rparr>))))"

definition set_status :: "nat \<Rightarrow> u16 \<Rightarrow> ('h, 'w, 'u) OmEngine \<Rightarrow> ('h, 'w, 'u) OmEngine" where
  "set_status i st = upd_book (upd_slab (upd_slot i (\<lambda>sl. sl\<lparr>flags := OM_SET_STATUS (flags sl) st\<rparr>)))"

definition om_engine_deactivate ::
  "('h, 'i, 'w) env \<Rightarrow> ('h, 'w, 'u) OmEngine \<Rightarrow> u32 \<Rightarrow> bool \<times> ('h, 'w, 'u) OmEngine" where
  "om_engine_deactivate E e oid =
     (case om_hash_get (env_hash E) (order_hashmap (orderbook e)) (ucast oid) of None \<Rightarrow> (False, e)
      | Some entry \<Rightarrow>
        (case om_slot_from_idx (slab (orderbook e)) (slot_idx entry) of None \<Rightarrow> (False, e)
         | Some order \<Rightarrow>
           if flags (eslot e order) AND OM_STATUS_MASK = OM_STATUS_DEACTIVATED then (False, e)
           else (case engine_log (\<lambda>w. om_wal_deactivate (env_os E) w oid (slot_idx entry) (product_id entry)) e of (ok, e1) \<Rightarrow>
              if \<not> ok then (False, e1)
              else case om_orderbook_unlink_slot E (orderbook e1) (product_id entry) order of (r, c) \<Rightarrow>
                let e2 = e1\<lparr>orderbook := c\<rparr>
                in if \<not> r then (False, e2) else (True, set_status order OM_STATUS_DEACTIVATED e2))))"

definition om_engine_activate ::
  "('h, 'i, 'w) env \<Rightarrow> ('h, 'w, 'u) OmEngine \<Rightarrow> u32 \<Rightarrow> (bool \<times> ('h, 'w, 'u) OmEngine) option" where
  "om_engine_activate E e oid =
     (case om_hash_get (env_hash E) (order_hashmap (orderbook e)) (ucast oid) of None \<Rightarrow> Some (False, e)
      | Some entry \<Rightarrow>
        (case om_slot_from_idx (slab (orderbook e)) (slot_idx entry) of None \<Rightarrow> Some (False, e)
         | Some order \<Rightarrow>
           if flags (eslot e order) AND OM_STATUS_MASK \<noteq> OM_STATUS_DEACTIVATED then Some (False, e)
           else (case engine_log (\<lambda>w. om_wal_activate (env_os E) w oid (slot_idx entry) (product_id entry)) e of (ok, e1) \<Rightarrow>
              if \<not> ok then Some (False, e1)
              else let e2 = upd_book (\<lambda>c. c\<lparr>order_hashmap := snd (om_hash_remove (env_hash E) (order_hashmap c) (ucast oid))\<rparr>) e1;
                       e3 = set_status order OM_STATUS_NEW e2
                   in case om_engine_match E e3 (product_id entry) order of None \<Rightarrow> None
                      | Some (rc, e4) \<Rightarrow>
                        Some (rc = OM_OK,
                          if rc = OM_OK \<and> volume_remain (eslot e4 order) = 0
                          then upd_book (upd_slab (\<lambda>s. om_slab_free s order)) e4 else e4))))"

definition om_engine_cancel_org_product ::
  "('h, 'i, 'w) env \<Rightarrow> ('h, 'w, 'u) OmEngine \<Rightarrow> u16 \<Rightarrow> u16 \<Rightarrow> (u32 \<times> ('h, 'w, 'u) OmEngine) option" where
  "om_engine_cancel_org_product E e pid og =
     (case om_orderbook_cancel_org_product E (orderbook e) pid og of None \<Rightarrow> None
      | Some (n, c) \<Rightarrow> Some (n, e\<lparr>orderbook := c\<rparr>))"

definition om_engine_cancel_org_all ::
  "('h, 'i, 'w) env \<Rightarrow> ('h, 'w, 'u) OmEngine \<Rightarrow> u16 \<Rightarrow> (u32 \<times> ('h, 'w, 'u) OmEngine) option" where
  "om_engine_cancel_org_all E e og =
     (case om_orderbook_cancel_org_all E (orderbook e) og of None \<Rightarrow> None
      | Some (n, c) \<Rightarrow> Some (n, e\<lparr>orderbook := c\<rparr>))"

partial_function (option) engine_cancel_level_loop ::
  "('h, 'i, 'w) env \<Rightarrow> nat \<Rightarrow> u32 \<Rightarrow> ('h, 'w, 'u) OmEngine \<Rightarrow> (u32 \<times> ('h, 'w, 'u) OmEngine) option" where
  "engine_cancel_level_loop E order_idx cancelled e =
     (if order_idx = OM_SLOT_IDX_NULL then Some (cancelled, e)
      else case om_slot_from_idx (slab (orderbook e)) order_idx of None \<Rightarrow> Some (cancelled, e)
        | Some order \<Rightarrow>
          let next_order_idx = qnext OM_Q2_TIME_FIFO (slab (orderbook e)) order;
              e1 = notify (on_cancel (callbacks e)) (\<lambda>f. f (eslot e order)) e;
              r = om_orderbook_cancel E (orderbook e1) (order_id (eslot e1 order))
          in engine_cancel_level_loop E next_order_idx (if fst r then cancelled + 1 else cancelled)
               (e1\<lparr>orderbook := snd r\<rparr>))"

partial_function (option) engine_cancel_side_loop ::
  "('h, 'i, 'w) env \<Rightarrow> nat \<Rightarrow> u32 \<Rightarrow> ('h, 'w, 'u) OmEngine \<Rightarrow> (u32 \<times> ('h, 'w, 'u) OmEngine) option" where
  "engine_cancel_side_loop E level_idx cancelled e =
     (if level_idx = OM_SLOT_IDX_NULL then Some (cancelled, e)
      else case om_slot_from_idx (slab (orderbook e)) level_idx of None \<Rightarrow> Some (cancelled, e)
        | Some level \<Rightarrow>
          let next_level_idx = qnext OM_Q1_PRICE_LADDER (slab (orderbook e)) level
          in case engine_cancel_level_loop E level_idx cancelled e of None \<Rightarrow> None
             | Some r \<Rightarrow> engine_cancel_side_loop E next_level_idx (fst r) (snd r))"

definition om_engine_cancel_product_side ::
  "('h, 'i, 'w) env \<Rightarrow> ('h, 'w, 'u) OmEngine \<Rightarrow> u16 \<Rightarrow> bool \<Rightarrow> (u32 \<times> ('h, 'w, 'u) OmEngine) option" where
  "om_engine_cancel_product_side E e pid is_bid =
     (if \<not> ucast pid < max_products (orderbook e) then Some (0, e)
      else engine_cancel_side_loop E (book_head (orderbook e) pid is_bid) 0 e)"

definition om_engine_cancel_product ::
  "('h, 'i, 'w) env \<Rightarrow> ('h, 'w, 'u) OmEngine \<Rightarrow> u16 \<Rightarrow> (u32 \<times> ('h, 'w, 'u) OmEngine) option" where
  "om_engine_cancel_product E e pid =
     (case om_engine_cancel_product_side E e pid True of None \<Rightarrow> None
      | Some (n, e1) \<Rightarrow> (case om_engine_cancel_product_side E e1 pid False of None \<Rightarrow> None
          | Some (m, e2) \<Rightarrow> Some (n + m, e2)))"

end
