(* ===== verification/Engine_Step.thy ===== *)
theory Engine_Step
  imports Engine
begin

text \<open>
  The primitive steps of the matching engine and one turn of its maker loop: what they keep of
  the book, and how they move volumes.
\<close>

section \<open>Frames of the engine's primitive steps\<close>

definition same_cb :: "'u OmEngineCallbacks \<Rightarrow> 'u OmEngineCallbacks \<Rightarrow> bool" where
  "same_cb cb cb' \<longleftrightarrow> (\<exists>u. cb' = cb\<lparr>user_ctx := u\<rparr>)"

lemma same_cb_refl [simp]: "same_cb cb cb"
  unfolding same_cb_def by (rule exI [of _ "user_ctx cb"]) simp

lemma same_cb_user [simp]: "same_cb cb (cb\<lparr>user_ctx := u\<rparr>)"
  unfolding same_cb_def by (rule exI) (rule refl)

lemma same_cb_trans: "same_cb a b \<Longrightarrow> same_cb b c \<Longrightarrow> same_cb a c"
  by (auto simp: same_cb_def)

lemma same_cbD:
  assumes "same_cb cb cb'"
  shows "can_match cb' = can_match cb" "on_match cb' = on_match cb" "on_deal cb' = on_deal cb"
    "on_booked cb' = on_booked cb" "on_filled cb' = on_filled cb" "on_cancel cb' = on_cancel cb"
    "on_decrement_cancel cb' = on_decrement_cancel cb" "pre_booked cb' = pre_booked cb"
  using assms by (auto simp: same_cb_def)

text \<open>A quiet step changes the log and the user context only.\<close>

definition quiet :: "('h, 'w, 'u) OmEngine \<Rightarrow> ('h, 'w, 'u) OmEngine \<Rightarrow> bool" where
  "quiet e e' \<longleftrightarrow> (\<exists>w. orderbook e' = (orderbook e)\<lparr>wal := w\<rparr> \<and> (w = None \<longleftrightarrow> wal (orderbook e) = None)) \<and>
     same_cb (callbacks e) (callbacks e')"

lemma book_inv_wal [simp]: "book_inv E (c\<lparr>wal := w\<rparr>) B D F = book_inv E c B D F"
  by (simp add: book_inv_def book_map_def)

lemma quietD:
  assumes "quiet e e'"
  shows "slab (orderbook e') = slab (orderbook e)" "eslot e' i = eslot e i"
    "book_inv E (orderbook e') B D F = book_inv E (orderbook e) B D F"
    "max_products (orderbook e') = max_products (orderbook e)"
    "wal (orderbook e') = None \<longleftrightarrow> wal (orderbook e) = None" "same_cb (callbacks e) (callbacks e')"
proof -
  obtain w where w: "orderbook e' = (orderbook e)\<lparr>wal := w\<rparr>" "w = None \<longleftrightarrow> wal (orderbook e) = None"
    using assms unfolding quiet_def by (elim exE conjE) (rule that)
  show "slab (orderbook e') = slab (orderbook e)" "eslot e' i = eslot e i"
    "book_inv E (orderbook e') B D F = book_inv E (orderbook e) B D F"
    "max_products (orderbook e') = max_products (orderbook e)" by (simp_all add: eslot_def w(1))
  show "wal (orderbook e') = None \<longleftrightarrow> wal (orderbook e) = None" using w(2) by (simp add: w(1))
  show "same_cb (callbacks e) (callbacks e')" using assms by (simp add: quiet_def)
qed

lemma quietI:
  "orderbook e' = (orderbook e)\<lparr>wal := w\<rparr> \<Longrightarrow> (w = None \<longleftrightarrow> wal (orderbook e) = None) \<Longrightarrow>
    same_cb (callbacks e) (callbacks e') \<Longrightarrow> quiet e e'"
  unfolding quiet_def by (intro conjI exI [of _ w])

lemma quiet_refl [simp]: "quiet e e"
  by (rule quietI [where w = "wal (orderbook e)"]) simp_all

lemma quiet_trans: "quiet e e' \<Longrightarrow> quiet e' e'' \<Longrightarrow> quiet e e''"
proof -
  assume a: "quiet e e'" "quiet e' e''"
  then obtain w w' where "orderbook e' = (orderbook e)\<lparr>wal := w\<rparr>" "w = None \<longleftrightarrow> wal (orderbook e) = None"
    "orderbook e'' = (orderbook e')\<lparr>wal := w'\<rparr>" "w' = None \<longleftrightarrow> wal (orderbook e') = None"
    unfolding quiet_def by (elim exE conjE) (rule that)
  then show "quiet e e''"
    using same_cb_trans [OF quietD(6) [OF a(1)] quietD(6) [OF a(2)]] by (intro quietI [where w = w']) simp_all
qed

lemma quiet_set_user [simp]: "quiet e (set_user u e)"
  by (rule quietI [where w = "wal (orderbook e)"]) (simp_all add: set_user_def)

lemma quiet_notify [simp]: "quiet e (notify f app e)"
  by (cases f) (simp_all add: notify_def)

lemma quiet_log: "engine_log f e = (ok, e') \<Longrightarrow> quiet e e'"
proof (cases "wal (orderbook e)")
  case None
  then show "engine_log f e = (ok, e') \<Longrightarrow> quiet e e'" by (simp add: engine_log_def)
next
  case (Some w)
  assume "engine_log f e = (ok, e')"
  then obtain w' where "e' = upd_book (\<lambda>c. c\<lparr>wal := Some w'\<rparr>) e" using Some by (auto simp: engine_log_def split: prod.splits)
  then show "quiet e e'" by (intro quietI [where w = "Some w'"]) (simp_all add: upd_book_def Some)
qed

lemma eslot_upd [simp]:
  "eslot (upd_book (upd_slab (upd_slot i f)) e) j = (if j = i then f (eslot e i) else eslot e j)"
  by (simp add: eslot_def upd_book_def)

lemma eslot_set_volume [simp]:
  "eslot (set_volume i v e) j = (if j = i then (eslot e i)\<lparr>volume_remain := v\<rparr> else eslot e j)"
  by (simp add: set_volume_def)

lemma set_volume_simps [simp]:
  "callbacks (set_volume i v e) = callbacks e" "wal (orderbook (set_volume i v e)) = wal (orderbook e)"
  "max_products (orderbook (set_volume i v e)) = max_products (orderbook e)"
  "a_capacity (slab_a (slab (orderbook (set_volume i v e)))) = a_capacity (slab_a (slab (orderbook e)))"
  by (simp_all add: set_volume_def upd_book_def upd_slot_def)

lemma book_inv_upd_slot:
  assumes inv: "book_inv E c B D F" and f: "\<And>sl. same_place (f sl) sl" "\<And>sl. order_id (f sl) = order_id sl"
  shows "book_inv E (upd_slab (upd_slot i f) c) B D F"
proof -
  have sh: "book_shape c B D F" and m: "book_map E c B D" using inv by (auto simp: book_inv_def)
  have q: "queue_nodes (f sl) = queue_nodes sl" for sl using f(1) by (simp add: same_place_def)
  have "book_shape (c\<lparr>slab := upd_slot i f (slab c)\<rparr>) B D F"
  proof (rule shape_slots [OF sh])
    show "\<forall>j \<in> resting B. same_place (slot_at (upd_slot i f (slab c)) j) (slot_at (slab c) j)"
      using f(1) by (auto simp: same_place_def)
    show "slab_inv (upd_slot i f (slab c)) F" using book_shapeD(1) [OF sh] by (simp add: slab_inv_upd q)
  qed (simp_all add: upd_slot_def)
  moreover have "book_map E (c\<lparr>slab := upd_slot i f (slab c)\<rparr>) B D"
    using f(2) by (intro book_map_slots [OF m]) simp_all
  ultimately show ?thesis by (simp add: book_inv_def upd_slab_def)
qed

lemma set_volume_inv:
  "book_inv E (orderbook e) B D F \<Longrightarrow> book_inv E (orderbook (set_volume i v e)) B D F"
  unfolding set_volume_def upd_book_def by (simp, rule book_inv_upd_slot) (simp_all add: same_place_def)

section \<open>The state during a match\<close>

text \<open>
  The taker \<open>t\<close> is a slot in use outside the book.  \<open>prog M t e e'\<close>: from \<open>e\<close> to \<open>e'\<close> only
  remaining volumes of makers in \<open>M\<close> and of the taker went down, by the same total unless
  the matching predicate asks for both to be cancelled.
\<close>

definition matching ::
  "('h, 'i, 'w) env \<Rightarrow> u16 \<Rightarrow> nat \<Rightarrow> ('h, 'w, 'u) OmEngine \<Rightarrow> levels \<Rightarrow> nat set \<Rightarrow> nat list \<Rightarrow> bool" where
  "matching E pid t e B D F \<longleftrightarrow> book_inv E (orderbook e) B D F \<and> ucast pid < max_products (orderbook e) \<and>
     t \<notin> resting B \<and> t \<notin> set F \<and> t \<notin> D \<and> t < a_capacity (slab_a (slab (orderbook e)))"

definition ident :: "OmSlabSlot \<Rightarrow> u64 \<times> u64 \<times> u16 \<times> u16 \<times> u32 \<times> u8 list" where
  "ident sl = (price sl, volume sl, org sl, flags sl, order_id sl, user_data sl)"

definition vol :: "('h, 'w, 'u) OmEngine \<Rightarrow> nat \<Rightarrow> nat" where
  "vol e i = unat (volume_remain (eslot e i))"

definition never_both :: "'u OmEngineCallbacks \<Rightarrow> bool" where
  "never_both cb \<longleftrightarrow> (\<forall>f m t u. can_match cb = Some f \<longrightarrow> fst (f m t u) \<noteq> OM_CAN_MATCH_CANCEL_BOTH)"

definition prog :: "nat set \<Rightarrow> nat \<Rightarrow> ('h, 'w, 'u) OmEngine \<Rightarrow> ('h, 'w, 'u) OmEngine \<Rightarrow> bool" where
  "prog M t e e' \<longleftrightarrow> (\<forall>j. ident (eslot e' j) = ident (eslot e j)) \<and> (\<forall>j. vol e' j \<le> vol e j) \<and>
     (\<forall>j. j \<notin> M \<longrightarrow> j \<noteq> t \<longrightarrow> vol e' j = vol e j) \<and>
     same_cb (callbacks e) (callbacks e') \<and>
     (wal (orderbook e') = None \<longleftrightarrow> wal (orderbook e) = None) \<and>
     (never_both (callbacks e) \<longrightarrow> (\<Sum>j\<in>M. vol e j) + vol e' t = (\<Sum>j\<in>M. vol e' j) + vol e t)"

lemma quiet_matching: "quiet e e' \<Longrightarrow> matching E pid t e' B D F = matching E pid t e B D F"
  by (simp add: matching_def quietD)

lemma quiet_prog: "quiet e e' \<Longrightarrow> prog M t e e'"
  by (simp add: prog_def quietD vol_def)

lemma prog_trans: "prog M t e e' \<Longrightarrow> prog M t e' e'' \<Longrightarrow> prog M t e e''"
proof -
  assume a: "prog M t e e'" and b: "prog M t e' e''"
  have u: "same_cb (callbacks e) (callbacks e')" "same_cb (callbacks e') (callbacks e'')"
    using a b by (simp_all add: prog_def)
  have nb: "never_both (callbacks e') = never_both (callbacks e)" using same_cbD(1) [OF u(1)] by (simp add: never_both_def)
  have "vol e'' j \<le> vol e j" for j using a b by (meson prog_def le_trans)
  moreover have "same_cb (callbacks e) (callbacks e'')" using same_cb_trans [OF u] .
  moreover have "(\<Sum>j\<in>M. vol e j) + vol e'' t = (\<Sum>j\<in>M. vol e'' j) + vol e t" if n: "never_both (callbacks e)"
  proof -
    have "(\<Sum>j\<in>M. vol e j) + vol e' t = (\<Sum>j\<in>M. vol e' j) + vol e t" using a n by (simp add: prog_def)
    moreover have "(\<Sum>j\<in>M. vol e' j) + vol e'' t = (\<Sum>j\<in>M. vol e'' j) + vol e' t" using b n nb by (simp add: prog_def)
    ultimately show ?thesis by linarith
  qed
  ultimately show "prog M t e e''" using a b unfolding prog_def nb by simp
qed

lemma ident_eqD:
  assumes "ident x = ident y"
  shows "price x = price y" "org x = org y" "flags x = flags y" "order_id x = order_id y"
  using assms by (auto simp: ident_def)

lemma progD:
  assumes "prog M t e e'"
  shows "price (eslot e' j) = price (eslot e j)" "org (eslot e' j) = org (eslot e j)"
    "flags (eslot e' j) = flags (eslot e j)" "order_id (eslot e' j) = order_id (eslot e j)"
    "vol e' j \<le> vol e j" "j \<notin> M \<Longrightarrow> j \<noteq> t \<Longrightarrow> vol e' j = vol e j"
    "wal (orderbook e') = None \<longleftrightarrow> wal (orderbook e) = None"
proof -
  have i: "ident (eslot e' j) = ident (eslot e j)" for j using assms by (simp add: prog_def)
  show "price (eslot e' j) = price (eslot e j)" "org (eslot e' j) = org (eslot e j)"
    "flags (eslot e' j) = flags (eslot e j)" "order_id (eslot e' j) = order_id (eslot e j)"
    using ident_eqD [OF i] by simp_all
  show "vol e' j \<le> vol e j" "j \<notin> M \<Longrightarrow> j \<noteq> t \<Longrightarrow> vol e' j = vol e j"
    "wal (orderbook e') = None \<longleftrightarrow> wal (orderbook e) = None" using assms by (simp_all add: prog_def)
qed

lemma prog_no_both:
  assumes "prog M t e e'"
  shows "never_both (callbacks e') = never_both (callbacks e)" "can_match (callbacks e') = can_match (callbacks e)"
proof -
  have "same_cb (callbacks e) (callbacks e')" using assms by (simp add: prog_def)
  from same_cbD(1) [OF this] show "never_both (callbacks e') = never_both (callbacks e)" "can_match (callbacks e') = can_match (callbacks e)"
    by (simp_all add: never_both_def)
qed

text \<open>Removing a maker from the book.\<close>

lemma remove_order_step:
  assumes K: "khash_ok (env_hash E)" "kavl_ok E" and M: "matching E pid t e B D F" and m: "m \<in> set (concat (B pid b))"
  shows "matching E pid t (remove_order E pid m e) (upd_levels B pid b (spec_remove m (B pid b))) D (m # F)"
    "prog X t e (remove_order E pid m e)" "volume_remain (eslot (remove_order E pid m e) j) = volume_remain (eslot e j)"
proof -
  have inv: "book_inv E (orderbook e) B D F" using M by (simp add: matching_def)
  have sh: "book_shape (orderbook e) B D F" using inv by (simp add: book_inv_def)
  obtain c' where c': "om_orderbook_remove_slot E (orderbook e) pid m = (True, c')"
    "book_inv E c' (upd_levels B pid b (spec_remove m (B pid b))) D (m # F)" "wal c' = wal (orderbook e)"
    "\<forall>j. core (slot_at (slab c') j) = core (slot_at (slab (orderbook e)) j)" "max_products c' = max_products (orderbook e)"
    "a_capacity (slab_a (slab c')) = a_capacity (slab_a (slab (orderbook e)))"
    using orderbook_remove_slot [OF K inv m] by blast
  have e': "remove_order E pid m e = e\<lparr>orderbook := c'\<rparr>" by (simp add: remove_order_def upd_book_def c'(1))
  have sl: "core (eslot (remove_order E pid m e) j) = core (eslot e j)" for j using c'(4) by (simp add: e' eslot_def)
  show v: "volume_remain (eslot (remove_order E pid m e) j) = volume_remain (eslot e j)" for j using core_eqD(3) [OF sl] .
  have "ident (eslot (remove_order E pid m e) j) = ident (eslot e j)" for j using core_eqD [OF sl] by (simp add: ident_def)
  then show "prog X t e (remove_order E pid m e)" using c'(3) by (simp add: prog_def vol_def v) (simp add: e')
  have "resting (upd_levels B pid b (spec_remove m (B pid b))) = resting B - {m}"
    using resting_remove [OF set_spec_remove spec_remove_facts(4) [OF sh m]] .
  moreover have "m \<in> resting B" using m by (rule restingI)
  ultimately show "matching E pid t (remove_order E pid m e) (upd_levels B pid b (spec_remove m (B pid b))) D (m # F)"
    using M c'(2,5,6) by (auto simp: matching_def e')
qed

text \<open>Taking the same quantity off a maker and the taker.\<close>

definition reduce_both :: "nat \<Rightarrow> nat \<Rightarrow> u64 \<Rightarrow> ('h, 'w, 'u) OmEngine \<Rightarrow> ('h, 'w, 'u) OmEngine" where
  "reduce_both m t q e = set_volume t (volume_remain (eslot e t) - q) (set_volume m (volume_remain (eslot e m) - q) e)"

lemma reduce_both_volume [simp]:
  assumes "m \<noteq> t"
  shows "volume_remain (eslot (reduce_both m t q e) j) =
    (if j = m \<or> j = t then volume_remain (eslot e j) - q else volume_remain (eslot e j))"
  using assms by (simp add: reduce_both_def)

lemma reduce_both_step:
  assumes M: "matching E pid t e B D F" and m: "m \<in> M" "finite M" "t \<notin> M"
    and q: "q \<le> volume_remain (eslot e m)" "q \<le> volume_remain (eslot e t)"
  shows "matching E pid t (reduce_both m t q e) B D F" "prog M t e (reduce_both m t q e)"
proof -
  let ?e = "reduce_both m t q e"
  have mt: "m \<noteq> t" using m by blast
  show "matching E pid t ?e B D F" using M by (simp add: matching_def reduce_both_def set_volume_inv)
  have v: "vol ?e j = (if j = m \<or> j = t then vol e j - unat q else vol e j)" for j
    using q mt by (auto simp: vol_def unat_sub_le)
  have qn: "unat q \<le> vol e m" "unat q \<le> vol e t" using q by (simp_all add: vol_def word_le_nat_alt)
  have "(\<Sum>j\<in>M. vol e j) = vol e m + (\<Sum>j\<in>M - {m}. vol e j)" using m by (simp add: sum.remove)
  moreover have "(\<Sum>j\<in>M. vol ?e j) = vol ?e m + (\<Sum>j\<in>M - {m}. vol ?e j)" using m by (simp add: sum.remove)
  moreover have "(\<Sum>j\<in>M - {m}. vol ?e j) = (\<Sum>j\<in>M - {m}. vol e j)" using m(3) by (intro sum.cong) (auto simp: v)
  ultimately have s: "(\<Sum>j\<in>M. vol e j) + vol ?e t = (\<Sum>j\<in>M. vol ?e j) + vol e t" using qn by (simp add: v)
  have i: "ident (eslot ?e j) = ident (eslot e j)" for j by (simp add: ident_def reduce_both_def)
  have "callbacks ?e = callbacks e" "wal (orderbook ?e) = wal (orderbook e)" by (simp_all add: reduce_both_def)
  with s i m show "prog M t e ?e" unfolding prog_def by (simp add: v)
qed

section \<open>One turn of the maker loop\<close>

text \<open>
  \<open>maker_done\<close>: the book has the same levels or lost exactly the maker.  \<open>step_ok\<close>: the turn
  ends the function with a log error, or ends the loop with nothing left, or goes on with the
  same maker and less volume, or with the next maker.
\<close>

definition maker_done ::
  "('h, 'i, 'w) env \<Rightarrow> u16 \<Rightarrow> bool \<Rightarrow> nat \<Rightarrow> nat set \<Rightarrow> nat \<Rightarrow> ('h, 'w, 'u) OmEngine \<Rightarrow> levels \<Rightarrow> nat set \<Rightarrow> nat list
    \<Rightarrow> ('h, 'w, 'u) OmEngine \<Rightarrow> bool \<Rightarrow> bool" where
  "maker_done E pid b t M m e B D F e' gone \<longleftrightarrow> prog M t e e' \<and>
     (if gone then matching E pid t e' (upd_levels B pid b (spec_remove m (B pid b))) D (m # F)
      else matching E pid t e' B D F)"

definition step_ok ::
  "('h, 'i, 'w) env \<Rightarrow> u16 \<Rightarrow> bool \<Rightarrow> nat \<Rightarrow> nat set \<Rightarrow> nat \<Rightarrow> nat \<Rightarrow> u64 \<Rightarrow> ('h, 'w, 'u) OmEngine \<Rightarrow> levels \<Rightarrow> nat set \<Rightarrow> nat list
    \<Rightarrow> ('h, 'w, 'u) OmEngine match_step \<Rightarrow> bool" where
  "step_ok E pid b t M m nxt rem e B D F r \<longleftrightarrow>
     (case r of
        MatchReturn rc e' \<Rightarrow> rc = OM_ERR_WAL_WRITE \<and> maker_done E pid b t M m e B D F e' False
      | MatchBreak rem' e' \<Rightarrow> rem' = 0 \<and> volume_remain (eslot e' t) = 0 \<and>
          (\<exists>gone. maker_done E pid b t M m e B D F e' gone)
      | MatchContinue i rem' e' \<Rightarrow> volume_remain (eslot e' t) = rem' \<and>
          (i = m \<and> rem' < rem \<and> maker_done E pid b t M m e B D F e' False \<or>
           i = nxt \<and> rem' \<le> rem \<and> (\<exists>gone. maker_done E pid b t M m e B D F e' gone)))"

lemma maker_done_quiet:
  "maker_done E pid b t M m e B D F e1 False \<Longrightarrow> quiet e1 e2 \<Longrightarrow> maker_done E pid b t M m e B D F e2 False"
  unfolding maker_done_def using quiet_prog prog_trans quiet_matching by (metis (no_types, lifting))

lemma maker_done_remove:
  assumes K: "khash_ok (env_hash E)" "kavl_ok E" and d: "maker_done E pid b t M m e B D F e1 False"
    and m: "m \<in> set (concat (B pid b))"
  shows "maker_done E pid b t M m e B D F (remove_order E pid m e1) True"
proof -
  have M: "matching E pid t e1 B D F" "prog M t e e1" using d by (simp_all add: maker_done_def)
  show ?thesis using prog_trans [OF M(2) remove_order_step(2) [OF K M(1) m]] remove_order_step(1) [OF K M(1) m]
    by (simp add: maker_done_def)
qed

lemma maker_done_start:
  assumes "matching E pid t e B D F" and "quiet e e1"
  shows "maker_done E pid b t M m e B D F e1 False"
  using assms by (simp add: maker_done_def quiet_prog quiet_matching)

lemma maker_done_reduce:
  assumes d: "maker_done E pid b t M m e B D F e1 False" and m: "m \<in> M" "finite M" "t \<notin> M"
    and q: "q \<le> volume_remain (eslot e1 m)" "q \<le> volume_remain (eslot e1 t)"
  shows "maker_done E pid b t M m e B D F (reduce_both m t q e1) False"
proof -
  have M: "matching E pid t e1 B D F" "prog M t e e1" using d by (simp_all add: maker_done_def)
  note R = reduce_both_step [OF M(1) m q]
  show ?thesis using prog_trans [OF M(2) R(2)] R(1) by (simp add: maker_done_def)
qed

lemma match_trade_ok:
  assumes K: "khash_ok (env_hash E)" "kavl_ok E" and M: "matching E pid t e B D F"
    and m: "m \<in> set (concat (B pid b))" "m \<in> M" "finite M" "t \<notin> M"
    and a: "ma_product a = pid" "ma_taker a = t" and rem: "rem = volume_remain (eslot e t)"
    and q: "0 < q" "q \<le> volume_remain (eslot e m)" "q \<le> rem" and e0: "maker_done E pid b t M m e0 B D F e False"
  shows "step_ok E pid b t M m nxt rem e0 B D F (match_trade E a m nxt rem q e)"
proof -
  obtain ok e1 where l: "engine_log (\<lambda>w. om_wal_match (env_os E) w (match_record a m q e)) e = (ok, e1)" by fastforce
  note q1 = quiet_log [OF l]
  have d1: "maker_done E pid b t M m e0 B D F e1 False" using maker_done_quiet [OF e0 q1] .
  have mt: "m \<noteq> t" using m by blast
  define e2 where "e2 = reduce_both m t q e1"
  have qe: "q \<le> volume_remain (eslot e1 m)" "q \<le> volume_remain (eslot e1 t)"
    using q rem by (simp_all add: quietD(2) [OF q1])
  have d2: "maker_done E pid b t M m e0 B D F e2 False" unfolding e2_def by (rule maker_done_reduce [OF d1 m(2,3,4) qe])
  define e3 where "e3 = notify (on_match (callbacks e2)) (\<lambda>f. f (eslot e2 t) (ma_price a) q)
    (notify (on_match (callbacks e2)) (\<lambda>f. f (eslot e2 m) (ma_price a) q) e2)"
  define e4 where "e4 = notify (on_deal (callbacks e3)) (\<lambda>f. f (eslot e3 m) (eslot e3 t) (ma_price a) q) e3"
  have q3: "quiet e2 e3" unfolding e3_def by (rule quiet_trans [OF quiet_notify quiet_notify])
  have q4: "quiet e2 e4" unfolding e4_def by (rule quiet_trans [OF q3 quiet_notify])
  have d4: "maker_done E pid b t M m e0 B D F e4 False" using maker_done_quiet [OF d2 q4] .
  define e5 where "e5 = notify (on_filled (callbacks e4)) (\<lambda>f. f (eslot e4 m)) e4"
  have d5: "maker_done E pid b t M m e0 B D F e5 False" unfolding e5_def using maker_done_quiet [OF d4 quiet_notify] .
  note d6 = maker_done_remove [OF K d5 m(1)]
  have M5: "matching E pid t e5 B D F" using d5 by (simp add: maker_done_def)
  have v4: "volume_remain (eslot e4 t) = rem - q" "volume_remain (eslot e5 t) = rem - q"
    using mt rem by (simp_all add: quietD(2) [OF q4] e5_def quietD(2) [OF quiet_notify] e2_def quietD(2) [OF q1])
  have v6: "volume_remain (eslot (remove_order E pid m e5) t) = rem - q"
    using remove_order_step(3) [OF K M5 m(1)] v4 by simp
  have lt: "rem - q < rem" using q by (simp add: word_less_nat_alt word_le_nat_alt unat_sub_le)
  have r: "match_trade E a m nxt rem q e = (if \<not> ok then MatchReturn OM_ERR_WAL_WRITE e1
      else if volume_remain (eslot e4 m) = 0 then MatchContinue nxt (rem - q) (remove_order E pid m e5)
      else if rem - q = 0 then MatchBreak (rem - q) e4 else MatchContinue m (rem - q) e4)"
    using rem mt by (simp add: match_trade_def l Let_def a e5_def e4_def e3_def e2_def reduce_both_def quietD(2) [OF q1])
  show ?thesis unfolding r step_ok_def using d1 d4 d6 v4 v6 lt by (auto intro: less_imp_le)
qed

lemma match_decrement_ok:
  assumes K: "khash_ok (env_hash E)" "kavl_ok E" and M: "matching E pid t e B D F"
    and m: "m \<in> set (concat (B pid b))" "m \<in> M" "finite M" "t \<notin> M"
    and a: "ma_product a = pid" "ma_taker a = t" and rem: "rem = volume_remain (eslot e t)"
    and q: "0 < q" "q \<le> volume_remain (eslot e m)" "q \<le> rem" and e0: "maker_done E pid b t M m e0 B D F e False"
  shows "step_ok E pid b t M m nxt rem e0 B D F (match_decrement E a m nxt rem q e)"
proof -
  obtain ok e1 where l: "engine_log (\<lambda>w. om_wal_match (env_os E) w (match_record a m q e)) e = (ok, e1)" by fastforce
  note q1 = quiet_log [OF l]
  have d1: "maker_done E pid b t M m e0 B D F e1 False" using maker_done_quiet [OF e0 q1] .
  have mt: "m \<noteq> t" using m by blast
  define e2 where "e2 = reduce_both m t q e1"
  have qe: "q \<le> volume_remain (eslot e1 m)" "q \<le> volume_remain (eslot e1 t)"
    using q rem by (simp_all add: quietD(2) [OF q1])
  have d2: "maker_done E pid b t M m e0 B D F e2 False" unfolding e2_def by (rule maker_done_reduce [OF d1 m(2,3,4) qe])
  define e3 where "e3 = notify (on_decrement_cancel (callbacks e2)) (\<lambda>f. f (eslot e2 m) (eslot e2 t) q) e2"
  have q3: "quiet e2 e3" unfolding e3_def by simp
  have d3: "maker_done E pid b t M m e0 B D F e3 False" using maker_done_quiet [OF d2 q3] .
  note d4 = maker_done_remove [OF K d3 m(1)]
  have M3: "matching E pid t e3 B D F" using d3 by (simp add: maker_done_def)
  have v3: "volume_remain (eslot e3 t) = rem - q"
    using mt rem by (simp add: quietD(2) [OF q3] e2_def quietD(2) [OF q1])
  have v4: "volume_remain (eslot (remove_order E pid m e3) t) = rem - q"
    using remove_order_step(3) [OF K M3 m(1)] v3 by simp
  have lt: "rem - q < rem" using q by (simp add: word_less_nat_alt word_le_nat_alt unat_sub_le)
  have r: "match_decrement E a m nxt rem q e = (if \<not> ok then MatchReturn OM_ERR_WAL_WRITE e1
      else if volume_remain (eslot e3 m) = 0
        then if rem - q = 0 then MatchBreak (rem - q) (remove_order E pid m e3)
             else MatchContinue nxt (rem - q) (remove_order E pid m e3)
      else if rem - q = 0 then MatchBreak (rem - q) e3 else MatchContinue m (rem - q) e3)"
    using rem mt by (simp add: match_decrement_def l Let_def a e3_def e2_def reduce_both_def quietD(2) [OF q1])
  show ?thesis unfolding r step_ok_def using d1 d3 d4 v3 v4 lt by (auto intro: less_imp_le)
qed

lemma set_taker_zero:
  assumes "matching E pid t e B D F" and "\<not> never_both (callbacks e)"
  shows "matching E pid t (set_volume t 0 e) B D F" "prog M t e (set_volume t 0 e)"
proof -
  show "matching E pid t (set_volume t 0 e) B D F" using assms(1) by (simp add: matching_def set_volume_inv)
  show "prog M t e (set_volume t 0 e)" using assms(2) by (simp add: prog_def vol_def ident_def)
qed

lemma match_cancel_ok:
  assumes K: "khash_ok (env_hash E)" "kavl_ok E" and m: "m \<in> set (concat (B pid b))"
    and a: "ma_product a = pid" "ma_taker a = t" and rem: "rem = volume_remain (eslot e t)" "rem0 = rem"
    and e0: "maker_done E pid b t M m e0 B D F e False" and both: "both \<longrightarrow> \<not> never_both (callbacks e0)"
  shows "step_ok E pid b t M m nxt rem0 e0 B D F (match_cancel E a m nxt rem both e)"
proof -
  obtain ok e1 where l: "engine_log (\<lambda>w. om_wal_cancel (env_os E) w (order_id (eslot e m)) m pid) e = (ok, e1)" by fastforce
  note q1 = quiet_log [OF l]
  define e2 where "e2 = notify (on_cancel (callbacks e1)) (\<lambda>f. f (eslot e1 m)) e1"
  have q2: "quiet e e2" unfolding e2_def by (rule quiet_trans [OF q1 quiet_notify])
  have d1: "maker_done E pid b t M m e0 B D F e1 False" using maker_done_quiet [OF e0 q1] .
  have d2: "maker_done E pid b t M m e0 B D F e2 False" using maker_done_quiet [OF e0 q2] .
  have M2: "matching E pid t e2 B D F" using d2 by (simp add: maker_done_def)
  define e3 where "e3 = remove_order E pid m e2"
  note d3 = maker_done_remove [OF K d2 m, folded e3_def]
  have v3: "volume_remain (eslot e3 t) = rem"
    using remove_order_step(3) [OF K M2 m] rem by (simp add: e3_def quietD(2) [OF q2])
  have d4: "maker_done E pid b t M m e0 B D F (set_volume t 0 e3) True" if both
  proof -
    have p: "prog M t e0 e3" and M3: "matching E pid t e3 (upd_levels B pid b (spec_remove m (B pid b))) D (m # F)"
      using d3 by (simp_all add: maker_done_def)
    have "\<not> never_both (callbacks e3)" using both that prog_no_both(1) [OF p] by simp
    then show ?thesis
      using set_taker_zero(1) [OF M3] prog_trans [OF p set_taker_zero(2) [OF M3]] by (simp add: maker_done_def)
  qed
  have r: "match_cancel E a m nxt rem both e = (if \<not> ok then MatchReturn OM_ERR_WAL_WRITE e1
      else if both then MatchBreak 0 (set_volume t 0 e3) else MatchContinue nxt rem e3)"
    by (simp add: match_cancel_def l a Let_def e3_def e2_def)
  show ?thesis unfolding r step_ok_def using d1 d3 d4 v3 rem(2) by auto
qed

lemma match_maker_ok:
  assumes K: "khash_ok (env_hash E)" "kavl_ok E" and M: "matching E pid t e B D F"
    and m: "m \<in> set (concat (B pid b))" "m \<in> M" "finite M" "t \<notin> M"
    and a: "ma_product a = pid" "ma_taker a = t" and rem: "rem = volume_remain (eslot e t)" "0 < rem"
  shows "step_ok E pid b t M m (qnext OM_Q2_TIME_FIFO (slab (orderbook e)) m) rem e B D F (match_maker E x a m rem e)"
proof -
  let ?nxt = "qnext OM_Q2_TIME_FIFO (slab (orderbook e)) m" and ?v = "volume_remain (eslot e m)"
  have d0: "maker_done E pid b t M m e B D F e False" using maker_done_start [OF M quiet_refl] .
  have skip: "step_ok E pid b t M m ?nxt rem e B D F (MatchContinue ?nxt rem e1)" if "quiet e e1" for e1
    using maker_done_start [OF M that] rem(1) by (auto simp: step_ok_def quietD(2) [OF that])
  show ?thesis
  proof (cases "x \<and> org (eslot e m) = org (eslot e t) \<or> ?v = 0")
    case True
    have "step_ok E pid b t M m ?nxt rem e B D F (MatchContinue ?nxt rem (remove_order E pid m e))"
      using maker_done_remove [OF K d0 m(1)] remove_order_step(3) [OF K M m(1)] rem(1) by (auto simp: step_ok_def)
    with skip [OF quiet_refl] True show ?thesis by (auto simp: match_maker_def Let_def a)
  next
    case False
    define q where "q = (if rem < ?v then rem else ?v)"
    have q: "0 < q" "q \<le> ?v" "q \<le> rem" using False rem(2) by (auto simp: q_def word_gt_0)
    show ?thesis
    proof (cases "can_match (callbacks e)")
      case None
      then have "match_maker E x a m rem e = match_trade E a m ?nxt rem q e"
        using False q(1) by (auto simp: match_maker_def Let_def a word_gt_0 simp flip: q_def)
      then show ?thesis using match_trade_ok [OF K M m a rem(1) q d0] by simp
    next
      case (Some f)
      obtain allowed u where f: "f (eslot e m) (eslot e t) (user_ctx (callbacks e)) = (allowed, u)" by fastforce
      let ?e = "set_user u e"
      have d1: "maker_done E pid b t M m e B D F ?e False" and M1: "matching E pid t ?e B D F"
        using maker_done_start [OF M quiet_set_user] M by (simp_all add: quiet_matching [OF quiet_set_user])
      have sl: "eslot ?e j = eslot e j" for j using quietD(2) [OF quiet_set_user] .
      have both: "allowed = OM_CAN_MATCH_CANCEL_BOTH \<longrightarrow> \<not> never_both (callbacks e)"
        using Some f by (auto simp: never_both_def) (metis fst_conv)
      define q2 where "q2 = (if allowed < q then allowed else q)"
      have q2: "allowed \<noteq> 0 \<Longrightarrow> 0 < q2" "q2 \<le> ?v" "q2 \<le> rem" using q by (auto simp: q2_def word_gt_0)
      have r: "match_maker E x a m rem e =
        (if allowed = OM_CAN_MATCH_CANCEL_MAKER \<or> allowed = OM_CAN_MATCH_CANCEL_BOTH
         then match_cancel E a m ?nxt rem (allowed = OM_CAN_MATCH_CANCEL_BOTH) ?e
         else if allowed = OM_CAN_MATCH_DECREMENT_CANCEL then match_decrement E a m ?nxt rem q ?e
         else if allowed = 0 \<or> q2 = 0 then MatchContinue ?nxt rem ?e
         else match_trade E a m ?nxt rem q2 ?e)"
        using False Some f by (auto simp: match_maker_def Let_def a q2_def simp flip: q_def)
      show ?thesis unfolding r
        using match_cancel_ok [OF K m(1) a _ refl d1 both, of rem] match_decrement_ok [OF K M1 m a _ _ _ _ d1, of rem q]
          match_trade_ok [OF K M1 m a _ _ _ _ d1, of rem q2] skip [OF quiet_set_user] q q2 rem(1)
        by (simp add: sl)
    qed
  qed
qed

end
