(* ===== verification/Engine_Match.thy ===== *)
theory Engine_Match
  imports Engine_Step "HOL-Library.Sublist" "HOL-Library.Multiset"
begin

text \<open>
  The match loop: it ends, keeps the book invariant, trades only with orders that the limit
  price of the taker allows, and conserves volume.
\<close>

declare upd_levels_apply [simp del]

section \<open>The loop over the makers of a level\<close>

text \<open>
  \<open>sk\<close> are the orders of the level passed over so far, \<open>ms\<close> those still to come, \<open>P\<close> and \<open>Q\<close>
  the levels before and behind.  \<open>lev l Q\<close> puts \<open>l\<close> in front unless it is empty.
\<close>

definition lev :: "nat list \<Rightarrow> nat list list \<Rightarrow> nat list list" where
  "lev l Q = (if l = [] then Q else l # Q)"

lemma concat_lev [simp]: "concat (lev l Q) = l @ concat Q"
  by (simp add: lev_def)

definition after_level ::
  "('h, 'i, 'w) env \<Rightarrow> u16 \<Rightarrow> bool \<Rightarrow> nat \<Rightarrow> nat set \<Rightarrow> ('h, 'w, 'u) OmEngine \<Rightarrow> levels \<Rightarrow> nat set \<Rightarrow> nat list
    \<Rightarrow> nat list list \<Rightarrow> nat list \<Rightarrow> nat list list \<Rightarrow> ('h, 'w, 'u) OmEngine \<Rightarrow> bool" where
  "after_level E pid b t M e B D F P l Q e' \<longleftrightarrow> prog M t e e' \<and>
     (\<exists>ls ds. matching E pid t e' (upd_levels B pid b (P @ lev ls Q)) D (ds @ F) \<and>
        subseq ls l \<and> mset ds + mset ls = mset l)"

definition loop_ok ::
  "(('h, 'w, 'u) OmEngine \<Rightarrow> bool) \<Rightarrow> nat
    \<Rightarrow> (OmError \<times> ('h, 'w, 'u) OmEngine + u64 \<times> ('h, 'w, 'u) OmEngine) option \<Rightarrow> bool" where
  "loop_ok post t r \<longleftrightarrow>
     (case r of None \<Rightarrow> False
      | Some (Inl (rc, e')) \<Rightarrow> rc = OM_ERR_WAL_WRITE \<and> post e'
      | Some (Inr (rem', e')) \<Rightarrow> volume_remain (eslot e' t) = rem' \<and> post e')"

lemma loop_ok_mono: "loop_ok post t r \<Longrightarrow> (\<And>e. post e \<Longrightarrow> post' e) \<Longrightarrow> loop_ok post' t r"
  by (auto simp: loop_ok_def split: option.splits sum.splits)

lemma after_level_trans:
  assumes "prog M t e e1" and "after_level E pid b t M e1 B D (ds @ F) P l Q e2" and "subseq l l0" and "mset ds + mset l = mset l0"
  shows "after_level E pid b t M e B D F P l0 Q e2"
proof -
  obtain ls ds' where *: "prog M t e1 e2" "matching E pid t e2 (upd_levels B pid b (P @ lev ls Q)) D (ds' @ ds @ F)"
    "subseq ls l" "mset ds' + mset ls = mset l" using assms(2) by (auto simp: after_level_def)
  have "subseq ls l0" using *(3) assms(3) by (rule subseq_order.order_trans)
  moreover have "mset (ds' @ ds) + mset ls = mset l0" using *(4) assms(4) by (simp flip: assms(4) *(4))
  ultimately show ?thesis unfolding after_level_def using prog_trans [OF assms(1) *(1)] *(2)
    by (metis append_assoc)
qed

lemma loop_ok_after:
  assumes "prog M t e e1" and "loop_ok (after_level E pid b t M e1 B D (ds @ F) P l Q) t r"
    and "subseq l l0" and "mset ds + mset l = mset l0"
  shows "loop_ok (after_level E pid b t M e B D F P l0 Q) t r"
  using assms(2) by (rule loop_ok_mono) (rule after_level_trans [OF assms(1) _ assms(3,4)])

lemma remove_in_level:
  assumes inv: "book_inv E c (upd_levels B pid b (P @ (sk @ m # ms) # Q)) D F" and p: "ucast pid < max_products c"
  shows "spec_remove m (P @ (sk @ m # ms) # Q) = P @ lev (sk @ ms) Q"
    "qnext OM_Q2_TIME_FIFO (slab c) m = (if ms = [] then OM_SLOT_IDX_NULL else hd ms)"
    "m < a_capacity (slab_a (slab c))" "m \<noteq> OM_SLOT_IDX_NULL"
proof -
  have side: "side_inv c pid b (P @ (sk @ m # ms) # Q)" using book_side [OF inv p, of b] by (simp add: upd_levels_apply)
  note La = ladderD [OF side_invD(1) [OF side]]
  have d: "distinct (concat (P @ (sk @ m # ms) # Q))" using La(3) .
  have "removeAll m (sk @ m # ms) = sk @ ms" using d by (simp add: removeAll_id)
  then show "spec_remove m (P @ (sk @ m # ms) # Q) = P @ lev (sk @ ms) Q"
    using spec_remove_split [OF d, of m] La(6) by (auto simp: lev_def)
  have "chain OM_SLOT_IDX_NULL (qnext OM_Q2_TIME_FIFO (slab c)) (hd (sk @ m # ms)) (sk @ m # ms)"
    using fifoD(2) [OF La(2)] by simp
  then show "qnext OM_Q2_TIME_FIFO (slab c) m = (if ms = [] then OM_SLOT_IDX_NULL else hd ms)" by (rule chain_next)
  show "m < a_capacity (slab_a (slab c))" "m \<noteq> OM_SLOT_IDX_NULL" using La(4,5) [of m] by simp_all
qed

lemma level_start:
  assumes "matching E pid t e (upd_levels B pid b (P @ lev l Q)) D F"
  shows "after_level E pid b t M e B D F P l Q e"
  unfolding after_level_def
  using assms quiet_prog [OF quiet_refl] by (intro conjI exI [of _ l] exI [of _ "[]"]) simp_all

lemma maker_done_after:
  assumes d: "maker_done E pid b t M m e (upd_levels B pid b (P @ (sk @ m # ms) # Q)) D F e' g"
    and r: "spec_remove m (P @ (sk @ m # ms) # Q) = P @ lev (sk @ ms) Q"
  shows "after_level E pid b t M e B D F P (sk @ m # ms) Q e'"
proof (cases g)
  case True
  then have "prog M t e e'" "matching E pid t e' (upd_levels B pid b (P @ lev (sk @ ms) Q)) D ([m] @ F)"
    using d r by (simp_all add: maker_done_def upd_levels_apply)
  then show ?thesis unfolding after_level_def
    by (intro conjI exI [of _ "sk @ ms"] exI [of _ "[m]"]) (simp_all add: list_emb_append_mono subseq_Cons')
next
  case False
  then have "prog M t e e'" "matching E pid t e' (upd_levels B pid b (P @ lev (sk @ m # ms) Q)) D ([] @ F)"
    using d by (simp_all add: maker_done_def lev_def)
  then show ?thesis unfolding after_level_def by (intro conjI exI [of _ "sk @ m # ms"] exI [of _ "[]"]) simp_all
qed

lemma match_level_loop_ok:
  assumes K: "khash_ok (env_hash E)" "kavl_ok E" and M: "finite M" "t \<notin> M" "set ms \<subseteq> M"
    and a: "ma_product a = pid" "ma_taker a = t"
    and m: "matching E pid t e (upd_levels B pid b (P @ lev (sk @ ms) Q)) D F" and rem: "rem = volume_remain (eslot e t)"
  shows "loop_ok (after_level E pid b t M e B D F P (sk @ ms) Q) t
    (match_level_loop E x a (if ms = [] then OM_SLOT_IDX_NULL else hd ms) rem e)"
  using M(3) m rem
proof (induction ms arbitrary: sk e rem F)
  case Nil
  then show ?case using level_start [of E pid t e B b P sk Q D F M]
    by (subst match_level_loop.simps) (simp add: loop_ok_def)
next
  case (Cons m ms)
  from Cons.prems show ?case
  proof (induction "unat rem" arbitrary: rem e rule: less_induct)
    case less
    let ?l = "sk @ m # ms" and ?B = "upd_levels B pid b (P @ (sk @ m # ms) # Q)"
    have M1: "matching E pid t e ?B D F" using less.prems(2) by (simp add: lev_def)
    have inv: "book_inv E (orderbook e) ?B D F" and p: "ucast pid < max_products (orderbook e)"
      using M1 by (simp_all add: matching_def)
    note R = remove_in_level [OF inv p]
    show ?case
    proof (cases "rem = 0")
      case True
      then show ?thesis using level_start [OF less.prems(2)] less.prems(3)
        by (subst match_level_loop.simps) (simp add: loop_ok_def)
    next
      case False
      have mB: "m \<in> set (concat (?B pid b))" and mM: "m \<in> M" using less.prems(1) by (simp_all add: upd_levels_apply)
      have "0 < rem" using False by (simp add: word_gt_0)
      note ok = match_maker_ok [OF K M1 mB mM M(1,2) a less.prems(3) this, where x = x, unfolded R(2)]
      have unf: "match_level_loop E x a m rem e = (case match_maker E x a m rem e of
          MatchReturn rc e' \<Rightarrow> Some (Inl (rc, e')) | MatchBreak rem' e' \<Rightarrow> Some (Inr (rem', e'))
        | MatchContinue i rem' e' \<Rightarrow> match_level_loop E x a i rem' e')"
        using \<open>0 < rem\<close> R(3,4) by (subst match_level_loop.simps) (simp add: om_slot_from_idx_def)
      have gone: "after_level E pid b t M e B D F P ?l Q e'" if "maker_done E pid b t M m e ?B D F e' g" for e' g
        using maker_done_after [OF that R(1)] .
      have nxt: "loop_ok (after_level E pid b t M e B D F P ?l Q) t
          (match_level_loop E x a (if ms = [] then OM_SLOT_IDX_NULL else hd ms) rem' e')"
        if d: "maker_done E pid b t M m e ?B D F e' g" and v: "rem' = volume_remain (eslot e' t)" for e' g rem'
      proof (cases g)
        case True
        then have pr: "prog M t e e'" and m': "matching E pid t e' (upd_levels B pid b (P @ lev (sk @ ms) Q)) D ([m] @ F)"
          using d R(1) by (simp_all add: maker_done_def upd_levels_apply)
        have "subseq (sk @ ms) ?l" by (simp add: list_emb_append_mono subseq_Cons')
        with loop_ok_after [OF pr Cons.IH [OF _ m' v]] less.prems(1) show ?thesis by simp
      next
        case False
        then have pr: "prog M t e e'" and m': "matching E pid t e' (upd_levels B pid b (P @ lev ((sk @ [m]) @ ms) Q)) D ([] @ F)"
          using d by (simp_all add: maker_done_def lev_def)
        from loop_ok_after [OF pr Cons.IH [OF _ m' v], of ?l] less.prems(1) show ?thesis by simp
      qed
      have same: "loop_ok (after_level E pid b t M e B D F P ?l Q) t (match_level_loop E x a m rem' e')"
        if d: "maker_done E pid b t M m e ?B D F e' False" and lt: "rem' < rem" and v: "rem' = volume_remain (eslot e' t)" for e' rem'
      proof -
        have pr: "prog M t e e'" and m': "matching E pid t e' (upd_levels B pid b (P @ lev ?l Q)) D ([] @ F)"
          using d by (simp_all add: maker_done_def lev_def)
        have "unat rem' < unat rem" using lt by (simp add: word_less_nat_alt)
        from loop_ok_after [OF pr, where ds = "[]", OF _ subseq_order.order_refl] less.hyps [OF this less.prems(1) _ v] m'
        show ?thesis by simp
      qed
      show ?thesis using ok gone nxt same unfolding step_ok_def
        by (cases "match_maker E x a m rem e") (auto simp: unf loop_ok_def)
    qed
  qed
qed

section \<open>The loop over the levels\<close>

text \<open>A resting price is acceptable to a taker.\<close>

definition crosses :: "('h, 'w, 'u) OmEngine \<Rightarrow> nat \<Rightarrow> nat \<Rightarrow> bool" where
  "crosses e t i \<longleftrightarrow> (if OM_IS_BID (flags (eslot e t)) then price (eslot e i) \<le> price (eslot e t)
     else price (eslot e t) \<le> price (eslot e i))"

lemma crosses_prog: "prog M t e e' \<Longrightarrow> crosses e' s i = crosses e s i"
  by (simp add: crosses_def progD)

definition after_levels ::
  "('h, 'i, 'w) env \<Rightarrow> u16 \<Rightarrow> bool \<Rightarrow> nat \<Rightarrow> nat set \<Rightarrow> ('h, 'w, 'u) OmEngine \<Rightarrow> levels \<Rightarrow> nat set \<Rightarrow> nat list
    \<Rightarrow> nat list list \<Rightarrow> nat list list \<Rightarrow> ('h, 'w, 'u) OmEngine \<Rightarrow> bool" where
  "after_levels E pid b t M e B D F P Ls e' \<longleftrightarrow> prog M t e e' \<and>
     (\<exists>Ls' ds. matching E pid t e' (upd_levels B pid b (P @ Ls')) D (ds @ F) \<and>
        subseq (concat Ls') (concat Ls) \<and> mset ds + mset (concat Ls') = mset (concat Ls) \<and> set ds \<subseteq> M)"

lemma levels_start:
  assumes "matching E pid t e (upd_levels B pid b (P @ Ls)) D F" and "prog M t e0 e"
  shows "after_levels E pid b t M e0 B D F P Ls e"
  unfolding after_levels_def
  using assms by (intro conjI exI [of _ Ls] exI [of _ "[]"]) simp_all

lemma levels_after_level:
  assumes "after_level E pid b t M e1 B D F P l Q e'" and "set l \<subseteq> M" and "prog M t e e1"
  shows "after_levels E pid b t M e B D F P (l # Q) e'"
proof -
  obtain ls ds where *: "prog M t e1 e'" "matching E pid t e' (upd_levels B pid b (P @ lev ls Q)) D (ds @ F)"
    "subseq ls l" "mset ds + mset ls = mset l" using assms(1) by (auto simp: after_level_def)
  have "set ds \<subseteq> M" using *(4) assms(2) by (metis Un_subset_iff set_mset_mset set_mset_union)
  with * prog_trans [OF assms(3) *(1)] show ?thesis unfolding after_levels_def
    by (intro conjI exI [of _ "lev ls Q"] exI [of _ ds]) (simp_all add: list_emb_append_mono flip: *(4))
qed

lemma after_levels_trans:
  assumes "prog M t e e1" and a: "after_levels E pid b t M e1 B D (ds @ F) (P @ lev ls []) Q e2"
    and l: "subseq ls l" "mset ds + mset ls = mset l" "set l \<subseteq> M"
  shows "after_levels E pid b t M e B D F P (l # Q) e2"
proof -
  obtain Ls' ds' where *: "prog M t e1 e2"
    "matching E pid t e2 (upd_levels B pid b ((P @ lev ls []) @ Ls')) D (ds' @ ds @ F)"
    "subseq (concat Ls') (concat Q)" "mset ds' + mset (concat Ls') = mset (concat Q)" "set ds' \<subseteq> M"
    using a by (auto simp: after_levels_def)
  have e: "(P @ lev ls []) @ Ls' = P @ lev ls Ls'" by (simp add: lev_def)
  have "set ds \<subseteq> M" using l(2,3) by (metis Un_subset_iff set_mset_mset set_mset_union)
  with * prog_trans [OF assms(1) *(1)] l(1) show ?thesis unfolding after_levels_def e
    by (intro conjI exI [of _ "lev ls Ls'"] exI [of _ "ds' @ ds"])
       (simp_all add: list_emb_append_mono ac_simps flip: *(4) l(2))
qed

lemma first_maker_ok:
  assumes m: "matching E pid t e (upd_levels B pid b (P @ l # Q)) D F"
  obtains sk ms e1 where "first_maker x t (hd l) e = Some (if ms = [] then OM_SLOT_IDX_NULL else hd ms, e1)"
    "l = sk @ ms" "matching E pid t e1 (upd_levels B pid b (P @ l # Q)) D F" "prog M t e e1"
    "volume_remain (eslot e1 t) = volume_remain (eslot e t)"
proof (cases "x \<and> org (eslot e (hd l)) = org (eslot e t)")
  case False
  have side: "side_inv (orderbook e) pid b (P @ l # Q)"
    using m book_side [of E "orderbook e" "upd_levels B pid b (P @ l # Q)" D F pid b] by (simp add: matching_def upd_levels_apply)
  have "l \<noteq> []" using ladderD(6) [OF side_invD(1) [OF side]] by simp
  then show thesis using False m quiet_prog [OF quiet_refl] by (intro that [of l e "[]"]) (auto simp: first_maker_def)
next
  case True
  let ?og = "org (eslot e t)"
  have inv: "book_inv E (orderbook e) (upd_levels B pid b (P @ l # Q)) D F" and p: "ucast pid < max_products (orderbook e)"
    using m by (simp_all add: matching_def)
  have l: "l \<in> set (upd_levels B pid b (P @ l # Q) pid b)" by (simp add: upd_levels_apply)
  define ms where "ms = dropWhile (\<lambda>j. org (eslot e j) = ?og) l"
  obtain c where c: "om_orderbook_first_other_org (orderbook e) (hd l) ?og =
      Some (case find (\<lambda>j. org (slot_at (slab (orderbook e)) j) \<noteq> ?og) l of None \<Rightarrow> OM_SLOT_IDX_NULL | Some j \<Rightarrow> j, c)"
    "book_inv E c (upd_levels B pid b (P @ l # Q)) D F" "slab c = slab (orderbook e)" "wal c = wal (orderbook e)"
    "max_products c = max_products (orderbook e)" using first_other_inv [OF inv l p] by blast
  have f: "(case find (\<lambda>j. org (slot_at (slab (orderbook e)) j) \<noteq> ?og) l of None \<Rightarrow> OM_SLOT_IDX_NULL | Some j \<Rightarrow> j) =
      (if ms = [] then OM_SLOT_IDX_NULL else hd ms)"
  proof -
    have d: "dropWhile (\<lambda>j. org (slot_at (slab (orderbook e)) j) = ?og) l = ms" by (simp add: ms_def eslot_def)
    show ?thesis unfolding find_dropWhile comp_def not_not d by (cases ms) simp_all
  qed
  let ?e = "e\<lparr>orderbook := c\<rparr>"
  have s: "eslot ?e j = eslot e j" for j by (simp add: eslot_def c(3))
  have "prog M t e ?e" by (simp add: prog_def s vol_def c(4))
  moreover have "matching E pid t ?e (upd_levels B pid b (P @ l # Q)) D F" using m c by (simp add: matching_def)
  moreover have "l = takeWhile (\<lambda>j. org (eslot e j) = ?og) l @ ms" by (simp add: ms_def)
  moreover have "first_maker x t (hd l) e = Some (if ms = [] then OM_SLOT_IDX_NULL else hd ms, ?e)"
    using True c(1) f by (simp add: first_maker_def)
  ultimately show thesis using that s by metis
qed

lemma level_facts:
  assumes m: "matching E pid t e (upd_levels B pid b (P @ l # Q)) D F"
  shows "l \<noteq> []" "hd l < a_capacity (slab_a (slab (orderbook e)))" "hd l \<noteq> OM_SLOT_IDX_NULL"
    "i \<in> set l \<Longrightarrow> price (eslot e i) = price (eslot e (hd l))"
    "qnext OM_Q1_PRICE_LADDER (slab (orderbook e)) (hd l) = (if Q = [] then OM_SLOT_IDX_NULL else hd (hd Q))"
proof -
  have side: "side_inv (orderbook e) pid b (P @ l # Q)"
    using m book_side [of E "orderbook e" "upd_levels B pid b (P @ l # Q)" D F pid b] by (simp add: matching_def upd_levels_apply)
  note La = ladderD [OF side_invD(1) [OF side]]
  show ne: "l \<noteq> []" using La(6) by simp
  have h: "hd l \<in> set (concat (P @ l # Q))" using ne by simp
  show "hd l < a_capacity (slab_a (slab (orderbook e)))" "hd l \<noteq> OM_SLOT_IDX_NULL" using La(4,5) [OF h] .
  show "price (eslot e i) = price (eslot e (hd l))" if "i \<in> set l"
    using pricedD(2) [OF side_invD(2) [OF side], of l i] that by (simp add: oprice_def eslot_def)
  have "chain OM_SLOT_IDX_NULL (qnext OM_Q1_PRICE_LADDER (slab (orderbook e))) (book_head (orderbook e) pid b) (map hd P @ hd l # map hd Q)"
    using dllD(1) [OF La(1)] by simp
  from chain_next [OF this] show "qnext OM_Q1_PRICE_LADDER (slab (orderbook e)) (hd l) = (if Q = [] then OM_SLOT_IDX_NULL else hd (hd Q))"
    by (simp add: hd_map)
qed

text \<open>One turn of the level loop, as an equation.\<close>

lemma match_levels_step:
  assumes m: "matching E pid t e (upd_levels B pid b (P @ l # Q)) D F" and rem: "0 < rem"
    and b: "b = (\<not> OM_IS_BID (flags (eslot e t)))"
    and f: "first_maker x t (hd l) e = Some (i, e1)"
  shows "match_levels_loop E x pid t ts (hd l) rem e =
    (if \<not> crosses e t (hd l) then Some (Inr (rem, e))
     else case match_level_loop E x \<lparr>ma_product = pid, ma_taker = t, ma_price = price (eslot e (hd l)), ma_ts = ts\<rparr> i rem e1 of
         None \<Rightarrow> None | Some (Inl r) \<Rightarrow> Some (Inl r)
       | Some (Inr (rem', e2)) \<Rightarrow> if rem' = 0 then Some (Inr (rem', e2))
           else match_levels_loop E x pid t ts (if Q = [] then OM_SLOT_IDX_NULL else hd (hd Q)) rem' e2)"
proof -
  have cr: "(if OM_IS_BID (flags (eslot e t)) then price (eslot e t) < price (eslot e (hd l))
      else price (eslot e (hd l)) < price (eslot e t)) \<longleftrightarrow> \<not> crosses e t (hd l)" by (simp add: crosses_def not_le)
  have s: "om_slot_from_idx (slab (orderbook e)) (hd l) = Some (hd l)"
    using level_facts(2,3) [OF m] by (simp add: om_slot_from_idx_def)
  show ?thesis using level_facts(3) [OF m] rem
    by (subst match_levels_loop.simps) (simp only: s f cr level_facts(5) [OF m] Let_def option.case prod.case simp_thms if_True)
qed

lemma match_levels_loop_ok:
  assumes K: "khash_ok (env_hash E)" "kavl_ok E" and M: "finite M" "t \<notin> M"
    and cr: "\<forall>i \<in> set (concat Ls). crosses e t i \<longrightarrow> i \<in> M" and b: "b = (\<not> OM_IS_BID (flags (eslot e t)))"
    and m: "matching E pid t e (upd_levels B pid b (P @ Ls)) D F" and rem: "rem = volume_remain (eslot e t)"
  shows "loop_ok (after_levels E pid b t M e B D F P Ls) t
    (match_levels_loop E x pid t ts (if Ls = [] then OM_SLOT_IDX_NULL else hd (hd Ls)) rem e)"
  using cr b m rem
proof (induction Ls arbitrary: P e rem F)
  case Nil
  then show ?case using levels_start [OF Nil.prems(3) quiet_prog [OF quiet_refl]]
    by (subst match_levels_loop.simps) (simp add: loop_ok_def)
next
  case (Cons l Q)
  note start = levels_start [OF Cons.prems(3) quiet_prog [OF quiet_refl], where M = M]
  show ?case
  proof (cases "rem = 0")
    case True
    then show ?thesis using start Cons.prems(4) by (subst match_levels_loop.simps) (simp add: loop_ok_def)
  next
    case False
    then have pos: "0 < rem" by (simp add: word_gt_0)
    obtain sk ms e1 where f: "first_maker x t (hd l) e = Some (if ms = [] then OM_SLOT_IDX_NULL else hd ms, e1)"
      "l = sk @ ms" "matching E pid t e1 (upd_levels B pid b (P @ l # Q)) D F" "prog M t e e1"
      "volume_remain (eslot e1 t) = volume_remain (eslot e t)" using first_maker_ok [OF Cons.prems(3)] .
    note step = match_levels_step [OF Cons.prems(3) pos Cons.prems(2) f(1), where ts = ts]
    note L = level_facts [OF Cons.prems(3)]
    show ?thesis
    proof (cases "crosses e t (hd l)")
      case False
      then show ?thesis using step start Cons.prems(4) by (simp add: loop_ok_def)
    next
      case True
      have lM: "set l \<subseteq> M" using True L(4) Cons.prems(1) by (auto simp: crosses_def)
      define r where "r = match_level_loop E x \<lparr>ma_product = pid, ma_taker = t, ma_price = price (eslot e (hd l)), ma_ts = ts\<rparr>
        (if ms = [] then OM_SLOT_IDX_NULL else hd ms) rem e1"
      have ok: "loop_ok (after_level E pid b t M e1 B D F P l Q) t r" unfolding r_def f(2)
        using f(2,3,5) lM L(1) Cons.prems(4) by (intro match_level_loop_ok [OF K M]) (auto simp: lev_def)
      have tail: "loop_ok (after_levels E pid b t M e B D F P (l # Q)) t
          (match_levels_loop E x pid t ts (if Q = [] then OM_SLOT_IDX_NULL else hd (hd Q)) rem' e2)"
        if r: "r = Some (Inr (rem', e2))" for rem' e2
      proof -
        obtain ls ds where *: "prog M t e1 e2" "matching E pid t e2 (upd_levels B pid b (P @ lev ls Q)) D (ds @ F)"
          "subseq ls l" "mset ds + mset ls = mset l" "rem' = volume_remain (eslot e2 t)"
          using ok r by (auto simp: loop_ok_def after_level_def)
        have p: "prog M t e e2" using prog_trans [OF f(4) *(1)] .
        have m2: "matching E pid t e2 (upd_levels B pid b ((P @ lev ls []) @ Q)) D (ds @ F)"
          using *(2) by (cases "ls = []") (simp_all add: lev_def)
        have "\<forall>i \<in> set (concat Q). crosses e2 t i \<longrightarrow> i \<in> M" "b = (\<not> OM_IS_BID (flags (eslot e2 t)))"
          using Cons.prems(1,2) by (simp_all add: crosses_prog [OF p] progD [OF p])
        from Cons.IH [OF this m2 *(5)] show ?thesis by (rule loop_ok_mono) (rule after_levels_trans [OF p _ *(3,4) lM])
      qed
      have post: "after_levels E pid b t M e B D F P (l # Q) e'" if "after_level E pid b t M e1 B D F P l Q e'" for e'
        using levels_after_level [OF that lM f(4)] .
      have eq: "match_levels_loop E x pid t ts (hd l) rem e = (case r of None \<Rightarrow> None | Some (Inl r) \<Rightarrow> Some (Inl r)
        | Some (Inr (rem', e2)) \<Rightarrow> if rem' = 0 then Some (Inr (rem', e2))
            else match_levels_loop E x pid t ts (if Q = [] then OM_SLOT_IDX_NULL else hd (hd Q)) rem' e2)"
        using step True by (simp only: r_def not_True_eq_False if_False)
      from ok consider (err) e' where "r = Some (Inl (OM_ERR_WAL_WRITE, e'))" "after_level E pid b t M e1 B D F P l Q e'"
        | (rest) rem' e' where "r = Some (Inr (rem', e'))" "after_level E pid b t M e1 B D F P l Q e'"
          "volume_remain (eslot e' t) = rem'"
        unfolding loop_ok_def by (auto split: option.splits sum.splits)
      then show ?thesis
      proof cases
        case err
        then show ?thesis using eq post by (simp add: loop_ok_def)
      next
        case rest
        then show ?thesis using eq post [OF rest(2)] tail [OF rest(1)] by (cases "rem' = 0") (simp_all add: loop_ok_def)
      qed
    qed
  qed
qed

end
