(* ===== verification/Engine_Props.thy ===== *)
theory Engine_Props
  imports Engine_Match
begin

text \<open>
  What a call of the matching engine does as a whole, and the engine's cancellation,
  deactivation and activation of orders.
\<close>

section \<open>Booking what is left\<close>

definition booked_levels :: "('h, 'w, 'u) OmEngine \<Rightarrow> levels \<Rightarrow> u16 \<Rightarrow> nat \<Rightarrow> levels" where
  "booked_levels e B pid t = (let tb = OM_IS_BID (flags (eslot e t))
     in upd_levels B pid tb (spec_insert (oprice (orderbook e)) tb t (B pid tb)))"

lemma prog_core:
  assumes "\<And>j. core (eslot e' j) = core (eslot e j)" and "same_cb (callbacks e) (callbacks e')"
    and "wal (orderbook e') = None \<longleftrightarrow> wal (orderbook e) = None"
  shows "prog M t e e'"
proof -
  have "ident (eslot e' j) = ident (eslot e j)" "vol e' j = vol e j" for j
    using core_eqD [OF assms(1)] by (simp_all add: ident_def vol_def)
  then show ?thesis using assms(2,3) by (simp add: prog_def)
qed

text \<open>A pre-booking callback that never lets an order rest.\<close>

definition vetoes :: "'u OmEngineCallbacks \<Rightarrow> bool" where
  "vetoes cb \<longleftrightarrow> (\<exists>f. pre_booked cb = Some f \<and> (\<forall>sl u. \<not> fst (f sl u)))"

lemma book_taker_ok:
  assumes K: "khash_ok (env_hash E)" "kavl_ok E" and m: "matching E pid t e B D F" and r: "book_taker E pid t e = (rc, e')"
  shows "prog M t e e' \<and>
    (rc = OM_OK \<and> book_inv E (orderbook e') (booked_levels e B pid t) D F \<and> \<not> vetoes (callbacks e) \<or>
     matching E pid t e' B D F \<and> (rc = OM_OK \<longrightarrow> pre_booked (callbacks e) \<noteq> None)) \<and>
    rc \<in> {OM_OK, OM_ERR_RECOVERY_FAILED, OM_ERR_WAL_WRITE} \<and> volume_remain (eslot e' t) = volume_remain (eslot e t)"
proof -
  obtain ok e1 where p: "(case pre_booked (callbacks e) of None \<Rightarrow> (True, e)
      | Some f \<Rightarrow> (case f (eslot e t) (user_ctx (callbacks e)) of (ok, u) \<Rightarrow> (ok, set_user u e))) = (ok, e1)" by fastforce
  have q1: "quiet e e1" and nb: "ok \<or> pre_booked (callbacks e) \<noteq> None" using p by (auto split: option.splits prod.splits)
  show ?thesis
  proof (cases ok)
    case False
    then have e': "rc = OM_OK" "e' = notify (on_cancel (callbacks e1)) (\<lambda>f. f (eslot e1 t)) e1"
      using r by (simp_all add: book_taker_def p)
    have q: "quiet e e'" unfolding e'(2) by (rule quiet_trans [OF q1 quiet_notify])
    show ?thesis using m nb False e'(1) by (simp add: quiet_prog [OF q] quiet_matching [OF q] quietD(2) [OF q])
  next
    case True
    have nv: "\<not> vetoes (callbacks e)" using p True by (auto simp: vetoes_def split: option.splits prod.splits) (metis fst_conv)
    obtain rc' c where ins: "om_orderbook_insert E (orderbook e1) pid t = (rc', c)" by fastforce
    define e2 where "e2 = e1\<lparr>orderbook := c\<rparr>"
    have e': "rc = rc'" "e' = (if rc' = OM_OK then notify (on_booked (callbacks e2)) (\<lambda>f. f (eslot e2 t)) e2 else e2)"
      using r True by (auto simp: book_taker_def p ins Let_def e2_def)
    have q2: "quiet e2 e'" using quiet_notify e'(2) by auto
    have m1: "matching E pid t e1 B D F" using m by (simp add: quiet_matching [OF q1])
    then have M: "book_inv E (orderbook e1) B D F" "t \<notin> resting B" "t \<notin> set F" "t \<notin> D"
      "t < a_capacity (slab_a (slab (orderbook e1)))" by (simp_all add: matching_def)
    note I = orderbook_insert [OF K M ins refl]
    have sl: "core (eslot e2 j) = core (eslot e1 j)" for j using I by (auto simp: eslot_def e2_def split: if_splits)
    have v: "volume_remain (eslot e2 j) = volume_remain (eslot e1 j)" for j using core_eqD(3) [OF sl] .
    have "wal (orderbook e2) = None \<longleftrightarrow> wal (orderbook e1) = None" using I by (simp add: e2_def split: if_splits)
    then have "prog M t e1 e2" by (intro prog_core sl) (simp_all add: e2_def)
    then have pr: "prog M t e e'" using prog_trans [OF quiet_prog [OF q1]] prog_trans quiet_prog [OF q2] by blast
    have o: "oprice (orderbook e1) = oprice (orderbook e)" "eslot e1 t = eslot e t"
      using quietD(1,2) [OF q1] by (simp_all add: oprice_def fun_eq_iff)
    show ?thesis
    proof (cases "rc' = OM_OK")
      case True
      then have "book_inv E (orderbook e2) (booked_levels e B pid t) D F"
        using I o by (simp add: e2_def booked_levels_def Let_def eslot_def)
      then show ?thesis using pr True nv e'(1) v [of t] o(2) by (simp add: quietD(2,3) [OF q2])
    next
      case False
      then have "matching E pid t e2 B D F" using I m1 by (simp add: matching_def e2_def)
      then show ?thesis using pr False I e'(1) v [of t] o(2) by (simp add: quietD(2) [OF q2] quiet_matching [OF q2])
    qed
  qed
qed

section \<open>A whole match\<close>

definition crossing :: "('h, 'w, 'u) OmEngine \<Rightarrow> levels \<Rightarrow> u16 \<Rightarrow> nat \<Rightarrow> nat set" where
  "crossing e B pid t = {i \<in> set (concat (B pid (\<not> OM_IS_BID (flags (eslot e t))))). crosses e t i}"

text \<open>The makers' side after a match: \<open>L\<close> without the removed orders \<open>ds\<close>, in the same order.\<close>

definition sweep :: "nat list list \<Rightarrow> nat list list \<Rightarrow> nat list \<Rightarrow> bool" where
  "sweep L L' ds \<longleftrightarrow> subseq (concat L') (concat L) \<and> mset ds + mset (concat L') = mset (concat L)"

lemma engine_match_ok:
  assumes K: "khash_ok (env_hash E)" "kavl_ok E" and m: "matching E pid t e B D F"
  defines "mb \<equiv> \<not> OM_IS_BID (flags (eslot e t))"
  obtains rc e' L ds where "engine_match E e pid t x = Some (rc, e')" "prog (crossing e B pid t) t e e'"
    "sweep (B pid mb) L ds" "set ds \<subseteq> crossing e B pid t"
    "rc = OM_OK \<and> book_inv E (orderbook e') (booked_levels e (upd_levels B pid mb L) pid t) D (ds @ F) \<and>
       \<not> vetoes (callbacks e) \<or>
     matching E pid t e' (upd_levels B pid mb L) D (ds @ F) \<and>
       (rc = OM_OK \<longrightarrow> pre_booked (callbacks e) = None \<longrightarrow> volume_remain (eslot e' t) = 0)"
    "rc \<in> {OM_OK, OM_ERR_RECOVERY_FAILED, OM_ERR_WAL_WRITE}"
proof (cases "volume_remain (eslot e t) = 0")
  case True
  then have "engine_match E e pid t x = Some (OM_OK, e)" by (simp add: engine_match_def)
  moreover have "upd_levels B pid mb (B pid mb) = B" by (simp add: upd_levels_def)
  ultimately show thesis using m True quiet_prog [OF quiet_refl]
    by (intro that [of OM_OK e "B pid mb" "[]"]) (simp_all add: sweep_def)
next
  case False
  obtain ts e1 where ts: "(case wal (orderbook e) of None \<Rightarrow> (0, e)
    | Some w \<Rightarrow> (case os_realtime (env_os E) (world w) of (t, W) \<Rightarrow>
        (t, upd_book (\<lambda>c. c\<lparr>wal := Some (w\<lparr>world := W\<rparr>)\<rparr>) e))) = (ts, e1)" by fastforce
  have q: "quiet e e1"
  proof (cases "wal (orderbook e)")
    case (Some w)
    then obtain W where "e1 = upd_book (\<lambda>c. c\<lparr>wal := Some (w\<lparr>world := W\<rparr>)\<rparr>) e" using ts by (auto split: prod.splits)
    then show ?thesis by (intro quietI [where w = "Some (w\<lparr>world := W\<rparr>)"]) (simp_all add: upd_book_def Some)
  qed (use ts in simp)
  let ?M = "crossing e B pid t"
  have same: "upd_levels B pid mb ([] @ B pid mb) = B" by (simp add: upd_levels_def)
  have m1: "matching E pid t e1 (upd_levels B pid mb ([] @ B pid mb)) D F" unfolding same using m by (simp add: quiet_matching [OF q])
  have tM: "t \<notin> ?M" using m restingI by (auto simp: matching_def crossing_def simp del: set_concat)
  have fin: "finite ?M" by (simp add: crossing_def)
  have inv: "side_inv (orderbook e1) pid mb (B pid mb)"
    using m1 [unfolded same] book_side [of E "orderbook e1" B D F pid mb] by (simp add: matching_def)
  note H = best_head [OF inv]
  define lvl where "lvl = (case om_orderbook_get_best_head (orderbook e1) pid mb of None \<Rightarrow> OM_SLOT_IDX_NULL | Some l \<Rightarrow> l)"
  have lvl: "lvl = (if B pid mb = [] then OM_SLOT_IDX_NULL else hd (hd (B pid mb)))"
  proof -
    have "om_orderbook_get_best_head (orderbook e1) pid mb = (if book_head (orderbook e1) pid mb = OM_SLOT_IDX_NULL then None
        else om_slot_from_idx (slab (orderbook e1)) (book_head (orderbook e1) pid mb))"
      by (simp add: om_orderbook_get_best_head_def book_head_def)
    then show ?thesis using H(1,2,3) by (cases "B pid mb = []") (simp_all add: lvl_def om_slot_from_idx_def)
  qed
  define r where "r = match_levels_loop E x pid t ts lvl (volume_remain (eslot e t)) e1"
  have "loop_ok (after_levels E pid mb t ?M e1 B D F [] (B pid mb)) t r" unfolding r_def lvl
    using m1 by (intro match_levels_loop_ok [OF K fin tM])
      (auto simp: crossing_def crosses_def mb_def quietD(2) [OF q] simp del: set_concat)
  then consider (err) e2 where "r = Some (Inl (OM_ERR_WAL_WRITE, e2))" "after_levels E pid mb t ?M e1 B D F [] (B pid mb) e2"
    | (left) rem e2 where "r = Some (Inr (rem, e2))" "after_levels E pid mb t ?M e1 B D F [] (B pid mb) e2"
      "volume_remain (eslot e2 t) = rem"
    unfolding loop_ok_def by (auto split: option.splits sum.splits)
  then show thesis
  proof cases
    case err
    then have "engine_match E e pid t x = Some (OM_ERR_WAL_WRITE, e2)"
      using False by (simp add: engine_match_def Let_def ts r_def lvl_def mb_def)
    moreover obtain L ds where "prog ?M t e1 e2" "matching E pid t e2 (upd_levels B pid mb L) D (ds @ F)"
      "sweep (B pid mb) L ds" "set ds \<subseteq> ?M" using err(2) by (auto simp: after_levels_def sweep_def)
    ultimately show thesis using prog_trans [OF quiet_prog [OF q]] by (intro that [of OM_ERR_WAL_WRITE e2 L ds]) auto
  next
    case left
    obtain rc e' where bt: "book_taker E pid t e2 = (rc, e')" by fastforce
    have eq: "engine_match E e pid t x = Some (if rem = 0 then (OM_OK, e2) else (rc, e'))"
      using False left(1) bt by (simp add: engine_match_def Let_def ts r_def lvl_def mb_def)
    obtain L ds where *: "prog ?M t e1 e2" "matching E pid t e2 (upd_levels B pid mb L) D (ds @ F)"
      "sweep (B pid mb) L ds" "set ds \<subseteq> ?M" using left(2) by (auto simp: after_levels_def sweep_def)
    have p: "prog ?M t e e2" using prog_trans [OF quiet_prog [OF q] *(1)] .
    show thesis
    proof (cases "rem = 0")
      case True
      then show thesis using eq p * left(3) by (intro that [of OM_OK e2 L ds]) auto
    next
      case rem: False
      note T = book_taker_ok [OF K *(2) bt, where M = ?M]
      have bl: "booked_levels e2 B' pid t = booked_levels e B' pid t" for B'
        by (simp add: booked_levels_def Let_def oprice_def [abs_def] progD [OF p] flip: eslot_def)
      have "pre_booked (callbacks e2) = pre_booked (callbacks e)" "vetoes (callbacks e2) = vetoes (callbacks e)"
        using p same_cbD(8) [of "callbacks e" "callbacks e2"] by (auto simp: prog_def vetoes_def)
      then show thesis using eq rem T bl * prog_trans [OF p] by (intro that [of rc e' L ds]) auto
    qed
  qed
qed

section \<open>Example engines\<close>

type_synonym demo_engine = "(u64 \<Rightarrow> OmOrderEntry option, unit, unit) OmEngine"

definition no_callbacks :: "'u \<Rightarrow> 'u OmEngineCallbacks" where
  "no_callbacks u = \<lparr>can_match = None, on_match = None, on_deal = None, on_booked = None, on_filled = None,
     on_cancel = None, on_decrement_cancel = None, pre_booked = None, user_ctx = u\<rparr>"

text \<open>An ask of 4 at 100 in slot 2, about to meet the resting bid of 10 at 100 in slot 3.\<close>

lemma demo_taker:
  fixes cb :: "'u OmEngineCallbacks"
  obtains e where "matching demo_env 0 2 e (upd_levels (\<lambda>_ _. []) 0 True [[3]]) {} [1, 0]" "callbacks e = cb"
    "wal (orderbook e) = None" "volume_remain (eslot e 3) = 10" "volume_remain (eslot e 2) = 4"
    "price (eslot e 3) = 100" "price (eslot e 2) = 100" "\<not> OM_IS_BID (flags (eslot e 2))" "order_id (eslot e 3) = 1"
    "order_id (eslot e 2) = 2"
proof -
  obtain c where c: "book_inv demo_env c (upd_levels (\<lambda>_ _. []) 0 True [[3]]) {} (2 # [1, 0])"
    "order_id (slot_at (slab c) 3) = 1" "volume_remain (slot_at (slab c) 3) = 10" "wal c = None" "oprice c 3 = 100"
    "max_products c = 2" using demo_resting by metis
  let ?f = "fill_slot 100 4 6 OM_SIDE_ASK 2"
  let ?e = "\<lparr>orderbook = upd_slab (\<lambda>s. upd_slot 2 ?f (snd (om_slab_alloc s))) c, callbacks = cb, wal_owned = False\<rparr>"
  have sh: "book_shape c (upd_levels (\<lambda>_ _. []) 0 True [[3]]) {} (2 # [1, 0])" using c(1) by (simp add: book_inv_def)
  note I = book_shapeD(1) [OF sh]
  have "2 < a_capacity (slab_a (slab c))" using slab_invD(3) [OF I, of 2] by simp
  moreover have "2 \<notin> resting (upd_levels (\<lambda>_ _. []) 0 True [[3]])" by (auto simp: resting_def upd_levels_def)
  ultimately have "matching demo_env 0 2 ?e (upd_levels (\<lambda>_ _. []) 0 True [[3]]) {} [1, 0]"
    using book_inv_alloc [OF c(1), of ?f] c(6) by (simp add: matching_def om_slab_alloc_Cons [OF I] upd_slot_def)
  then show thesis using c
    by (intro that [of ?e]) (simp_all add: eslot_def om_slab_alloc_Cons [OF I] oprice_def OM_IS_BID_def OM_SIDE_ASK_def
        OM_SIDE_BID_def OM_SIDE_MASK_def)
qed

section \<open>The claims on matching\<close>

text \<open>
  C3: matching an order always ends, whatever the callbacks answer and with or without the
  same-organisation exclusion; the book keeps its invariant, the makers' side only loses
  orders at acceptable prices and keeps the order of the others, every lost order's slot is
  freed, and the taker either rests in the book, with success, or is outside of it.
\<close>

theorem engine_match_terminates:
  assumes "khash_ok (env_hash E)" and "kavl_ok E" and "matching E pid t e B D F"
  shows "\<exists>rc e' L ds. engine_match E e pid t x = Some (rc, e') \<and>
    sweep (B pid (\<not> OM_IS_BID (flags (eslot e t)))) L ds \<and> set ds \<subseteq> crossing e B pid t \<and>
    (rc = OM_OK \<and> book_inv E (orderbook e')
       (booked_levels e (upd_levels B pid (\<not> OM_IS_BID (flags (eslot e t))) L) pid t) D (ds @ F) \<or>
     matching E pid t e' (upd_levels B pid (\<not> OM_IS_BID (flags (eslot e t))) L) D (ds @ F)) \<and>
    rc \<in> {OM_OK, OM_ERR_RECOVERY_FAILED, OM_ERR_WAL_WRITE}"
  by (rule engine_match_ok [OF assms, of x]) blast

theorem engine_match_terminates_witness:
  "\<exists>(e :: demo_engine) rc e'. matching demo_env 0 2 e (upd_levels (\<lambda>_ _. []) 0 True [[3]]) {} [1, 0] \<and>
     engine_match demo_env e 0 2 True = Some (rc, e')"
proof -
  obtain e :: demo_engine where e: "matching demo_env 0 2 e (upd_levels (\<lambda>_ _. []) 0 True [[3]]) {} [1, 0]"
    using demo_taker [of "no_callbacks ()"] by metis
  obtain rc e' where "engine_match demo_env e 0 2 True = Some (rc, e')"
    using engine_match_terminates [OF demo_env_hash demo_env_kavl e, of True] by (elim exE conjE)
  with e show ?thesis by (intro exI [of _ e] exI [of _ rc] exI [of _ e']) simp
qed





lemma engine_match_taker:
  assumes "khash_ok (env_hash E)" and "kavl_ok E" and "matching E pid t e B D F"
    and r: "engine_match E e pid t x = Some (OM_OK, e')" and nb: "pre_booked (callbacks e) = None"
  shows "vol e' t = 0 \<or> (\<exists>B' F'. book_inv E (orderbook e') B' D F' \<and>
    B' pid (OM_IS_BID (flags (eslot e t))) = spec_insert (oprice (orderbook e)) (OM_IS_BID (flags (eslot e t))) t
      (B pid (OM_IS_BID (flags (eslot e t)))))"
proof (rule engine_match_ok [OF assms(1-3), of x])
  let ?tb = "OM_IS_BID (flags (eslot e t))"
  fix rc e'' L ds
  assume "engine_match E e pid t x = Some (rc, e'')"
    and d: "rc = OM_OK \<and> book_inv E (orderbook e'') (booked_levels e (upd_levels B pid (\<not> ?tb) L) pid t) D (ds @ F) \<and>
       \<not> vetoes (callbacks e) \<or>
     matching E pid t e'' (upd_levels B pid (\<not> ?tb) L) D (ds @ F) \<and>
       (rc = OM_OK \<longrightarrow> pre_booked (callbacks e) = None \<longrightarrow> volume_remain (eslot e'' t) = 0)"
  then have "e'' = e'" "rc = OM_OK" using r by simp_all
  moreover have "booked_levels e (upd_levels B pid (\<not> ?tb) L) pid t pid ?tb = spec_insert (oprice (orderbook e)) ?tb t (B pid ?tb)"
    by (simp add: booked_levels_def Let_def upd_levels_def)
  ultimately show ?thesis using d nb by (auto simp: vol_def)
qed

end
