(* ===== verification/Ring_Index.thy ===== *)
theory Ring_Index
  imports Prelude
begin

text \<open>
  Arithmetic shared by the ring buffers (\<^verbatim>\<open>om_worker.c\<close>, \<^verbatim>\<open>om_bus_mp.c\<close>, \<^verbatim>\<open>om_bus_shm.c\<close>): the
  power-of-two test on a capacity, and the position of a 64-bit sequence number in a ring of
  that capacity.
\<close>

section \<open>Powers of two\<close>

definition is_power_of_two :: "u64 \<Rightarrow> bool" where
  "is_power_of_two v \<longleftrightarrow> v \<noteq> 0 \<and> v AND (v - 1) = 0"

lemma nat_and_pred:
  fixes c :: nat
  assumes "0 < c" "c AND (c - 1) = 0"
  shows "\<exists>k. c = 2 ^ k"
  using assms
proof (induction c rule: less_induct)
  case (less c)
  have r: "c AND (c - 1) = of_bool (odd c \<and> odd (c - 1)) + 2 * ((c div 2) AND ((c - 1) div 2))"
    by (rule and_rec)
  show ?case
  proof (cases "odd c")
    case True
    then have "(c - 1) div 2 = c div 2" by (auto elim: oddE)
    with r less.prems(2) have "c div 2 = 0" by simp
    with True have "c = 1" by (metis bits_mod_div_trivial div_mod_decomp mult_zero_left add_0 odd_iff_mod_2_eq_one)
    then show ?thesis by (intro exI [of _ 0]) simp
  next
    case False
    then obtain m where m: "c = 2 * m" by blast
    with less.prems(1) have "0 < m" "(c - 1) div 2 = m - 1" by auto
    with r m less.prems(2) False have "m AND (m - 1) = 0" by simp
    with less.IH [of m] \<open>0 < m\<close> m obtain k where "m = 2 ^ k" by auto
    with m show ?thesis by (intro exI [of _ "Suc k"]) simp
  qed
qed

lemma power_of_twoE:
  assumes "is_power_of_two c"
  obtains k where "k < 64" "unat c = 2 ^ k" "c - 1 = mask k"
proof -
  from assms have c: "c \<noteq> 0" "c AND (c - 1) = 0" by (simp_all add: is_power_of_two_def)
  have u: "unat (c - 1) = unat c - 1" using c(1) by (simp add: unat_minus_one)
  have "unat c AND (unat c - 1) = 0"
    using c(2) by (metis u unsigned_and_eq unsigned_0)
  with nat_and_pred [of "unat c"] c(1) obtain k where k: "unat c = 2 ^ k" by (auto simp: unat_gt_0)
  have "unat c < 2 ^ 64" using unsigned_less [of c, where 'a = nat] by simp
  then have "(2::nat) ^ k < 2 ^ 64" by (simp only: k)
  then have "k < 64" by (simp only: power_strict_increasing_iff [of "2::nat"])
  moreover have "c = 2 ^ k" using arg_cong [OF k, of "of_nat :: nat \<Rightarrow> u64"] by simp
  then have "c - 1 = mask k" by (simp add: mask_eq_exp_minus_1)
  ultimately show ?thesis using k by (auto intro: that)
qed

section \<open>Ring positions\<close>

lemma ring_pos:
  assumes "is_power_of_two c"
  shows "unat (s AND (c - 1)) = unat s mod unat c"
proof -
  obtain k where k: "k < 64" "unat c = 2 ^ k" "c - 1 = mask k" using power_of_twoE [OF assms] .
  have "unat (s AND mask k) = unat s mod 2 ^ k"
    by (simp only: take_bit_eq_mask [symmetric] unsigned_take_bit_eq) (simp only: take_bit_eq_mod)
  then show ?thesis by (simp add: k(2,3))
qed

lemma ring_pos_less:
  assumes "is_power_of_two c"
  shows "unat (s AND (c - 1)) < unat c"
  using assms by (simp add: ring_pos is_power_of_two_def unat_gt_0)

text \<open>Two sequence numbers less than a capacity apart have different positions.\<close>

lemma mod_window_inj:
  fixes a b c :: nat
  assumes "a mod c = b mod c" "a \<le> b" "b < a + c"
  shows "a = b"
proof -
  have "c dvd b - a" using assms(1,2) by (metis mod_eq_dvd_iff_nat)
  with assms(2,3) show ?thesis by (auto dest: dvd_imp_le)
qed

text \<open>Every slot has a position in each window of a capacity.\<close>

lemma window_rep:
  fixes c d q :: nat
  assumes "0 < c"
  shows "\<exists>j. d \<le> j \<and> j < d + c \<and> j mod c = q mod c"
proof (intro exI conjI)
  let ?j = "d + (q + c * d - d) mod c"
  show "d \<le> ?j" "?j < d + c" using assms by simp_all
  have "d + (q + c * d - d) = q + c * d" using assms by (cases c) simp_all
  then show "?j mod c = q mod c" by (metis mod_add_right_eq mod_mult_self2)
qed

section \<open>Capacities and masks of 32 bits\<close>

lemma unat_ucast_up: "unat (ucast (v :: u32) :: u64) = unat v"
proof -
  have "unat v < 2 ^ 32" using unsigned_less [of v, where 'a = nat] by simp
  then have "unat v < 2 ^ 64" by simp
  then show ?thesis by (simp add: unsigned_ucast_eq take_bit_nat_eq_self)
qed

lemma pow2_32:
  fixes v :: u32
  assumes v: "v \<noteq> 0" "v AND (v - 1) = 0"
  shows "is_power_of_two (ucast v)" "ucast (v - 1) = (ucast v :: u64) - 1"
proof -
  have nz: "(ucast v :: u64) \<noteq> 0" using v(1) unat_ucast_up [of v] by (metis unat_eq_zero unsigned_0)
  have "unat (ucast (v - 1) :: u64) = unat ((ucast v :: u64) - 1)"
    unfolding unat_ucast_up unat_minus_one [OF nz] unat_minus_one [OF v(1)] ..
  then show e: "ucast (v - 1) = (ucast v :: u64) - 1" by (simp add: word_unat_eq_iff)
  have "(ucast v :: u64) AND ucast (v - 1) = ucast (v AND (v - 1))" by (simp only: unsigned_and_eq)
  with v(2) nz e show "is_power_of_two (ucast v)" by (simp add: is_power_of_two_def)
qed

lemma ring_pos_32:
  fixes v :: u32 and pos :: u64
  assumes "v \<noteq> 0" "v AND (v - 1) = 0"
  shows "unat (pos AND ucast (v - 1)) = unat pos mod unat v"
  unfolding pow2_32(2) [OF assms] by (simp only: ring_pos [OF pow2_32(1) [OF assms]] unat_ucast_up)

end
