(* ===== verification/Worker.thy ===== *)
theory Worker
  imports Om_Error Ring_Index "HOL-Library.Sublist"
begin

text \<open>
  The single-producer, multi-consumer ring of \<^verbatim>\<open>include/openmarket/om_worker.h\<close> and
  \<^verbatim>\<open>src/om_worker.c\<close>.  Every consumer receives every record.

  Pointers are values of a type \<open>'p\<close>, NULL is \<open>None\<close>.  The outcomes of \<^verbatim>\<open>calloc\<close> and of the pthread
  initialisers are boolean arguments; the mutex and the condition variable carry no data, so
  an operation that broadcasts says so in its result.  The bodies of the two spin loops of
  \<^verbatim>\<open>om_market_ring_enqueue\<close> are definitions of their own: the loops run alone are partial functions
  whose value is \<open>None\<close> when they never leave, and the interleaving of the producer with the
  consumers is the step relation \<open>ring_step\<close>.
\<close>

section \<open>State\<close>

record 'p OmMarketRingSlot =
  seq :: u64
  ptr :: "'p option"

record 'p OmMarketRing =
  slots :: "'p OmMarketRingSlot list"
  capacity :: u64
  ring_mask :: u64
  consumer_count :: u32
  notify_batch :: u64
  head :: u64
  min_tail :: u64
  consumer_tails :: "u64 list"

record OmMarketRingConfig =
  cfg_capacity :: u64
  cfg_consumer_count :: u32
  cfg_notify_batch :: u64

section \<open>Initialisation\<close>

definition om_market_is_power_of_two :: "u64 \<Rightarrow> bool" where
  "om_market_is_power_of_two value \<longleftrightarrow> value \<noteq> 0 \<and> value AND (value - 1) = 0"

definition zero_ring :: "'p OmMarketRing" where
  "zero_ring = \<lparr>slots = [], capacity = 0, ring_mask = 0, consumer_count = 0, notify_batch = 0, head = 0,
     min_tail = 0, consumer_tails = []\<rparr>"

record ring_allocs =
  slots_ok :: bool
  tails_ok :: bool
  mutex_ok :: bool
  cond_ok :: bool

definition om_market_ring_init ::
  "ring_allocs \<Rightarrow> OmMarketRingConfig \<Rightarrow> 'p OmMarketRing \<Rightarrow> OmError \<times> 'p OmMarketRing" where
  "om_market_ring_init ok config ring =
     (if cfg_capacity config = 0 \<or> cfg_consumer_count config = 0 then (OM_ERR_INVALID_PARAM, ring)
      else if \<not> om_market_is_power_of_two (cfg_capacity config) then (OM_ERR_RING_NOT_POW2, ring)
      else let r1 = zero_ring\<lparr>capacity := cfg_capacity config, ring_mask := cfg_capacity config - 1,
                      consumer_count := cfg_consumer_count config, notify_batch := cfg_notify_batch config\<rparr>
        in if \<not> slots_ok ok then (OM_ERR_RING_SLOTS_ALLOC, r1)
           else if \<not> tails_ok ok then (OM_ERR_RING_TAILS_ALLOC, r1)
           else if \<not> mutex_ok ok then (OM_ERR_RING_MUTEX_INIT, r1)
           else if \<not> cond_ok ok then (OM_ERR_RING_COND_INIT, r1)
           else (OM_OK, r1\<lparr>slots := map (\<lambda>i. \<lparr>seq = of_nat i, ptr = None\<rparr>) [0..<unat (cfg_capacity config)],
                   consumer_tails := replicate (unat (cfg_consumer_count config)) 0\<rparr>))"

definition om_market_ring_destroy :: "'p OmMarketRing \<Rightarrow> 'p OmMarketRing" where
  "om_market_ring_destroy ring = zero_ring"

definition om_market_ring_register_consumer :: "'p OmMarketRing \<Rightarrow> u32 \<Rightarrow> OmError \<times> 'p OmMarketRing" where
  "om_market_ring_register_consumer ring consumer_index =
     (if consumer_count ring \<le> consumer_index then (OM_ERR_RING_CONSUMER_ID, ring)
      else (OM_OK, ring\<lparr>consumer_tails := (consumer_tails ring)[unat consumer_index := 0]\<rparr>))"

section \<open>Tails\<close>

definition om_market_ring_min_tail :: "'p OmMarketRing \<Rightarrow> u64" where
  "om_market_ring_min_tail ring =
     (let m = fold (\<lambda>i m. let v = consumer_tails ring ! i in if v < m then v else m)
                [0..<unat (consumer_count ring)] UINT64_MAX
      in if m = UINT64_MAX then 0 else m)"

definition om_market_ring_refresh_min_tail_on_consume :: "'p OmMarketRing \<Rightarrow> u64 \<Rightarrow> u64 \<Rightarrow> 'p OmMarketRing" where
  "om_market_ring_refresh_min_tail_on_consume ring prev_tail new_tail =
     (if prev_tail = min_tail ring \<or> new_tail < min_tail ring
      then ring\<lparr>min_tail := om_market_ring_min_tail ring\<rparr> else ring)"

section \<open>The producer\<close>

definition slot_idx :: "'p OmMarketRing \<Rightarrow> u64 \<Rightarrow> nat" where
  "slot_idx ring s = unat (s AND ring_mask ring)"

definition slot_seq :: "'p OmMarketRing \<Rightarrow> u64 \<Rightarrow> u64" where
  "slot_seq ring s = seq (slots ring ! slot_idx ring s)"

text \<open>One turn of the loop that waits for room: whether it leaves, and the ring after it.\<close>

definition room_turn :: "u64 \<Rightarrow> u32 \<Rightarrow> 'p OmMarketRing \<Rightarrow> bool \<times> 'p OmMarketRing" where
  "room_turn h pressure_spins ring =
     (if h - min_tail ring < capacity ring then (True, ring)
      else if pressure_spins AND 31 = 0 then (False, ring\<lparr>min_tail := om_market_ring_min_tail ring\<rparr>)
      else (False, ring))"

partial_function (option) room_loop :: "u64 \<Rightarrow> u32 \<Rightarrow> 'p OmMarketRing \<Rightarrow> 'p OmMarketRing option" where
  "room_loop h spins ring =
     (case room_turn h spins ring of (leaves, r) \<Rightarrow> if leaves then Some r else room_loop h (spins + 1) r)"

partial_function (option) slot_loop :: "u64 \<Rightarrow> u32 \<Rightarrow> 'p OmMarketRing \<Rightarrow> 'p OmMarketRing option" where
  "slot_loop h spins ring = (if slot_seq ring h \<noteq> h then slot_loop h (spins + 1) ring else Some ring)"

definition ring_publish :: "u64 \<Rightarrow> 'p \<Rightarrow> 'p OmMarketRing \<Rightarrow> 'p OmMarketRing" where
  "ring_publish h p ring =
     ring\<lparr>slots := (slots ring)[slot_idx ring h := \<lparr>seq = h + 1, ptr = Some p\<rparr>], head := h + 1\<rparr>"

definition ring_broadcasts :: "u64 \<Rightarrow> 'p OmMarketRing \<Rightarrow> bool" where
  "ring_broadcasts h ring \<longleftrightarrow> 0 < notify_batch ring \<and> (h + 1) mod notify_batch ring = 0"

text \<open>The whole call, run without interference; the flag says whether it broadcasts.\<close>

definition om_market_ring_enqueue :: "'p OmMarketRing \<Rightarrow> 'p option \<Rightarrow> (OmError \<times> bool \<times> 'p OmMarketRing) option" where
  "om_market_ring_enqueue ring p =
     (case p of None \<Rightarrow> Some (OM_ERR_NULL_PARAM, False, ring)
      | Some q \<Rightarrow> (case room_loop (head ring) 0 ring of None \<Rightarrow> None
         | Some r1 \<Rightarrow> (case slot_loop (head ring) 0 r1 of None \<Rightarrow> None
             | Some r2 \<Rightarrow> Some (OM_OK, ring_broadcasts (head ring) r2, ring_publish (head ring) q r2))))"

section \<open>The consumers\<close>

text \<open>The result is an error, or the records received: none or one, or up to \<open>max_count\<close>.\<close>

definition set_tail :: "nat \<Rightarrow> u64 \<Rightarrow> 'p OmMarketRing \<Rightarrow> 'p OmMarketRing" where
  "set_tail i t ring = ring\<lparr>consumer_tails := (consumer_tails ring)[i := t]\<rparr>"

definition om_market_ring_dequeue ::
  "'p OmMarketRing \<Rightarrow> u32 \<Rightarrow> (OmError + 'p option list) \<times> 'p OmMarketRing" where
  "om_market_ring_dequeue ring consumer_index =
     (if consumer_count ring \<le> consumer_index then (Inl OM_ERR_RING_CONSUMER_ID, ring)
      else let tail = consumer_tails ring ! unat consumer_index
        in if slot_seq ring tail \<noteq> tail + 1 then (Inr [], ring)
           else let p = ptr (slots ring ! slot_idx ring tail);
                    r1 = set_tail (unat consumer_index) (tail + 1) ring
             in (Inr [p], om_market_ring_refresh_min_tail_on_consume r1 tail (tail + 1)))"

fun batch_loop :: "'p OmMarketRing \<Rightarrow> nat \<Rightarrow> u64 \<Rightarrow> 'p option list \<times> u64" where
  "batch_loop ring 0 tail = ([], tail)"
| "batch_loop ring (Suc n) tail =
     (if slot_seq ring tail \<noteq> tail + 1 then ([], tail)
      else case batch_loop ring n (tail + 1) of (ps, t) \<Rightarrow> (ptr (slots ring ! slot_idx ring tail) # ps, t))"

definition om_market_ring_dequeue_batch ::
  "'p OmMarketRing \<Rightarrow> u32 \<Rightarrow> nat \<Rightarrow> (OmError + 'p option list) \<times> 'p OmMarketRing" where
  "om_market_ring_dequeue_batch ring consumer_index max_count =
     (if max_count = 0 then (Inl OM_ERR_INVALID_PARAM, ring)
      else if consumer_count ring \<le> consumer_index then (Inl OM_ERR_RING_CONSUMER_ID, ring)
      else let i = unat consumer_index; prev_tail = consumer_tails ring ! i
        in case batch_loop ring max_count prev_tail of (ps, t) \<Rightarrow>
             if 0 < length ps
             then (Inr ps, om_market_ring_refresh_min_tail_on_consume (set_tail i t ring) prev_tail t)
             else (Inr ps, ring))"

text \<open>One turn of the wait loop: an error, or whether the caller goes on or sleeps until a broadcast.\<close>

definition om_market_ring_wait :: "'p OmMarketRing \<Rightarrow> u32 \<Rightarrow> u64 \<Rightarrow> OmError + bool" where
  "om_market_ring_wait ring consumer_index min_batch =
     (if min_batch = 0 then Inl OM_ERR_INVALID_PARAM
      else if consumer_count ring \<le> consumer_index then Inl OM_ERR_RING_CONSUMER_ID
      else Inr (min_batch \<le> head ring - consumer_tails ring ! unat consumer_index))"

section \<open>Interleaving of the producer with the consumers\<close>

text \<open>
  The producer is idle or inside \<^verbatim>\<open>om_market_ring_enqueue\<close>, in the first or in the second spin loop.
  \<open>sent\<close> and \<open>received\<close> are histories: the records published, and those that each consumer took since it
  was registered.
\<close>

datatype 'p producer = Idle | WaitRoom 'p u64 u32 | WaitSlot 'p u64 u32

record 'p ring_sys =
  ring :: "'p OmMarketRing"
  producer :: "'p producer"
  sent :: "'p list"
  received :: "nat \<Rightarrow> 'p option list"

inductive ring_step :: "'p ring_sys \<Rightarrow> 'p ring_sys \<Rightarrow> bool" where
  call: "producer s = Idle \<Longrightarrow> ring_step s (s\<lparr>producer := WaitRoom p (head (ring s)) 0\<rparr>)"
| no_room: "producer s = WaitRoom p h n \<Longrightarrow> room_turn h n (ring s) = (False, r)
    \<Longrightarrow> ring_step s (s\<lparr>ring := r, producer := WaitRoom p h (n + 1)\<rparr>)"
| room: "producer s = WaitRoom p h n \<Longrightarrow> room_turn h n (ring s) = (True, r)
    \<Longrightarrow> ring_step s (s\<lparr>ring := r, producer := WaitSlot p h 0\<rparr>)"
| spin: "producer s = WaitSlot p h n \<Longrightarrow> slot_seq (ring s) h \<noteq> h
    \<Longrightarrow> ring_step s (s\<lparr>producer := WaitSlot p h (n + 1)\<rparr>)"
| publish: "producer s = WaitSlot p h n \<Longrightarrow> slot_seq (ring s) h = h
    \<Longrightarrow> ring_step s (s\<lparr>ring := ring_publish h p (ring s), producer := Idle, sent := sent s @ [p]\<rparr>)"
| dequeue: "om_market_ring_dequeue (ring s) i = (Inr ps, r)
    \<Longrightarrow> ring_step s (s\<lparr>ring := r, received := (received s)(unat i := received s (unat i) @ ps)\<rparr>)"
| dequeue_batch: "om_market_ring_dequeue_batch (ring s) i n = (Inr ps, r)
    \<Longrightarrow> ring_step s (s\<lparr>ring := r, received := (received s)(unat i := received s (unat i) @ ps)\<rparr>)"
| register: "om_market_ring_register_consumer (ring s) i = (OM_OK, r)
    \<Longrightarrow> ring_step s (s\<lparr>ring := r, received := (received s)(unat i := [])\<rparr>)"

definition ring_start :: "'p OmMarketRing \<Rightarrow> 'p ring_sys" where
  "ring_start r = \<lparr>ring = r, producer = Idle, sent = [], received = (\<lambda>_. [])\<rparr>"

inductive_cases ring_stepE: "ring_step s t"

section \<open>The ring holds the records sent\<close>

lemma om_market_is_power_of_two_eq: "om_market_is_power_of_two = is_power_of_two"
  by (simp add: fun_eq_iff om_market_is_power_of_two_def is_power_of_two_def)

definition ring_ok :: "'p OmMarketRing \<Rightarrow> 'p list \<Rightarrow> bool" where
  "ring_ok r xs \<longleftrightarrow> is_power_of_two (capacity r) \<and> 1 < capacity r \<and> ring_mask r = capacity r - 1 \<and>
     length (slots r) = unat (capacity r) \<and> unat (head r) = length xs \<and> length xs \<le> unat (capacity r) \<and>
     (\<forall>i < unat (capacity r). seq (slots r ! i) = (if i < length xs then of_nat i + 1 else of_nat i) \<and>
        (i < length xs \<longrightarrow> ptr (slots r ! i) = Some (xs ! i)))"

definition tails_ok_inv :: "'p OmMarketRing \<Rightarrow> nat \<Rightarrow> bool" where
  "tails_ok_inv r k \<longleftrightarrow> length (consumer_tails r) = unat (consumer_count r) \<and>
     (\<forall>i < length (consumer_tails r). unat (consumer_tails r ! i) \<le> k)"

lemma slot_idx_eq: "ring_ok r xs \<Longrightarrow> slot_idx r s = unat s mod unat (capacity r)"
  by (simp add: ring_ok_def slot_idx_def ring_pos)

text \<open>The sequence number found at a position up to the head.\<close>

lemma slot_seq_eq:
  assumes ok: "ring_ok r xs" and s: "unat s \<le> length xs"
  shows "slot_seq r s = (if unat s = unat (capacity r) then 1 else if unat s < length xs then s + 1 else s)"
proof (cases "unat s = unat (capacity r)")
  case True
  have "0 < length xs" "0 < unat (capacity r)" using ok s True by (auto simp: ring_ok_def word_less_nat_alt)
  with True show ?thesis using ok slot_idx_eq [OF ok, of s] unfolding slot_seq_def ring_ok_def by simp
next
  case False
  then have "unat s < unat (capacity r)" using ok s by (auto simp: ring_ok_def)
  with False show ?thesis using ok slot_idx_eq [OF ok, of s] unfolding slot_seq_def ring_ok_def by simp
qed

lemma slot_ready:
  assumes ok: "ring_ok r xs" and s: "unat s \<le> length xs"
  shows "slot_seq r s = s + 1 \<longleftrightarrow> unat s < length xs"
    "unat s < length xs \<Longrightarrow> ptr (slots r ! slot_idx r s) = Some (xs ! unat s)"
    "unat s < length xs \<Longrightarrow> unat (s + 1) = Suc (unat s)"
proof -
  have c: "1 < unat (capacity r)" and l: "length xs \<le> unat (capacity r)"
    using ok by (simp_all add: ring_ok_def word_less_nat_alt)
  show "slot_seq r s = s + 1 \<longleftrightarrow> unat s < length xs"
  proof (cases "unat s = unat (capacity r)")
    case True
    with c have "s \<noteq> 0" by auto
    with True l show ?thesis by (simp add: slot_seq_eq [OF ok s])
  next
    case False
    then show ?thesis by (simp add: slot_seq_eq [OF ok s])
  qed
  assume lt: "unat s < length xs"
  with l show "ptr (slots r ! slot_idx r s) = Some (xs ! unat s)"
    using ok by (simp add: slot_idx_eq [OF ok]) (simp add: ring_ok_def)
  have "unat s + 1 < 2 ^ 64" using lt l unsigned_less [of "capacity r", where 'a = nat] by simp
  then show "unat (s + 1) = Suc (unat s)" by (simp add: unat_add_no_wrap)
qed

lemma ring_ok_frame:
  "slots r' = slots r \<Longrightarrow> capacity r' = capacity r \<Longrightarrow> ring_mask r' = ring_mask r \<Longrightarrow> head r' = head r
    \<Longrightarrow> ring_ok r' xs = ring_ok r xs"
  by (simp add: ring_ok_def)

lemma ring_tail_frame [simp]:
  "slots (set_tail i t r) = slots r" "capacity (set_tail i t r) = capacity r" "ring_mask (set_tail i t r) = ring_mask r"
  "head (set_tail i t r) = head r" "consumer_count (set_tail i t r) = consumer_count r"
  "consumer_tails (set_tail i t r) = (consumer_tails r)[i := t]"
  "slots (om_market_ring_refresh_min_tail_on_consume r p n) = slots r"
  "capacity (om_market_ring_refresh_min_tail_on_consume r p n) = capacity r"
  "ring_mask (om_market_ring_refresh_min_tail_on_consume r p n) = ring_mask r"
  "head (om_market_ring_refresh_min_tail_on_consume r p n) = head r"
  "consumer_count (om_market_ring_refresh_min_tail_on_consume r p n) = consumer_count r"
  "consumer_tails (om_market_ring_refresh_min_tail_on_consume r p n) = consumer_tails r"
  by (simp_all add: set_tail_def om_market_ring_refresh_min_tail_on_consume_def)

text \<open>Publication: possible exactly while fewer than \<open>capacity\<close> records have been sent.\<close>

lemma publish_gate: "ring_ok r xs \<Longrightarrow> slot_seq r (head r) = head r \<longleftrightarrow> length xs < unat (capacity r)"
  using slot_seq_eq [of r xs "head r"] by (auto simp: ring_ok_def word_less_nat_alt)

lemma ring_publish_ok:
  assumes ok: "ring_ok r xs" and lt: "length xs < unat (capacity r)"
  shows "ring_ok (ring_publish (head r) p r) (xs @ [p])"
proof -
  have h: "unat (head r) = length xs" using ok by (simp add: ring_ok_def)
  have i: "slot_idx r (head r) = length xs" using lt by (simp add: slot_idx_eq [OF ok] h)
  have b: "unat (head r) + 1 < 2 ^ 64" using lt h unsigned_less [of "capacity r", where 'a = nat] by simp
  have n: "unat (head r + 1) = Suc (length xs)" using b by (simp add: unat_add_no_wrap h)
  have hw: "head r = of_nat (length xs)" by (simp flip: h)
  show ?thesis using ok lt n i hw
    unfolding ring_ok_def ring_publish_def by (auto simp: nth_list_update nth_append less_Suc_eq)
qed

section \<open>Consumers\<close>

lemma batch_loop_Suc:
  assumes ok: "ring_ok r xs" and s: "unat s \<le> length xs"
  shows "batch_loop r (Suc n) s = (if unat s < length xs
    then (Some (xs ! unat s) # fst (batch_loop r n (s + 1)), snd (batch_loop r n (s + 1))) else ([], s))"
  using slot_ready [OF ok s] by (auto split: prod.splits)

lemma batch_loop_eq:
  assumes ok: "ring_ok r xs" and s: "unat s \<le> length xs"
  shows "fst (batch_loop r n s) = map Some (take n (drop (unat s) xs))"
    "unat (snd (batch_loop r n s)) = unat s + min n (length xs - unat s)"
  using s
proof (induction n arbitrary: s)
  case 0
  { case 1 show ?case by simp }
  { case 2 show ?case by simp }
next
  case (Suc n)
  { case 1
    then show ?case unfolding batch_loop_Suc [OF ok 1] using Suc.IH(1) [of "s + 1"] slot_ready(3) [OF ok 1]
      by (auto simp: Cons_nth_drop_Suc [symmetric]) }
  { case 2
    then show ?case unfolding batch_loop_Suc [OF ok 2] using Suc.IH(2) [of "s + 1"] slot_ready(3) [OF ok 2] by auto }
qed

definition min_ok :: "'p OmMarketRing \<Rightarrow> bool" where
  "min_ok r \<longleftrightarrow> min_tail r \<le> head r"

lemma min_fold:
  fixes f :: "nat \<Rightarrow> u64"
  shows "(\<forall>i \<in> set is. f i \<le> k) \<Longrightarrow> m = UINT64_MAX \<or> m \<le> k \<Longrightarrow>
    (let z = fold (\<lambda>i m. let v = f i in if v < m then v else m) is m in z = UINT64_MAX \<or> z \<le> k)"
  by (induction "is" arbitrary: m) (auto simp: Let_def)

lemma min_tail_le:
  assumes "tails_ok_inv r (unat (head r))"
  shows "om_market_ring_min_tail r \<le> head r"
  using min_fold [of "[0..<unat (consumer_count r)]" "\<lambda>i. consumer_tails r ! i" "head r" UINT64_MAX] assms
  by (auto simp: om_market_ring_min_tail_def tails_ok_inv_def Let_def word_le_nat_alt)

lemma refresh_min_ok:
  "tails_ok_inv r (unat (head r)) \<Longrightarrow> min_ok r \<Longrightarrow> min_ok (om_market_ring_refresh_min_tail_on_consume r p n)"
  using min_tail_le [of r] by (simp add: min_ok_def om_market_ring_refresh_min_tail_on_consume_def)

section \<open>The invariant of the whole system\<close>

definition ring_sys_inv :: "u64 \<Rightarrow> 'p ring_sys \<Rightarrow> bool" where
  "ring_sys_inv c s \<longleftrightarrow> ring_ok (ring s) (sent s) \<and> capacity (ring s) = c \<and>
     tails_ok_inv (ring s) (length (sent s)) \<and> min_ok (ring s) \<and>
     (\<forall>i < length (consumer_tails (ring s)).
        received s i = map Some (take (unat (consumer_tails (ring s) ! i)) (sent s))) \<and>
     (case producer s of Idle \<Rightarrow> True | WaitRoom p h n \<Rightarrow> h = head (ring s) | WaitSlot p h n \<Rightarrow> h = head (ring s))"

lemma ring_okD: "ring_ok r xs \<Longrightarrow> unat (head r) = length xs"
  by (simp add: ring_ok_def)

lemma consumer_index: "tails_ok_inv r k \<Longrightarrow> \<not> consumer_count r \<le> i \<Longrightarrow> unat i < length (consumer_tails r)"
  by (simp add: tails_ok_inv_def word_less_nat_alt not_le)

text \<open>A consumer that moves its tail to \<open>t\<close> and takes the records in between keeps the invariant.\<close>

lemma ring_sys_advance:
  assumes inv: "ring_sys_inv c s" and i: "i < length (consumer_tails (ring s))"
    and t: "unat t = unat (consumer_tails (ring s) ! i) + length ps" "unat t \<le> length (sent s)"
    and ps: "ps = map Some (take (length ps) (drop (unat (consumer_tails (ring s) ! i)) (sent s)))"
  shows "ring_sys_inv c (s\<lparr>ring := om_market_ring_refresh_min_tail_on_consume (set_tail i t (ring s)) u v,
    received := (received s)(i := received s i @ ps)\<rparr>)"
proof -
  let ?r = "set_tail i t (ring s)"
  have h: "unat (head (ring s)) = length (sent s)" using inv by (simp add: ring_sys_inv_def ring_okD)
  have "tails_ok_inv ?r (length (sent s))" using inv t i
    by (auto simp: ring_sys_inv_def tails_ok_inv_def nth_list_update)
  moreover from this have "min_ok (om_market_ring_refresh_min_tail_on_consume ?r u v)"
    using inv refresh_min_ok [of ?r u v] by (simp add: h ring_sys_inv_def min_ok_def set_tail_def)
  moreover have "received s i @ ps = map Some (take (unat t) (sent s))"
    using inv i t(1) by (subst ps) (simp add: ring_sys_inv_def take_add)
  moreover have "ring_ok (om_market_ring_refresh_min_tail_on_consume ?r u v) (sent s)"
    using inv by (subst ring_ok_frame [of _ "ring s"]) (simp_all add: ring_sys_inv_def)
  ultimately show ?thesis using inv i
    by (auto simp: ring_sys_inv_def tails_ok_inv_def nth_list_update split: producer.splits)
qed

lemma dequeue_inv:
  assumes inv: "ring_sys_inv c s" and d: "om_market_ring_dequeue (ring s) i = (Inr ps, r)"
  shows "ring_sys_inv c (s\<lparr>ring := r, received := (received s)(unat i := received s (unat i) @ ps)\<rparr>)"
proof -
  have ok: "ring_ok (ring s) (sent s)" and tl: "tails_ok_inv (ring s) (length (sent s))"
    using inv by (simp_all add: ring_sys_inv_def)
  have cc: "\<not> consumer_count (ring s) \<le> i" using d by (auto simp: om_market_ring_dequeue_def)
  note i = consumer_index [OF tl cc]
  let ?t = "consumer_tails (ring s) ! unat i"
  have le: "unat ?t \<le> length (sent s)" using tl i by (simp add: tails_ok_inv_def)
  note R = slot_ready [OF ok le]
  show ?thesis
  proof (cases "unat ?t < length (sent s)")
    case True
    have "ps = [Some (sent s ! unat ?t)]"
      "r = om_market_ring_refresh_min_tail_on_consume (set_tail (unat i) (?t + 1) (ring s)) ?t (?t + 1)"
      using d cc True R by (auto simp: om_market_ring_dequeue_def Let_def)
    then show ?thesis
      using ring_sys_advance [OF inv i, of "?t + 1" ps] True R(3) by (simp add: take_Suc_conv_app_nth hd_drop_conv_nth take_Suc)
  next
    case False
    then have "ps = []" "r = ring s" using d cc R(1) by (auto simp: om_market_ring_dequeue_def Let_def)
    then show ?thesis using inv by simp
  qed
qed

lemma dequeue_batch_eq:
  assumes ok: "ring_ok r xs" and tl: "tails_ok_inv r (length xs)" and n: "0 < n" and cc: "\<not> consumer_count r \<le> i"
  defines "t \<equiv> consumer_tails r ! unat i"
  shows "fst (om_market_ring_dequeue_batch r i n) = Inr (map Some (take n (drop (unat t) xs)))"
proof -
  have "unat t \<le> length xs" using tl consumer_index [OF tl cc] by (simp add: tails_ok_inv_def t_def)
  from batch_loop_eq(1) [OF ok this, of n] show ?thesis
    using n cc by (auto simp: om_market_ring_dequeue_batch_def Let_def t_def split: prod.splits)
qed

lemma dequeue_batch_inv:
  assumes inv: "ring_sys_inv c s" and d: "om_market_ring_dequeue_batch (ring s) i n = (Inr ps, r)"
  shows "ring_sys_inv c (s\<lparr>ring := r, received := (received s)(unat i := received s (unat i) @ ps)\<rparr>)"
proof -
  have ok: "ring_ok (ring s) (sent s)" and tl: "tails_ok_inv (ring s) (length (sent s))"
    using inv by (simp_all add: ring_sys_inv_def)
  have cc: "\<not> consumer_count (ring s) \<le> i" "0 < n" using d by (auto simp: om_market_ring_dequeue_batch_def split: if_splits)
  note i = consumer_index [OF tl cc(1)]
  let ?t = "consumer_tails (ring s) ! unat i"
  have le: "unat ?t \<le> length (sent s)" using tl i by (simp add: tails_ok_inv_def)
  obtain t where b: "batch_loop (ring s) n ?t = (ps, t)"
    and r: "r = (if ps = [] then ring s else om_market_ring_refresh_min_tail_on_consume (set_tail (unat i) t (ring s)) ?t t)"
    using d cc by (auto simp: om_market_ring_dequeue_batch_def Let_def split: prod.splits if_splits)
  have ps: "ps = map Some (take n (drop (unat ?t) (sent s)))" "unat t = unat ?t + length ps"
    using batch_loop_eq [OF ok le, of n] by (simp_all add: b min.commute)
  have "ps = map Some (take (length ps) (drop (unat ?t) (sent s)))" by (simp add: ps(1) min_def)
  from ring_sys_advance [OF inv i ps(2) _ this] show ?thesis using inv ps by (cases "ps = []") (auto simp: r)
qed

lemma register_inv:
  assumes inv: "ring_sys_inv c s" and d: "om_market_ring_register_consumer (ring s) i = (OM_OK, r)"
  shows "ring_sys_inv c (s\<lparr>ring := r, received := (received s)(unat i := [])\<rparr>)"
proof -
  have cc: "\<not> consumer_count (ring s) \<le> i" and r: "r = (ring s)\<lparr>consumer_tails := (consumer_tails (ring s))[unat i := 0]\<rparr>"
    using d by (auto simp: om_market_ring_register_consumer_def split: if_splits)
  have "unat i < length (consumer_tails (ring s))" using consumer_index [OF _ cc] inv by (auto simp: ring_sys_inv_def)
  moreover have "ring_ok r (sent s)" using inv by (subst ring_ok_frame [of _ "ring s"]) (simp_all add: ring_sys_inv_def r)
  moreover note r
  ultimately show ?thesis using inv
    by (auto simp: ring_sys_inv_def tails_ok_inv_def min_ok_def nth_list_update split: producer.splits)
qed

lemma publish_inv:
  assumes inv: "ring_sys_inv c s" and p: "producer s = WaitSlot p h n" "slot_seq (ring s) h = h"
  shows "ring_sys_inv c (s\<lparr>ring := ring_publish h p (ring s), producer := Idle, sent := sent s @ [p]\<rparr>)"
proof -
  have ok: "ring_ok (ring s) (sent s)" and h: "h = head (ring s)" using inv p by (simp_all add: ring_sys_inv_def)
  have lt: "length (sent s) < unat (capacity (ring s))" using publish_gate [OF ok] p(2) h by simp
  note N = ring_publish_ok [OF ok lt, of p]
  have "unat (head (ring s) + 1) = Suc (unat (head (ring s)))"
    using ring_okD [OF N] ring_okD [OF ok] by (simp add: ring_publish_def)
  then have "head (ring s) \<le> head (ring s) + 1" by (simp add: word_le_nat_alt)
  then show ?thesis using inv N
    by (auto simp: ring_sys_inv_def tails_ok_inv_def min_ok_def h ring_publish_def le_SucI)
qed

lemma room_turn_inv:
  assumes inv: "ring_sys_inv c s" and t: "room_turn h n (ring s) = (b, r)" "h = head (ring s)"
    and q: "q = WaitRoom p h m \<or> q = WaitSlot p h m"
  shows "ring_sys_inv c (s\<lparr>ring := r, producer := q\<rparr>)"
proof -
  have tl: "tails_ok_inv (ring s) (unat (head (ring s)))" using inv ring_okD [of "ring s" "sent s"] by (simp add: ring_sys_inv_def)
  have r: "r = ring s \<or> r = (ring s)\<lparr>min_tail := om_market_ring_min_tail (ring s)\<rparr>"
    using t(1) by (auto simp: room_turn_def split: if_splits)
  then have "ring_ok r (sent s)" "min_ok r" "head r = head (ring s)"
    using inv min_tail_le [OF tl] ring_ok_frame [of r "ring s"] by (auto simp: ring_sys_inv_def min_ok_def)
  with r show ?thesis using inv q t(2) by (auto simp: ring_sys_inv_def tails_ok_inv_def)
qed

lemma ring_step_inv:
  assumes "ring_step s s'" and inv: "ring_sys_inv c s"
  shows "ring_sys_inv c s'"
  using assms(1)
proof cases
  case (call p)
  then show ?thesis using inv by (simp add: ring_sys_inv_def)
next
  case (no_room p h n r)
  then have "h = head (ring s)" using inv by (simp add: ring_sys_inv_def)
  from room_turn_inv [OF inv no_room(3) this, of "WaitRoom p h (n + 1)"] show ?thesis by (simp add: no_room)
next
  case (room p h n r)
  then have "h = head (ring s)" using inv by (simp add: ring_sys_inv_def)
  from room_turn_inv [OF inv room(3) this, of "WaitSlot p h 0"] show ?thesis by (simp add: room)
next
  case (spin p h n)
  then show ?thesis using inv by (simp add: ring_sys_inv_def)
qed (use inv publish_inv dequeue_inv dequeue_batch_inv register_inv in \<open>simp_all\<close>)

lemma ring_steps_inv: "ring_step\<^sup>*\<^sup>* s s' \<Longrightarrow> ring_sys_inv c s \<Longrightarrow> ring_sys_inv c s'"
  by (induction rule: rtranclp_induct) (auto intro: ring_step_inv)

lemma ring_init_inv:
  assumes i: "om_market_ring_init ok cfg r0 = (OM_OK, r)" and c: "1 < cfg_capacity cfg"
  shows "ring_sys_inv (cfg_capacity cfg) (ring_start r)"
proof -
  have r: "r = zero_ring\<lparr>capacity := cfg_capacity cfg, ring_mask := cfg_capacity cfg - 1,
      consumer_count := cfg_consumer_count cfg, notify_batch := cfg_notify_batch cfg,
      slots := map (\<lambda>i. \<lparr>seq = of_nat i, ptr = None\<rparr>) [0..<unat (cfg_capacity cfg)],
      consumer_tails := replicate (unat (cfg_consumer_count cfg)) 0\<rparr>" and p: "om_market_is_power_of_two (cfg_capacity cfg)"
    using i by (simp_all add: om_market_ring_init_def Let_def split: if_splits)
  show ?thesis using c p unfolding om_market_is_power_of_two_eq
    by (simp add: ring_sys_inv_def ring_start_def ring_ok_def tails_ok_inv_def min_ok_def r zero_ring_def)
qed

text \<open>The spin loops run alone: the first leaves at once when there is room, the second never leaves on a wrong sequence number.\<close>

lemma slot_loop_Some: "slot_loop h n r = Some r' \<Longrightarrow> slot_seq r h = h \<and> r' = r"
  by (rule slot_loop.raw_induct [of "\<lambda>h n r r'. slot_seq r h = h \<and> r' = r"]) (auto split: if_splits)

lemma slot_loop_stuck: "slot_seq r h \<noteq> h \<Longrightarrow> slot_loop h n r = None"
  by (cases "slot_loop h n r") (auto dest: slot_loop_Some)

lemma room_loop_frame: "room_loop h n r = Some r' \<Longrightarrow> slots r' = slots r \<and> ring_mask r' = ring_mask r"
proof (rule room_loop.raw_induct [of "\<lambda>h n r r'. slots r' = slots r \<and> ring_mask r' = ring_mask r"])
  fix loop :: "u64 \<Rightarrow> u32 \<Rightarrow> 'a OmMarketRing \<Rightarrow> 'a OmMarketRing option" and h n r r'
  assume "\<And>h n r r'. loop h n r = Some r' \<Longrightarrow> slots r' = slots r \<and> ring_mask r' = ring_mask r"
    and "(case room_turn h n r of (leaves, r) \<Rightarrow> if leaves then Some r else loop h (n + 1) r) = Some r'"
  then show "slots r' = slots r \<and> ring_mask r' = ring_mask r"
    by (auto simp: room_turn_def split: if_splits prod.splits)
qed

lemma enqueue_stuck:
  assumes "slot_seq r (head r) \<noteq> head r"
  shows "om_market_ring_enqueue r (Some p) = None"
proof (cases "room_loop (head r) 0 r")
  case (Some r1)
  then have "slot_seq r1 (head r) = slot_seq r (head r)"
    using room_loop_frame [OF Some] by (simp add: slot_seq_def slot_idx_def)
  with assms slot_loop_stuck [of r1 "head r"] Some show ?thesis by (simp add: om_market_ring_enqueue_def)
qed (simp add: om_market_ring_enqueue_def)

lemma enqueue_now:
  assumes "head r - min_tail r < capacity r" "slot_seq r (head r) = head r"
  shows "om_market_ring_enqueue r (Some p) = Some (OM_OK, ring_broadcasts (head r) r, ring_publish (head r) p r)"
proof -
  have "room_loop (head r) 0 r = Some r" using assms(1) by (subst room_loop.simps) (simp add: room_turn_def)
  moreover have "slot_loop (head r) 0 r = Some r" using assms(2) by (subst slot_loop.simps) simp
  ultimately show ?thesis by (simp add: om_market_ring_enqueue_def)
qed

section \<open>Properties\<close>

definition demo_ring :: "nat OmMarketRing" where
  "demo_ring = \<lparr>slots = [\<lparr>seq = 0, ptr = None\<rparr>, \<lparr>seq = 1, ptr = None\<rparr>], capacity = 2, ring_mask = 1, consumer_count = 1,
     notify_batch = 0, head = 0, min_tail = 0, consumer_tails = [0]\<rparr>"

definition demo_config :: OmMarketRingConfig where
  "demo_config = \<lparr>cfg_capacity = 2, cfg_consumer_count = 1, cfg_notify_batch = 0\<rparr>"

lemma demo_ring_init:
  "om_market_ring_init \<lparr>slots_ok = True, tails_ok = True, mutex_ok = True, cond_ok = True\<rparr> demo_config zero_ring = (OM_OK, demo_ring)"
  by (simp add: om_market_ring_init_def demo_config_def demo_ring_def zero_ring_def om_market_is_power_of_two_def
      upt_rec)

lemma demo_ring_cap: "1 < cfg_capacity demo_config"
  by (simp add: demo_config_def)

text \<open>Two records through the ring, then a third call of the producer.\<close>

lemma demo_ring_run:
  "\<exists>s. ring_step\<^sup>*\<^sup>* (ring_start demo_ring) s \<and> sent s = [7, 8] \<and> received s 0 = [Some 7] \<and>
     consumer_tails (ring s) = [1] \<and> consumer_count (ring s) = 1 \<and> capacity (ring s) = 2"
proof -
  note S = rtranclp.rtrancl_into_rtrancl
  note ev = ring_start_def demo_ring_def room_turn_def slot_seq_def slot_idx_def ring_publish_def
    om_market_ring_dequeue_def om_market_ring_refresh_min_tail_on_consume_def set_tail_def om_market_ring_min_tail_def Let_def
  let ?s0 = "ring_start demo_ring"
  let ?s1 = "?s0\<lparr>producer := WaitRoom 7 0 0\<rparr>"
  let ?s2 = "?s1\<lparr>producer := WaitSlot 7 0 0\<rparr>"
  let ?r3 = "ring_publish 0 7 demo_ring"
  let ?s3 = "?s2\<lparr>ring := ?r3, producer := Idle, sent := [7]\<rparr>"
  let ?r4 = "?r3\<lparr>consumer_tails := [1], min_tail := 1\<rparr>"
  let ?s4 = "?s3\<lparr>ring := ?r4, received := (\<lambda>_. [])(0 := [Some 7])\<rparr>"
  let ?s5 = "?s4\<lparr>producer := WaitRoom 8 1 0\<rparr>"
  let ?s6 = "?s5\<lparr>producer := WaitSlot 8 1 0\<rparr>"
  let ?s7 = "?s6\<lparr>ring := ring_publish 1 8 ?r4, producer := Idle, sent := [7, 8]\<rparr>"
  have "ring_step ?s0 ?s1" using ring_step.call [of ?s0 7] by (simp add: ev)
  moreover have "ring_step ?s1 ?s2" using ring_step.room [of ?s1 7 0 0 demo_ring] by (simp add: ev)
  moreover have "ring_step ?s2 ?s3" using ring_step.publish [of ?s2 7 0 0] by (simp add: ev)
  moreover have "ring_step ?s3 ?s4" using ring_step.dequeue [of ?s3 0 "[Some 7]" ?r4] by (simp add: ev)
  moreover have "ring_step ?s4 ?s5" using ring_step.call [of ?s4 8] by (simp add: ev)
  moreover have "ring_step ?s5 ?s6" using ring_step.room [of ?s5 8 1 0 ?r4] by (simp add: ev)
  moreover have "ring_step ?s6 ?s7" using ring_step.publish [of ?s6 8 1 0] by (simp add: ev)
  ultimately have "ring_step\<^sup>*\<^sup>* ?s0 ?s7" by (meson rtranclp.rtrancl_refl S)
  moreover have "sent ?s7 = [7, 8]" "received ?s7 0 = [Some 7]" "consumer_tails (ring ?s7) = [1]"
    "consumer_count (ring ?s7) = 1" "capacity (ring ?s7) = 2" by (simp_all add: ev)
  ultimately show ?thesis by blast
qed



text \<open>
  C31: a ring with a capacity above one accepts at most \<open>capacity\<close> records in its life, in every
  interleaving: consumers do not give the slots back their sequence numbers, so once \<open>capacity\<close> records have been
  sent the second spin loop of the next enqueue never ends, even when all the consumers have received everything.
\<close>

theorem ring_wedges_after_capacity:
  assumes "om_market_ring_init ok cfg r0 = (OM_OK, r)" "1 < cfg_capacity cfg"
    and "ring_step\<^sup>*\<^sup>* (ring_start r) s"
  shows "length (sent s) \<le> unat (cfg_capacity cfg) \<and>
    (length (sent s) = unat (cfg_capacity cfg) \<longrightarrow> om_market_ring_enqueue (ring s) (Some p) = None)"
proof -
  have inv: "ring_sys_inv (cfg_capacity cfg) s" using ring_steps_inv [OF assms(3) ring_init_inv [OF assms(1,2)]] .
  then have ok: "ring_ok (ring s) (sent s)" and c: "capacity (ring s) = cfg_capacity cfg" by (simp_all add: ring_sys_inv_def)
  moreover from ok have "length (sent s) \<le> unat (capacity (ring s))" by (simp add: ring_ok_def)
  ultimately show ?thesis using publish_gate [OF ok] by (auto intro: enqueue_stuck)
qed

theorem ring_wedges_after_capacity_witness:
  "\<exists>s. ring_step\<^sup>*\<^sup>* (ring_start demo_ring) s \<and> length (sent s) \<le> 2 \<and> om_market_ring_enqueue (ring s) (Some 9) = None"
proof -
  obtain s where s: "ring_step\<^sup>*\<^sup>* (ring_start demo_ring) s" "sent s = [7, 8]"
    using demo_ring_run by blast
  with ring_wedges_after_capacity [OF demo_ring_init demo_ring_cap s(1)] show ?thesis by (auto simp: demo_config_def)
qed

text \<open>
  C21: while fewer than \<open>capacity\<close> records have been sent, a call of enqueue ends, without waiting for any
  consumer, and publishes the record as the next one of the ring.
\<close>

theorem ring_enqueue_completes:
  assumes "om_market_ring_init ok cfg r0 = (OM_OK, r)" "1 < cfg_capacity cfg"
    and "ring_step\<^sup>*\<^sup>* (ring_start r) s" "length (sent s) < unat (cfg_capacity cfg)"
  shows "\<exists>b r'. om_market_ring_enqueue (ring s) (Some p) = Some (OM_OK, b, r') \<and> ring_ok r' (sent s @ [p]) \<and>
    consumer_tails r' = consumer_tails (ring s)"
proof -
  have inv: "ring_sys_inv (cfg_capacity cfg) s" using ring_steps_inv [OF assms(3) ring_init_inv [OF assms(1,2)]] .
  then have ok: "ring_ok (ring s) (sent s)" and c: "capacity (ring s) = cfg_capacity cfg"
    and m: "min_tail (ring s) \<le> head (ring s)" by (simp_all add: ring_sys_inv_def min_ok_def)
  have "head (ring s) - min_tail (ring s) < capacity (ring s)"
    using m c assms(4) ring_okD [OF ok] by (simp add: word_less_nat_alt unat_sub_le)
  then show ?thesis
    using enqueue_now [of "ring s" p] publish_gate [OF ok] ring_publish_ok [OF ok, of p] assms(4) c
    by (simp add: ring_publish_def)
qed

theorem ring_enqueue_completes_witness:
  "\<exists>b r'. om_market_ring_enqueue demo_ring (Some 7) = Some (OM_OK, b, r') \<and> ring_ok r' [7]"
  using ring_enqueue_completes [OF demo_ring_init demo_ring_cap rtranclp.rtrancl_refl, of 7]
  by (auto simp: ring_start_def demo_config_def)



end
