(* ===== verification/Bus_Mp.thy ===== *)
theory Bus_Mp
  imports Ring_Index
begin

text \<open>
  The bounded many-producer, single-consumer ring of \<^verbatim>\<open>include/ombus/om_bus_mp.h\<close> and
  \<^verbatim>\<open>src/om_bus_mp.c\<close>.

  The caller-owned memory is a record: the header lines, the counters of the producers and the slots,
  each slot with the bytes that follow its header.  The memory's address is an argument where the
  code tests its alignment; a slot address is its index.  A record that points into the ring holds
  the index of the slot.  The result of the futex call, the clock and the outcome of a weak
  compare-and-swap are arguments.  Handles and memory are not NULL.
\<close>

section \<open>Constants and results\<close>

definition OM_BUS_MP_MAGIC :: u32 where "OM_BUS_MP_MAGIC = 0x4F4D4250"
definition OM_BUS_MP_VERSION :: u32 where "OM_BUS_MP_VERSION = 1"
definition OM_BUS_MP_DEFAULT_SKIP_TIMEOUT_NS :: u64 where "OM_BUS_MP_DEFAULT_SKIP_TIMEOUT_NS = 100000"
definition OM_BUS_MP_CACHELINE_SIZE :: u32 where "OM_BUS_MP_CACHELINE_SIZE = 64"
definition OM_BUS_MP_SLOT_HEADER_SIZE :: u32 where "OM_BUS_MP_SLOT_HEADER_SIZE = 24"

lemmas mp_consts = OM_BUS_MP_MAGIC_def OM_BUS_MP_VERSION_def OM_BUS_MP_DEFAULT_SKIP_TIMEOUT_NS_def
  OM_BUS_MP_CACHELINE_SIZE_def OM_BUS_MP_SLOT_HEADER_SIZE_def

datatype OmBusMpError =
    OM_BUS_MP_OK
  | OM_BUS_MP_ERR_INIT
  | OM_BUS_MP_ERR_NOT_POW2
  | OM_BUS_MP_ERR_RECORD_TOO_LARGE
  | OM_BUS_MP_ERR_FULL
  | OM_BUS_MP_ERR_PRODUCER_ID
  | OM_BUS_MP_ERR_MAGIC
  | OM_BUS_MP_ERR_VERSION
  | OM_BUS_MP_ERR_SLOT_POISONED
  | OM_BUS_MP_ERR_ALIGNMENT

primrec mp_error_code :: "OmBusMpError \<Rightarrow> int" where
  "mp_error_code OM_BUS_MP_OK = 0"
| "mp_error_code OM_BUS_MP_ERR_INIT = - 900"
| "mp_error_code OM_BUS_MP_ERR_NOT_POW2 = - 901"
| "mp_error_code OM_BUS_MP_ERR_RECORD_TOO_LARGE = - 902"
| "mp_error_code OM_BUS_MP_ERR_FULL = - 903"
| "mp_error_code OM_BUS_MP_ERR_PRODUCER_ID = - 904"
| "mp_error_code OM_BUS_MP_ERR_MAGIC = - 905"
| "mp_error_code OM_BUS_MP_ERR_VERSION = - 906"
| "mp_error_code OM_BUS_MP_ERR_SLOT_POISONED = - 907"
| "mp_error_code OM_BUS_MP_ERR_ALIGNMENT = - 908"

definition om_bus_mp_error_string :: "int \<Rightarrow> string" where
  "om_bus_mp_error_string err =
     (if err = 0 then ''Success''
      else if err = - 900 then ''BusMP initialization failed''
      else if err = - 901 then ''BusMP capacity is not power of two''
      else if err = - 902 then ''BusMP record too large''
      else if err = - 903 then ''BusMP ring full''
      else if err = - 904 then ''BusMP invalid producer id''
      else if err = - 905 then ''BusMP magic mismatch''
      else if err = - 906 then ''BusMP version mismatch''
      else if err = - 907 then ''BusMP slot poisoned''
      else if err = - 908 then ''BusMP memory or slot alignment invalid''
      else ''BusMP unknown error'')"

datatype OmBusMpPollResult = OM_BUS_MP_POLL_EMPTY | OM_BUS_MP_POLL_RECORD | OM_BUS_MP_POLL_SKIPPED

datatype OmBusMpWaitResult = OM_BUS_MP_WAIT_TIMEOUT | OM_BUS_MP_WAIT_READY | OM_BUS_MP_WAIT_INTERRUPTED

section \<open>State\<close>

record OmBusMpConfig =
  cfg_capacity :: u32
  cfg_slot_size :: u32
  cfg_max_producers :: u32
  cfg_skip_timeout_ns :: u64

record OmBusMpHeader =
  magic :: u32
  version :: u32
  capacity :: u32
  slot_size :: u32
  max_producers :: u32
  notify_seq :: u32
  waiters :: u32
  skip_timeout_ns :: u64
  enqueue_pos :: u64
  dequeue_pos :: u64
  records_published :: u64
  full_rejects :: u64
  poisoned_rejects :: u64
  skipped_sequences :: u64

record OmBusMpProducerCounter =
  pc_published :: u64
  pc_full_rejects :: u64
  pc_poisoned_rejects :: u64

record OmBusMpSlot =
  seq :: u64
  slot_producer :: u32
  slot_len :: u16
  slot_sequence :: u64
  slot_payload :: "u8 list"

record OmBusMpMemory =
  hdr :: OmBusMpHeader
  counters :: "OmBusMpProducerCounter list"
  slots :: "OmBusMpSlot list"

record OmBusMpProducer =
  p_id :: u32
  p_capacity :: u32
  p_mask :: u32
  p_slot_size :: u32
  p_max_payload :: u32

record OmBusMpConsumer =
  c_capacity :: u32
  c_mask :: u32
  c_slot_size :: u32
  c_skip_timeout_ns :: u64
  blocked_sequence :: u64
  blocked_since_ns :: u64

datatype payload_ref = PayloadNull | PayloadRing nat | PayloadCopy "u8 list"

record OmBusMpRecord =
  rec_sequence :: u64
  rec_producer :: u32
  rec_len :: u16
  rec_payload :: payload_ref

record OmBusMpClaim =
  cl_sequence :: u64
  cl_producer :: u32
  cl_len :: u16
  cl_max_payload :: u16
  cl_slot :: nat

record OmBusMpStats =
  st_enqueue_pos :: u64
  st_dequeue_pos :: u64
  st_records_published :: u64
  st_full_rejects :: u64
  st_poisoned_rejects :: u64
  st_skipped_sequences :: u64

section \<open>Layout and validation\<close>

definition mp_is_power_of_two :: "u32 \<Rightarrow> bool" where
  "mp_is_power_of_two v \<longleftrightarrow> v \<noteq> 0 \<and> v AND (v - 1) = 0"

definition mp_is_aligned :: "u64 \<Rightarrow> u64 \<Rightarrow> bool" where
  "mp_is_aligned p align \<longleftrightarrow> p AND (align - 1) = 0"

definition mp_align_up :: "u64 \<Rightarrow> u64 \<Rightarrow> u64" where
  "mp_align_up v align = (v + align - 1) AND NOT (align - 1)"

text \<open>The header is five cache lines, a producer counter is one.\<close>

definition mp_header_size :: u64 where "mp_header_size = 320"
definition mp_counter_size :: u64 where "mp_counter_size = 64"

definition mp_slots_offset :: "u32 \<Rightarrow> u64" where
  "mp_slots_offset n =
     mp_align_up (mp_align_up mp_header_size (ucast OM_BUS_MP_CACHELINE_SIZE) + ucast n * mp_counter_size)
       (ucast OM_BUS_MP_CACHELINE_SIZE)"

definition mp_validate_config :: "OmBusMpConfig \<Rightarrow> OmBusMpError" where
  "mp_validate_config config =
     (if \<not> mp_is_power_of_two (cfg_capacity config) then OM_BUS_MP_ERR_NOT_POW2
      else if cfg_slot_size config < OM_BUS_MP_SLOT_HEADER_SIZE + 1 then OM_BUS_MP_ERR_INIT
      else if cfg_slot_size config mod OM_BUS_MP_CACHELINE_SIZE \<noteq> 0 then OM_BUS_MP_ERR_ALIGNMENT
      else if cfg_max_producers config = 0 then OM_BUS_MP_ERR_INIT
      else OM_BUS_MP_OK)"

definition mp_validate_header :: "u64 \<Rightarrow> OmBusMpHeader \<Rightarrow> OmBusMpError" where
  "mp_validate_header addr h =
     (if \<not> mp_is_aligned addr (ucast OM_BUS_MP_CACHELINE_SIZE) then OM_BUS_MP_ERR_ALIGNMENT
      else if magic h \<noteq> OM_BUS_MP_MAGIC then OM_BUS_MP_ERR_MAGIC
      else if version h \<noteq> OM_BUS_MP_VERSION then OM_BUS_MP_ERR_VERSION
      else OM_BUS_MP_OK)"

definition om_bus_mp_size :: "OmBusMpConfig \<Rightarrow> u64" where
  "om_bus_mp_size config =
     (if mp_validate_config config \<noteq> OM_BUS_MP_OK then 0
      else mp_slots_offset (cfg_max_producers config) + ucast (cfg_capacity config) * ucast (cfg_slot_size config))"

definition mp_skip_timeout :: "OmBusMpConfig \<Rightarrow> u64" where
  "mp_skip_timeout config =
     (if cfg_skip_timeout_ns config \<noteq> 0 then cfg_skip_timeout_ns config else OM_BUS_MP_DEFAULT_SKIP_TIMEOUT_NS)"

definition mp_fresh :: "OmBusMpConfig \<Rightarrow> OmBusMpMemory" where
  "mp_fresh config =
     \<lparr>hdr = \<lparr>magic = OM_BUS_MP_MAGIC, version = OM_BUS_MP_VERSION, capacity = cfg_capacity config,
        slot_size = cfg_slot_size config, max_producers = cfg_max_producers config, notify_seq = 0, waiters = 0,
        skip_timeout_ns = mp_skip_timeout config, enqueue_pos = 0, dequeue_pos = 0, records_published = 0,
        full_rejects = 0, poisoned_rejects = 0, skipped_sequences = 0\<rparr>,
      counters = replicate (unat (cfg_max_producers config)) \<lparr>pc_published = 0, pc_full_rejects = 0, pc_poisoned_rejects = 0\<rparr>,
      slots = map (\<lambda>i. \<lparr>seq = of_nat i, slot_producer = 0, slot_len = 0, slot_sequence = 0,
          slot_payload = replicate (unat (cfg_slot_size config) - unat OM_BUS_MP_SLOT_HEADER_SIZE) 0\<rparr>)
        [0..<unat (cfg_capacity config)]\<rparr>"

definition om_bus_mp_init :: "u64 \<Rightarrow> u64 \<Rightarrow> OmBusMpConfig \<Rightarrow> OmBusMpError + OmBusMpMemory" where
  "om_bus_mp_init addr memory_size config =
     (if mp_validate_config config \<noteq> OM_BUS_MP_OK then Inl (mp_validate_config config)
      else if \<not> mp_is_aligned addr (ucast OM_BUS_MP_CACHELINE_SIZE) then Inl OM_BUS_MP_ERR_ALIGNMENT
      else if memory_size < om_bus_mp_size config then Inl OM_BUS_MP_ERR_INIT
      else Inr (mp_fresh config))"

definition om_bus_mp_producer_open :: "u64 \<Rightarrow> OmBusMpMemory \<Rightarrow> u32 \<Rightarrow> OmBusMpError + OmBusMpProducer" where
  "om_bus_mp_producer_open addr m producer_id =
     (if mp_validate_header addr (hdr m) \<noteq> OM_BUS_MP_OK then Inl (mp_validate_header addr (hdr m))
      else if max_producers (hdr m) \<le> producer_id then Inl OM_BUS_MP_ERR_PRODUCER_ID
      else Inr \<lparr>p_id = producer_id, p_capacity = capacity (hdr m), p_mask = capacity (hdr m) - 1,
             p_slot_size = slot_size (hdr m), p_max_payload = slot_size (hdr m) - OM_BUS_MP_SLOT_HEADER_SIZE\<rparr>)"

definition om_bus_mp_validate_mapping :: "OmBusMpMemory \<Rightarrow> u64 \<Rightarrow> OmBusMpConfig \<Rightarrow> OmBusMpError" where
  "om_bus_mp_validate_mapping m sz cfg =
     (if sz < mp_header_size then OM_BUS_MP_ERR_INIT
      else if magic (hdr m) \<noteq> OM_BUS_MP_MAGIC \<or> version (hdr m) \<noteq> OM_BUS_MP_VERSION \<or>
        capacity (hdr m) \<noteq> cfg_capacity cfg \<or> slot_size (hdr m) \<noteq> cfg_slot_size cfg \<or>
        max_producers (hdr m) \<noteq> cfg_max_producers cfg \<or> skip_timeout_ns (hdr m) \<noteq> mp_skip_timeout cfg \<or>
        om_bus_mp_size cfg \<noteq> sz then OM_BUS_MP_ERR_INIT
      else OM_BUS_MP_OK)"

definition om_bus_mp_consumer_open :: "u64 \<Rightarrow> OmBusMpMemory \<Rightarrow> OmBusMpError + OmBusMpConsumer" where
  "om_bus_mp_consumer_open addr m =
     (if mp_validate_header addr (hdr m) \<noteq> OM_BUS_MP_OK then Inl (mp_validate_header addr (hdr m))
      else Inr \<lparr>c_capacity = capacity (hdr m), c_mask = capacity (hdr m) - 1, c_slot_size = slot_size (hdr m),
             c_skip_timeout_ns = skip_timeout_ns (hdr m), blocked_sequence = UINT64_MAX, blocked_since_ns = 0\<rparr>)"

section \<open>Producers\<close>

definition upd_hdr :: "(OmBusMpHeader \<Rightarrow> OmBusMpHeader) \<Rightarrow> OmBusMpMemory \<Rightarrow> OmBusMpMemory" where
  "upd_hdr f m = m\<lparr>hdr := f (hdr m)\<rparr>"

definition upd_counter ::
  "nat \<Rightarrow> (OmBusMpProducerCounter \<Rightarrow> OmBusMpProducerCounter) \<Rightarrow> OmBusMpMemory \<Rightarrow> OmBusMpMemory" where
  "upd_counter i f m = m\<lparr>counters := (counters m)[i := f (counters m ! i)]\<rparr>"

definition upd_slot :: "nat \<Rightarrow> (OmBusMpSlot \<Rightarrow> OmBusMpSlot) \<Rightarrow> OmBusMpMemory \<Rightarrow> OmBusMpMemory" where
  "upd_slot i f m = m\<lparr>slots := (slots m)[i := f (slots m ! i)]\<rparr>"

definition mp_slot_idx :: "u64 \<Rightarrow> u32 \<Rightarrow> nat" where
  "mp_slot_idx pos msk = unat (pos AND ucast msk)"

text \<open>
  One turn of the claim loop: it claims the position \<open>pos\<close>, finds the ring full, or goes round
  again.  \<open>cas\<close> is whether the weak compare-and-swap of the cursor succeeds.
\<close>

datatype claim_turn = Claimed u64 | Full | Again

definition mp_claim_turn :: "bool \<Rightarrow> OmBusMpProducer \<Rightarrow> OmBusMpMemory \<Rightarrow> claim_turn \<times> OmBusMpMemory" where
  "mp_claim_turn cas p m =
     (let pos = enqueue_pos (hdr m);
          diff = sint (seq (slots m ! mp_slot_idx pos (p_mask p)) - pos)
      in if diff = 0
         then if cas then (Claimed pos, upd_hdr (\<lambda>h. h\<lparr>enqueue_pos := pos + 1\<rparr>) m) else (Again, m)
         else if diff < 0
         then (Full, upd_counter (unat (p_id p)) (\<lambda>c. c\<lparr>pc_full_rejects := pc_full_rejects c + 1\<rparr>)
                 (upd_hdr (\<lambda>h. h\<lparr>full_rejects := full_rejects h + 1\<rparr>) m))
         else (Again, m))"

text \<open>The loop; \<open>spurious\<close> is the number of compare-and-swaps that fail.  \<open>None\<close> is a loop that never ends.\<close>

partial_function (option) mp_claim_loop ::
  "nat \<Rightarrow> OmBusMpProducer \<Rightarrow> OmBusMpMemory \<Rightarrow> (u64 option \<times> OmBusMpMemory) option" where
  "mp_claim_loop spurious p m =
     (case mp_claim_turn (spurious = 0) p m of (r, m') \<Rightarrow>
        (case r of Claimed pos \<Rightarrow> Some (Some pos, m') | Full \<Rightarrow> Some (None, m') | Again \<Rightarrow> mp_claim_loop (spurious - 1) p m'))"

definition mp_fill_slot :: "OmBusMpProducer \<Rightarrow> u64 \<Rightarrow> u16 \<Rightarrow> OmBusMpMemory \<Rightarrow> OmBusMpMemory" where
  "mp_fill_slot p pos len m =
     upd_slot (mp_slot_idx pos (p_mask p)) (\<lambda>s. s\<lparr>slot_sequence := pos, slot_producer := p_id p, slot_len := len\<rparr>) m"

definition mp_claim_of :: "OmBusMpProducer \<Rightarrow> u64 \<Rightarrow> u16 \<Rightarrow> OmBusMpClaim" where
  "mp_claim_of p pos len =
     \<lparr>cl_sequence = pos, cl_producer = p_id p, cl_len = len, cl_max_payload = ucast (p_max_payload p),
      cl_slot = mp_slot_idx pos (p_mask p)\<rparr>"

definition om_bus_mp_claim ::
  "nat \<Rightarrow> OmBusMpProducer \<Rightarrow> u16 \<Rightarrow> OmBusMpMemory \<Rightarrow> ((OmBusMpError + OmBusMpClaim) \<times> OmBusMpMemory) option" where
  "om_bus_mp_claim spurious p payload_len m =
     (if p_max_payload p < ucast payload_len then Some (Inl OM_BUS_MP_ERR_RECORD_TOO_LARGE, m)
      else case mp_claim_loop spurious p m of None \<Rightarrow> None
        | Some (None, m') \<Rightarrow> Some (Inl OM_BUS_MP_ERR_FULL, m')
        | Some (Some pos, m') \<Rightarrow> Some (Inr (mp_claim_of p pos payload_len), mp_fill_slot p pos payload_len m'))"

text \<open>The flag says whether one waiter is woken.\<close>

definition mp_notify_publish :: "OmBusMpMemory \<Rightarrow> bool \<times> OmBusMpMemory" where
  "mp_notify_publish m =
     (if waiters (hdr m) = 0 then (False, m)
      else (True, upd_hdr (\<lambda>h. h\<lparr>notify_seq := notify_seq h + 1\<rparr>) m))"

definition om_bus_mp_commit :: "OmBusMpProducer \<Rightarrow> OmBusMpClaim \<Rightarrow> OmBusMpMemory \<Rightarrow> OmBusMpError \<times> OmBusMpMemory" where
  "om_bus_mp_commit p claim m =
     (let i = unat (p_id p); pos = cl_sequence claim
      in if seq (slots m ! cl_slot claim) \<noteq> pos
         then (OM_BUS_MP_ERR_SLOT_POISONED, upd_counter i (\<lambda>c. c\<lparr>pc_poisoned_rejects := pc_poisoned_rejects c + 1\<rparr>)
                 (upd_hdr (\<lambda>h. h\<lparr>poisoned_rejects := poisoned_rejects h + 1\<rparr>) m))
         else (OM_BUS_MP_OK, snd (mp_notify_publish
                 (upd_counter i (\<lambda>c. c\<lparr>pc_published := pc_published c + 1\<rparr>)
                   (upd_hdr (\<lambda>h. h\<lparr>records_published := records_published h + 1\<rparr>)
                     (upd_slot (cl_slot claim) (\<lambda>s. s\<lparr>seq := pos + 1\<rparr>) m))))))"

definition mp_write_payload :: "OmBusMpClaim \<Rightarrow> u8 list \<Rightarrow> OmBusMpMemory \<Rightarrow> OmBusMpMemory" where
  "mp_write_payload claim bs m =
     upd_slot (cl_slot claim) (\<lambda>s. s\<lparr>slot_payload := bs @ drop (length bs) (slot_payload s)\<rparr>) m"

text \<open>The payload is a byte list, its length is the argument \<^verbatim>\<open>payload_len\<close>; the result is the error and the sequence number written.\<close>

definition om_bus_mp_publish ::
  "nat \<Rightarrow> OmBusMpProducer \<Rightarrow> u8 list \<Rightarrow> OmBusMpMemory \<Rightarrow> (OmBusMpError \<times> u64 option \<times> OmBusMpMemory) option" where
  "om_bus_mp_publish spurious p payload m =
     (case om_bus_mp_claim spurious p (of_nat (length payload)) m of None \<Rightarrow> None
      | Some (Inl e, m') \<Rightarrow> Some (e, None, m')
      | Some (Inr claim, m') \<Rightarrow>
        (case om_bus_mp_commit p claim (if payload = [] then m' else mp_write_payload claim payload m') of
           (rc, m2) \<Rightarrow> Some (rc, if rc = OM_BUS_MP_OK then Some (cl_sequence claim) else None, m2)))"

section \<open>The consumer\<close>

definition mp_read :: "OmBusMpConsumer \<Rightarrow> u64 option \<Rightarrow> nat \<Rightarrow> OmBusMpSlot \<Rightarrow> OmBusMpRecord" where
  "mp_read c copy i s =
     \<lparr>rec_sequence = slot_sequence s, rec_producer = slot_producer s, rec_len = slot_len s,
      rec_payload = (case copy of None \<Rightarrow> PayloadRing i
        | Some cap \<Rightarrow> if ucast (slot_len s) \<le> cap \<and> ucast (slot_len s) \<le> c_slot_size c - OM_BUS_MP_SLOT_HEADER_SIZE
            then PayloadCopy (take (unat (slot_len s)) (slot_payload s)) else PayloadNull)\<rparr>"

definition mp_release :: "OmBusMpConsumer \<Rightarrow> u64 \<Rightarrow> OmBusMpMemory \<Rightarrow> OmBusMpMemory" where
  "mp_release c pos m =
     upd_hdr (\<lambda>h. h\<lparr>dequeue_pos := pos + 1\<rparr>)
       (upd_slot (mp_slot_idx pos (c_mask c)) (\<lambda>s. s\<lparr>seq := pos + ucast (c_capacity c)\<rparr>) m)"

definition mp_unblock :: "OmBusMpConsumer \<Rightarrow> OmBusMpConsumer" where
  "mp_unblock c = c\<lparr>blocked_sequence := UINT64_MAX, blocked_since_ns := 0\<rparr>"

text \<open>\<open>now\<close> is the clock, \<open>copy\<close> the capacity of the copy buffer when there is one.\<close>

definition om_bus_mp_poll_impl ::
  "u64 \<Rightarrow> u64 option \<Rightarrow> OmBusMpConsumer \<Rightarrow> OmBusMpMemory
    \<Rightarrow> OmBusMpPollResult \<times> OmBusMpRecord option \<times> OmBusMpConsumer \<times> OmBusMpMemory" where
  "om_bus_mp_poll_impl now copy c m =
     (let pos = dequeue_pos (hdr m); i = mp_slot_idx pos (c_mask c); s = slots m ! i
      in if seq s = pos + 1
         then (OM_BUS_MP_POLL_RECORD, Some (mp_read c copy i s), mp_unblock c, mp_release c pos m)
         else if seq s = pos
         then if enqueue_pos (hdr m) \<le> pos then (OM_BUS_MP_POLL_EMPTY, None, c, m)
              else if blocked_sequence c \<noteq> pos
              then (OM_BUS_MP_POLL_EMPTY, None, c\<lparr>blocked_sequence := pos, blocked_since_ns := now\<rparr>, m)
              else if now - blocked_since_ns c < c_skip_timeout_ns c then (OM_BUS_MP_POLL_EMPTY, None, c, m)
              else (OM_BUS_MP_POLL_SKIPPED,
                    Some \<lparr>rec_sequence = pos, rec_producer = of_nat UINT32_MAX, rec_len = 0, rec_payload = PayloadNull\<rparr>,
                    mp_unblock c, upd_hdr (\<lambda>h. h\<lparr>skipped_sequences := skipped_sequences h + 1\<rparr>) (mp_release c pos m))
         else (OM_BUS_MP_POLL_EMPTY, None, c, m))"

definition om_bus_mp_poll ::
  "u64 \<Rightarrow> OmBusMpConsumer \<Rightarrow> OmBusMpMemory
    \<Rightarrow> OmBusMpPollResult \<times> OmBusMpRecord option \<times> OmBusMpConsumer \<times> OmBusMpMemory" where
  "om_bus_mp_poll now = om_bus_mp_poll_impl now None"

definition om_bus_mp_poll_copy ::
  "u64 \<Rightarrow> u64 \<Rightarrow> OmBusMpConsumer \<Rightarrow> OmBusMpMemory
    \<Rightarrow> OmBusMpError + OmBusMpPollResult \<times> OmBusMpRecord option \<times> OmBusMpConsumer \<times> OmBusMpMemory" where
  "om_bus_mp_poll_copy now cap c m =
     (if cap = 0 then Inl OM_BUS_MP_ERR_INIT else Inr (om_bus_mp_poll_impl now (Some cap) c m))"

fun mp_batch_loop :: "nat \<Rightarrow> u64 \<Rightarrow> OmBusMpConsumer \<Rightarrow> OmBusMpMemory \<Rightarrow> OmBusMpRecord list \<times> OmBusMpMemory" where
  "mp_batch_loop 0 pos c m = ([], m)"
| "mp_batch_loop (Suc n) pos c m =
     (let i = mp_slot_idx pos (c_mask c); s = slots m ! i
      in if seq s \<noteq> pos + 1 then ([], m)
         else case mp_batch_loop n (pos + 1) c (mp_release c pos m) of (rs, m') \<Rightarrow> (mp_read c None i s # rs, m'))"

definition om_bus_mp_poll_batch ::
  "OmBusMpConsumer \<Rightarrow> u32 \<Rightarrow> OmBusMpMemory \<Rightarrow> OmBusMpRecord list \<times> OmBusMpConsumer \<times> OmBusMpMemory" where
  "om_bus_mp_poll_batch c max_records m =
     (case mp_batch_loop (unat max_records) (dequeue_pos (hdr m)) c m of (rs, m') \<Rightarrow>
        (rs, if rs = [] then c else mp_unblock c, m'))"

definition om_bus_mp_pending :: "OmBusMpMemory \<Rightarrow> u64" where
  "om_bus_mp_pending m =
     (if dequeue_pos (hdr m) < enqueue_pos (hdr m) then enqueue_pos (hdr m) - dequeue_pos (hdr m) else 0)"

text \<open>
  The futex call: what it returns, and the memory as other threads leave it meanwhile, given the
  value expected and the timeout in seconds and nanoseconds.
\<close>

datatype futex_result = FutexOk | EAGAIN | ETIMEDOUT | EINTR | OtherErrno

definition om_bus_mp_wait ::
  "(u32 \<Rightarrow> (u64 \<times> u64) option \<Rightarrow> OmBusMpMemory \<Rightarrow> futex_result \<times> OmBusMpMemory) \<Rightarrow> u64 \<Rightarrow> OmBusMpMemory
    \<Rightarrow> OmBusMpWaitResult \<times> OmBusMpMemory" where
  "om_bus_mp_wait futex timeout_ns m =
     (if 0 < om_bus_mp_pending m then (OM_BUS_MP_WAIT_READY, m)
      else let m1 = upd_hdr (\<lambda>h. h\<lparr>waiters := waiters h + 1\<rparr>) m;
               leave = upd_hdr (\<lambda>h. h\<lparr>waiters := waiters h - 1\<rparr>)
        in if 0 < om_bus_mp_pending m1 then (OM_BUS_MP_WAIT_READY, leave m1)
           else if timeout_ns = 0 then (OM_BUS_MP_WAIT_TIMEOUT, leave m1)
           else case futex (notify_seq (hdr m))
                  (if timeout_ns = UINT64_MAX then None else Some (timeout_ns div 1000000000, timeout_ns mod 1000000000)) m1 of
             (rc, m2) \<Rightarrow> ((case rc of FutexOk \<Rightarrow> OM_BUS_MP_WAIT_READY | EAGAIN \<Rightarrow> OM_BUS_MP_WAIT_READY
                 | ETIMEDOUT \<Rightarrow> OM_BUS_MP_WAIT_TIMEOUT | EINTR \<Rightarrow> OM_BUS_MP_WAIT_INTERRUPTED
                 | OtherErrno \<Rightarrow> OM_BUS_MP_WAIT_READY), leave m2))"

definition om_bus_mp_stats :: "OmBusMpMemory \<Rightarrow> OmBusMpStats" where
  "om_bus_mp_stats m =
     \<lparr>st_enqueue_pos = enqueue_pos (hdr m), st_dequeue_pos = dequeue_pos (hdr m),
      st_records_published = records_published (hdr m), st_full_rejects = full_rejects (hdr m),
      st_poisoned_rejects = poisoned_rejects (hdr m), st_skipped_sequences = skipped_sequences (hdr m)\<rparr>"

definition om_bus_mp_producer_published :: "u64 \<Rightarrow> OmBusMpMemory \<Rightarrow> u32 \<Rightarrow> u64" where
  "om_bus_mp_producer_published addr m producer_id =
     (if mp_validate_header addr (hdr m) \<noteq> OM_BUS_MP_OK \<or> max_producers (hdr m) \<le> producer_id then 0
      else pc_published (counters m ! unat producer_id))"

section \<open>Positions of the ring\<close>

lemma mp_pow2: "mp_is_power_of_two v \<Longrightarrow> is_power_of_two (ucast v)"
  by (simp add: mp_is_power_of_two_def pow2_32)

lemma mp_slot_idx_eq: "mp_is_power_of_two v \<Longrightarrow> mp_slot_idx pos (v - 1) = unat pos mod unat v"
  by (simp add: mp_is_power_of_two_def mp_slot_idx_def ring_pos_32)

lemma sint_small:
  assumes "unat (a :: u64) < 2 ^ 63"
  shows "sint a = int (unat a)"
proof -
  have "int (unat a) < int (2 ^ 63)" using assms by (simp only: of_nat_less_iff)
  then have "- (2 ^ 63) \<le> int (unat a)" "int (unat a) < 2 ^ 63" unfolding of_nat_power of_nat_numeral by linarith+
  from signed_take_bit_int_eq_self [OF this] show ?thesis unfolding sint_uint uint_nat by simp
qed

lemma sint_diff:
  fixes a b :: u64
  assumes "unat a < 2 ^ 63" "unat b < 2 ^ 63"
  shows "sint (a - b) = int (unat a) - int (unat b)"
proof -
  have "int (unat a) < int (2 ^ 63)" "int (unat b) < int (2 ^ 63)" using assms by (simp_all only: of_nat_less_iff)
  then have "- (2 ^ 63) \<le> int (unat a) - int (unat b)" "int (unat a) - int (unat b) < 2 ^ 63"
    unfolding of_nat_power of_nat_numeral by linarith+
  then show ?thesis unfolding sint_word_diff sint_small [OF assms(1)] sint_small [OF assms(2)]
    by (subst signed_take_bit_int_eq_self) simp_all
qed

section \<open>Producers and the consumer, interleaved\<close>

text \<open>
  A claim in progress is a producer with its claim.  Between its claim and its commit a producer
  writes the slot's header fields and payload, at any time and in any order.  \<open>outcomes\<close> lists
  the results of the polls that advanced the consumer, \<open>committed\<close> the positions whose commit
  returned success, \<open>poisoned\<close> those whose commit was refused.  A run has fewer than
  \<open>2 ^ 62\<close> claims.
\<close>

record mp_sys =
  mem :: OmBusMpMemory
  consumer :: OmBusMpConsumer
  pending :: "(OmBusMpProducer \<times> OmBusMpClaim) set"
  outcomes :: "OmBusMpPollResult list"
  committed :: "nat set"
  poisoned :: "nat set"

definition mp_producer :: "OmBusMpMemory \<Rightarrow> u32 \<Rightarrow> OmBusMpProducer" where
  "mp_producer m i = \<lparr>p_id = i, p_capacity = capacity (hdr m), p_mask = capacity (hdr m) - 1,
     p_slot_size = slot_size (hdr m), p_max_payload = slot_size (hdr m) - OM_BUS_MP_SLOT_HEADER_SIZE\<rparr>"

inductive mp_step :: "mp_sys \<Rightarrow> mp_sys \<Rightarrow> bool" where
  claim: "p = mp_producer (mem s) i \<Longrightarrow> mp_claim_turn True p (mem s) = (Claimed pos, m)
    \<Longrightarrow> unat (enqueue_pos (hdr (mem s))) + 1 < 2 ^ 62
    \<Longrightarrow> mp_step s (s\<lparr>mem := m, pending := insert (p, mp_claim_of p pos len) (pending s)\<rparr>)"
| full: "p = mp_producer (mem s) i \<Longrightarrow> mp_claim_turn True p (mem s) = (Full, m) \<Longrightarrow> mp_step s (s\<lparr>mem := m\<rparr>)"
| fields: "(p, cl) \<in> pending s \<Longrightarrow> mp_step s (s\<lparr>mem := mp_fill_slot p (cl_sequence cl) (cl_len cl) (mem s)\<rparr>)"
| payload: "(p, cl) \<in> pending s \<Longrightarrow> mp_step s (s\<lparr>mem := mp_write_payload cl bs (mem s)\<rparr>)"
| commit: "(p, cl) \<in> pending s \<Longrightarrow> om_bus_mp_commit p cl (mem s) = (OM_BUS_MP_OK, m)
    \<Longrightarrow> mp_step s (s\<lparr>mem := m, pending := pending s - {(p, cl)}, committed := insert (unat (cl_sequence cl)) (committed s)\<rparr>)"
| poison: "(p, cl) \<in> pending s \<Longrightarrow> om_bus_mp_commit p cl (mem s) = (OM_BUS_MP_ERR_SLOT_POISONED, m)
    \<Longrightarrow> mp_step s (s\<lparr>mem := m, pending := pending s - {(p, cl)}, poisoned := insert (unat (cl_sequence cl)) (poisoned s)\<rparr>)"
| poll: "om_bus_mp_poll_impl now copy (consumer s) (mem s) = (r, rec, c, m)
    \<Longrightarrow> mp_step s (s\<lparr>mem := m, consumer := c, outcomes := outcomes s @ (if r = OM_BUS_MP_POLL_EMPTY then [] else [r])\<rparr>)"

definition mp_start :: "OmBusMpMemory \<Rightarrow> OmBusMpConsumer \<Rightarrow> mp_sys" where
  "mp_start m c = \<lparr>mem = m, consumer = c, pending = {}, outcomes = [], committed = {}, poisoned = {}\<rparr>"

section \<open>The ring invariant\<close>

abbreviation (input) enq :: "OmBusMpMemory \<Rightarrow> nat" where "enq m \<equiv> unat (enqueue_pos (hdr m))"
abbreviation (input) deq :: "OmBusMpMemory \<Rightarrow> nat" where "deq m \<equiv> unat (dequeue_pos (hdr m))"
abbreviation (input) cap :: "OmBusMpMemory \<Rightarrow> nat" where "cap m \<equiv> unat (capacity (hdr m))"
abbreviation (input) seq_at :: "OmBusMpMemory \<Rightarrow> nat \<Rightarrow> nat" where
  "seq_at m q \<equiv> unat (seq (slots m ! (q mod cap m)))"

definition mp_ok :: "OmBusMpMemory \<Rightarrow> bool" where
  "mp_ok m \<longleftrightarrow> mp_is_power_of_two (capacity (hdr m)) \<and> 2 \<le> cap m \<and> length (slots m) = cap m \<and>
     deq m \<le> enq m \<and> enq m \<le> deq m + cap m \<and> enq m < 2 ^ 62 \<and>
     (\<forall>q. deq m \<le> q \<longrightarrow> q < deq m + cap m \<longrightarrow> seq_at m q = q \<or> seq_at m q = Suc q \<and> q < enq m)"

lemma mp_okD:
  assumes "mp_ok m"
  shows "mp_is_power_of_two (capacity (hdr m))" "2 \<le> cap m" "length (slots m) = cap m" "deq m \<le> enq m"
    "enq m \<le> deq m + cap m" "enq m < 2 ^ 62" "cap m < 2 ^ 32"
    "deq m \<le> q \<Longrightarrow> q < deq m + cap m \<Longrightarrow> seq_at m q = q \<or> seq_at m q = Suc q \<and> q < enq m"
  using assms unsigned_less [of "capacity (hdr m)", where 'a = nat] unfolding mp_ok_def by simp_all

text \<open>What the claim turn finds at the enqueue position.\<close>

lemma mp_claim_diff:
  assumes ok: "mp_ok m"
  shows "sint (seq (slots m ! (enq m mod cap m)) - enqueue_pos (hdr m)) = 0 \<longleftrightarrow> enq m < deq m + cap m"
    "sint (seq (slots m ! (enq m mod cap m)) - enqueue_pos (hdr m)) \<le> 0"
proof -
  note D = mp_okD [OF ok]
  let ?s = "seq (slots m ! (enq m mod cap m))"
  have e: "enq m < 2 ^ 63" using D(6) by simp
  have c: "(enq m < deq m + cap m \<and> unat ?s = enq m) \<or> (enq m = deq m + cap m \<and> unat ?s < enq m)"
  proof (cases "enq m < deq m + cap m")
    case True
    then show ?thesis using D(8) [of "enq m"] D(4) by simp
  next
    case False
    then have eq: "enq m = deq m + cap m" using D(5) by simp
    then have "enq m mod cap m = deq m mod cap m" by simp
    then show ?thesis using D(8) [of "deq m"] D(2) eq by auto
  qed
  then have "unat ?s < 2 ^ 63" using e by auto
  note S = sint_diff [OF this e]
  show "sint (?s - enqueue_pos (hdr m)) = 0 \<longleftrightarrow> enq m < deq m + cap m" "sint (?s - enqueue_pos (hdr m)) \<le> 0"
    using c unfolding S by linarith+
qed

lemma mp_ok_cong:
  assumes "capacity (hdr m') = capacity (hdr m)" "enqueue_pos (hdr m') = enqueue_pos (hdr m)"
    "dequeue_pos (hdr m') = dequeue_pos (hdr m)" "map seq (slots m') = map seq (slots m)"
  shows "mp_ok m' = mp_ok m"
proof -
  have l: "length (slots m') = length (slots m)" using assms(4) map_eq_imp_length_eq by blast
  have "seq (slots m' ! i) = seq (slots m ! i)" if "i < length (slots m)" for i
    using assms(4) that l by (metis nth_map)
  then have "seq_at m' q = seq_at m q" if "2 \<le> cap m" "length (slots m) = cap m" for q
    using that by (simp add: assms(1))
  then show ?thesis unfolding mp_ok_def l assms(1-3) by (auto simp: assms(1))
qed

lemma mp_frame [simp]:
  "slots (upd_hdr f m) = slots m" "hdr (upd_hdr f m) = f (hdr m)" "hdr (upd_slot i g m) = hdr m"
  "hdr (upd_counter i k m) = hdr m" "slots (upd_counter i k m) = slots m"
  "slots (upd_slot i g m) = (slots m)[i := g (slots m ! i)]"
  by (simp_all add: upd_hdr_def upd_slot_def upd_counter_def)

lemma mp_claim_ok:
  assumes ok: "mp_ok m" and lt: "enq m < deq m + cap m" "enq m + 1 < 2 ^ 62"
  shows "mp_ok (upd_hdr (\<lambda>h. h\<lparr>enqueue_pos := enqueue_pos (hdr m) + 1\<rparr>) m)"
proof -
  have "unat (enqueue_pos (hdr m) + 1) = Suc (enq m)" using lt(2) by (simp add: unat_add_no_wrap)
  then show ?thesis using ok lt unfolding mp_ok_def by auto
qed

lemma mp_commit_ok:
  assumes ok: "mp_ok m" and q: "deq m \<le> unat pos" "unat pos < enq m"
  shows "mp_ok (upd_slot (unat pos mod cap m) (\<lambda>s. s\<lparr>seq := pos + 1\<rparr>) m)"
    "deq m \<le> j \<Longrightarrow> j < deq m + cap m \<Longrightarrow>
      seq_at (upd_slot (unat pos mod cap m) (\<lambda>s. s\<lparr>seq := pos + 1\<rparr>) m) j = (if j = unat pos then Suc j else seq_at m j)"
proof -
  note D = mp_okD [OF ok]
  have u: "unat (pos + 1) = Suc (unat pos)" using q(2) D(6) by (simp add: unat_add_no_wrap)
  have c: "0 < cap m" using D(2) by simp
  have inj: "j mod cap m = unat pos mod cap m \<longleftrightarrow> j = unat pos" if "deq m \<le> j" "j < deq m + cap m" for j
  proof
    assume e: "j mod cap m = unat pos mod cap m"
    show "j = unat pos"
    proof (cases "j \<le> unat pos")
      case True
      then show ?thesis using mod_window_inj [OF e True] that q D(5) by linarith
    next
      case False
      then show ?thesis using mod_window_inj [OF e [symmetric]] that q by linarith
    qed
  qed simp
  show at: "seq_at (upd_slot (unat pos mod cap m) (\<lambda>s. s\<lparr>seq := pos + 1\<rparr>) m) j = (if j = unat pos then Suc j else seq_at m j)"
    if "deq m \<le> j" "j < deq m + cap m" for j
    using inj [OF that] u c D(3) by (auto simp: nth_list_update)
  show "mp_ok (upd_slot (unat pos mod cap m) (\<lambda>s. s\<lparr>seq := pos + 1\<rparr>) m)"
    unfolding mp_ok_def using D(1-7) D(8) at q(2) by auto
qed

lemma mp_release_ok:
  assumes ok: "mp_ok m" and lt: "deq m < enq m" and c: "c_capacity c = capacity (hdr m)" "c_mask c = capacity (hdr m) - 1"
  shows "mp_ok (mp_release c (dequeue_pos (hdr m)) m)" "deq (mp_release c (dequeue_pos (hdr m)) m) = Suc (deq m)"
    "enqueue_pos (hdr (mp_release c (dequeue_pos (hdr m)) m)) = enqueue_pos (hdr m)"
    "capacity (hdr (mp_release c (dequeue_pos (hdr m)) m)) = capacity (hdr m)"
    "deq m < j \<Longrightarrow> j < deq m + cap m \<Longrightarrow> seq_at (mp_release c (dequeue_pos (hdr m)) m) j = seq_at m j"
proof -
  note D = mp_okD [OF ok]
  let ?m = "mp_release c (dequeue_pos (hdr m)) m"
  have b: "deq m + cap m < 2 ^ 64" "deq m + 1 < 2 ^ 64" using D(4,6,7) by simp_all
  have u: "unat (dequeue_pos (hdr m) + 1) = Suc (deq m)" using b(2) by (simp add: unat_add_no_wrap)
  have w: "unat (dequeue_pos (hdr m) + ucast (capacity (hdr m))) = deq m + cap m"
    using b(1) unat_ucast_up [of "capacity (hdr m)"] by (simp add: unat_add_no_wrap)
  have i: "mp_slot_idx (dequeue_pos (hdr m)) (c_mask c) = deq m mod cap m" unfolding c(2) by (rule mp_slot_idx_eq [OF D(1)])
  have c0: "0 < cap m" using D(2) by simp
  show d: "deq ?m = Suc (deq m)" by (simp add: mp_release_def u)
  show e: "enqueue_pos (hdr ?m) = enqueue_pos (hdr m)" and k: "capacity (hdr ?m) = capacity (hdr m)" by (simp_all add: mp_release_def)
  show old: "seq_at ?m j = seq_at m j" if "deq m < j" "j < deq m + cap m" for j
    using mod_window_inj [of "deq m" "cap m" j] that c0 D(3) by (auto simp: mp_release_def i nth_list_update)
  have new: "seq_at ?m (deq m + cap m) = deq m + cap m"
    using c0 D(3) w by (simp add: mp_release_def i c(1))
  have l: "length (slots ?m) = cap m" using D(3) by (simp add: mp_release_def)
  have "seq_at ?m j = j \<or> seq_at ?m j = Suc j \<and> j < enq m" if "Suc (deq m) \<le> j" "j < Suc (deq m) + cap m" for j
    using that new old [of j] D(8) [of j] by (cases "j = deq m + cap m") (auto simp: less_Suc_eq)
  then show "mp_ok ?m" unfolding mp_ok_def d e k l using D(1-7) lt by auto
qed

section \<open>The invariant of the system\<close>

definition mp_claims_ok :: "OmBusMpMemory \<Rightarrow> nat set \<Rightarrow> (OmBusMpProducer \<times> OmBusMpClaim) set \<Rightarrow> bool" where
  "mp_claims_ok m K P \<longleftrightarrow>
     (\<forall>x \<in> P. unat (cl_sequence (snd x)) < enq m \<and> unat (cl_sequence (snd x)) \<notin> K \<and>
        cl_slot (snd x) = unat (cl_sequence (snd x)) mod cap m \<and> p_mask (fst x) = capacity (hdr m) - 1) \<and>
     inj_on (\<lambda>x. cl_sequence (snd x)) P"

definition mp_history_ok :: "OmBusMpMemory \<Rightarrow> OmBusMpPollResult list \<Rightarrow> nat set \<Rightarrow> nat set \<Rightarrow> bool" where
  "mp_history_ok m out K X \<longleftrightarrow> length out = deq m \<and>
     (\<forall>q < deq m. out ! q = (if q \<in> K then OM_BUS_MP_POLL_RECORD else OM_BUS_MP_POLL_SKIPPED)) \<and>
     (\<forall>q. deq m \<le> q \<longrightarrow> q < enq m \<longrightarrow> (seq_at m q = Suc q \<longleftrightarrow> q \<in> K)) \<and>
     (\<forall>q \<in> K. q < enq m) \<and> (\<forall>q \<in> X. q < deq m \<and> q \<notin> K)"

definition mp_sys_inv :: "mp_sys \<Rightarrow> bool" where
  "mp_sys_inv s \<longleftrightarrow> mp_ok (mem s) \<and> c_capacity (consumer s) = capacity (hdr (mem s)) \<and>
     c_mask (consumer s) = capacity (hdr (mem s)) - 1 \<and> mp_claims_ok (mem s) (committed s) (pending s) \<and>
     mp_history_ok (mem s) (outcomes s) (committed s) (poisoned s)"

text \<open>A step that changes neither the positions nor the sequence numbers of the slots.\<close>

definition mp_same :: "OmBusMpMemory \<Rightarrow> OmBusMpMemory \<Rightarrow> bool" where
  "mp_same m m' \<longleftrightarrow> capacity (hdr m') = capacity (hdr m) \<and> enqueue_pos (hdr m') = enqueue_pos (hdr m) \<and>
     dequeue_pos (hdr m') = dequeue_pos (hdr m) \<and> map seq (slots m') = map seq (slots m)"

lemma map_seq_upd: "seq y = seq (xs ! i) \<Longrightarrow> map seq (xs[i := y]) = map seq xs"
  by (metis list_update_id map_update)

lemma mp_same_seq_at: "mp_same m m' \<Longrightarrow> mp_ok m \<Longrightarrow> seq_at m' q = seq_at m q"
proof -
  assume s: "mp_same m m'" and ok: "mp_ok m"
  have "map seq (slots m') ! (q mod cap m) = map seq (slots m) ! (q mod cap m)" using s by (simp add: mp_same_def)
  moreover have "length (slots m') = length (slots m)" using s unfolding mp_same_def by (metis length_map)
  ultimately show ?thesis using s mp_okD(2,3) [OF ok] by (simp add: mp_same_def)
qed

lemma mp_same_inv:
  assumes s: "mp_same (mem s) m" and inv: "mp_sys_inv s"
  shows "mp_sys_inv (s\<lparr>mem := m\<rparr>)"
proof -
  have ok: "mp_ok (mem s)" using inv by (simp add: mp_sys_inv_def)
  note S = s [unfolded mp_same_def, THEN conjunct1] s [unfolded mp_same_def, THEN conjunct2, THEN conjunct1]
    s [unfolded mp_same_def, THEN conjunct2, THEN conjunct2, THEN conjunct1]
  have "mp_ok m" using ok s mp_ok_cong [of m "mem s"] by (simp add: mp_same_def)
  moreover have "mp_history_ok m (outcomes s) (committed s) (poisoned s)"
    using inv mp_same_seq_at [OF s ok] unfolding mp_sys_inv_def mp_history_ok_def S by simp
  moreover have "mp_claims_ok m (committed s) (pending s)"
    using inv unfolding mp_sys_inv_def mp_claims_ok_def S by simp
  ultimately show ?thesis using inv S by (simp add: mp_sys_inv_def)
qed

lemma mp_claim_inv:
  assumes inv: "mp_sys_inv s" and p: "p = mp_producer (mem s) i"
    and t: "mp_claim_turn True p (mem s) = (Claimed pos, m)" and b: "enq (mem s) + 1 < 2 ^ 62"
  shows "mp_sys_inv (s\<lparr>mem := m, pending := insert (p, mp_claim_of p pos len) (pending s)\<rparr>)"
proof -
  have ok: "mp_ok (mem s)" using inv by (simp add: mp_sys_inv_def)
  note D = mp_okD [OF ok]
  have i: "mp_slot_idx (enqueue_pos (hdr (mem s))) (p_mask p) = enq (mem s) mod cap (mem s)"
    unfolding p mp_producer_def using mp_slot_idx_eq [OF D(1)] by simp
  have pos: "pos = enqueue_pos (hdr (mem s))" and m: "m = upd_hdr (\<lambda>h. h\<lparr>enqueue_pos := enqueue_pos (hdr (mem s)) + 1\<rparr>) (mem s)"
    and lt: "enq (mem s) < deq (mem s) + cap (mem s)"
    using t mp_claim_diff [OF ok] by (auto simp: mp_claim_turn_def Let_def i split: if_splits)
  have u: "unat (enqueue_pos (hdr (mem s)) + 1) = Suc (enq (mem s))" using b by (simp add: unat_add_no_wrap)
  have "enq (mem s) \<notin> committed s" using inv by (auto simp: mp_sys_inv_def mp_history_ok_def)
  moreover have "seq_at (mem s) (enq (mem s)) = enq (mem s)" using D(4) D(8) [of "enq (mem s)"] lt by simp
  ultimately have "mp_history_ok m (outcomes s) (committed s) (poisoned s)"
    using inv u unfolding mp_sys_inv_def mp_history_ok_def m by (auto simp: less_Suc_eq)
  moreover have "mp_claims_ok m (committed s) (insert (p, mp_claim_of p pos len) (pending s))"
    using inv u i pos \<open>enq (mem s) \<notin> committed s\<close> unfolding mp_sys_inv_def mp_claims_ok_def m
    by (auto simp: mp_claim_of_def p mp_producer_def less_Suc_eq)
  ultimately show ?thesis using inv mp_claim_ok [OF ok lt b] by (simp add: mp_sys_inv_def m)
qed

text \<open>A position that the consumer has passed no longer shows its own number in its slot.\<close>

lemma mp_passed:
  assumes ok: "mp_ok m" and q: "q < deq m"
  shows "seq_at m q \<noteq> q"
proof -
  have c: "0 < cap m" using mp_okD(2) [OF ok] by simp
  obtain j where j: "deq m \<le> j" "j < deq m + cap m" "j mod cap m = q mod cap m"
    using window_rep [OF c, of "deq m" q] by blast
  then have "seq_at m q = seq_at m j" by simp
  with mp_okD(8) [OF ok j(1,2)] q j(1) show ?thesis by auto
qed

lemma mp_notify_same: "mp_same m (snd (mp_notify_publish m))"
  by (simp add: mp_notify_publish_def mp_same_def)

lemma mp_same_trans: "mp_same m m1 \<Longrightarrow> mp_same m1 m2 \<Longrightarrow> mp_same m m2"
  by (simp add: mp_same_def)

lemma mp_commit_cases:
  assumes "om_bus_mp_commit p cl m = (r, m')"
  obtains (ok) "r = OM_BUS_MP_OK" "seq (slots m ! cl_slot cl) = cl_sequence cl"
      "mp_same (upd_slot (cl_slot cl) (\<lambda>s. s\<lparr>seq := cl_sequence cl + 1\<rparr>) m) m'"
    | (poisoned) "r = OM_BUS_MP_ERR_SLOT_POISONED" "seq (slots m ! cl_slot cl) \<noteq> cl_sequence cl" "mp_same m m'"
proof (cases "seq (slots m ! cl_slot cl) = cl_sequence cl")
  case True
  let ?m = "upd_slot (cl_slot cl) (\<lambda>s. s\<lparr>seq := cl_sequence cl + 1\<rparr>) m"
  let ?n = "upd_counter (unat (p_id p)) (\<lambda>c. c\<lparr>pc_published := pc_published c + 1\<rparr>)
    (upd_hdr (\<lambda>h. h\<lparr>records_published := records_published h + 1\<rparr>) ?m)"
  have "m' = snd (mp_notify_publish ?n)" "r = OM_BUS_MP_OK" using assms True by (simp_all add: om_bus_mp_commit_def Let_def)
  moreover have "mp_same ?m ?n" by (simp add: mp_same_def)
  ultimately show ?thesis using True mp_notify_same [of ?n] by (intro ok) (auto intro: mp_same_trans)
next
  case False
  then show ?thesis using assms by (intro poisoned) (auto simp: om_bus_mp_commit_def Let_def mp_same_def)
qed

lemma mp_pendingD:
  assumes "mp_sys_inv s" "(p, cl) \<in> pending s"
  shows "unat (cl_sequence cl) < enq (mem s)" "unat (cl_sequence cl) \<notin> committed s"
    "cl_slot cl = unat (cl_sequence cl) mod cap (mem s)" "p_mask p = capacity (hdr (mem s)) - 1"
  using assms by (auto simp: mp_sys_inv_def mp_claims_ok_def)

lemma mp_commit_inv:
  assumes inv: "mp_sys_inv s" and x: "(p, cl) \<in> pending s" and c: "om_bus_mp_commit p cl (mem s) = (OM_BUS_MP_OK, m)"
  shows "mp_sys_inv (s\<lparr>mem := m, pending := pending s - {(p, cl)}, committed := insert (unat (cl_sequence cl)) (committed s)\<rparr>)"
proof -
  have ok: "mp_ok (mem s)" using inv by (simp add: mp_sys_inv_def)
  note D = mp_okD [OF ok]
  note X = mp_pendingD [OF inv x]
  let ?q = "unat (cl_sequence cl)"
  let ?m = "upd_slot (?q mod cap (mem s)) (\<lambda>s. s\<lparr>seq := cl_sequence cl + 1\<rparr>) (mem s)"
  have sq: "seq (slots (mem s) ! cl_slot cl) = cl_sequence cl" and sm: "mp_same ?m m"
    using c X(3) by (auto elim: mp_commit_cases)
  have dq: "deq (mem s) \<le> ?q" using mp_passed [OF ok, of ?q] sq X(3) by (simp add: leI) (metis not_le)
  note C = mp_commit_ok [OF ok dq X(1)]
  have h: "mp_history_ok ?m (outcomes s) (insert ?q (committed s)) (poisoned s)"
    using inv C(2) X(1) D(5) dq unfolding mp_sys_inv_def mp_history_ok_def by auto
  have one: "y = (p, cl)" if "y \<in> pending s" "unat (cl_sequence (snd y)) = ?q" for y
    using inv inj_onD [of "\<lambda>x. cl_sequence (snd x)" "pending s" y "(p, cl)"] x that
    by (simp add: mp_sys_inv_def mp_claims_ok_def word_unat_eq_iff)
  have "mp_claims_ok ?m (insert ?q (committed s)) (pending s - {(p, cl)})"
    using inv one unfolding mp_sys_inv_def mp_claims_ok_def by (auto intro: inj_on_subset)
  then have "mp_sys_inv (s\<lparr>mem := ?m, pending := pending s - {(p, cl)}, committed := insert ?q (committed s)\<rparr>)"
    using inv C(1) h by (simp add: mp_sys_inv_def)
  from mp_same_inv [OF _ this, of m] sm show ?thesis by (simp add: mp_sys_inv_def)
qed

lemma mp_poison_inv:
  assumes inv: "mp_sys_inv s" and x: "(p, cl) \<in> pending s"
    and c: "om_bus_mp_commit p cl (mem s) = (OM_BUS_MP_ERR_SLOT_POISONED, m)"
  shows "mp_sys_inv (s\<lparr>mem := m, pending := pending s - {(p, cl)}, poisoned := insert (unat (cl_sequence cl)) (poisoned s)\<rparr>)"
proof -
  have ok: "mp_ok (mem s)" using inv by (simp add: mp_sys_inv_def)
  note D = mp_okD [OF ok]
  note X = mp_pendingD [OF inv x]
  let ?q = "unat (cl_sequence cl)"
  have sq: "seq_at (mem s) ?q \<noteq> ?q" and sm: "mp_same (mem s) m"
    using c X(3) by (auto elim!: mp_commit_cases simp: word_unat_eq_iff)
  have "?q < deq (mem s)"
  proof (rule ccontr)
    assume "\<not> ?q < deq (mem s)"
    then have g: "deq (mem s) \<le> ?q" by simp
    then have "seq_at (mem s) ?q = Suc ?q" using sq D(8) [OF g] X(1) D(5) by auto
    then have "?q \<in> committed s" using inv g X(1) by (simp add: mp_sys_inv_def mp_history_ok_def)
    with X(2) show False by simp
  qed
  then have "mp_sys_inv (s\<lparr>pending := pending s - {(p, cl)}, poisoned := insert ?q (poisoned s)\<rparr>)"
    using inv X(2) unfolding mp_sys_inv_def mp_history_ok_def mp_claims_ok_def by (auto simp: inj_on_def)
  from mp_same_inv [OF _ this, of m] sm show ?thesis by (simp add: mp_sys_inv_def)
qed

lemma mp_poll_cases:
  assumes "om_bus_mp_poll_impl now copy c m = (r, rc, c', m')"
  defines "pos \<equiv> dequeue_pos (hdr m)" and "s \<equiv> slots m ! mp_slot_idx (dequeue_pos (hdr m)) (c_mask c)"
  obtains (rec) "r = OM_BUS_MP_POLL_RECORD" "m' = mp_release c pos m" "c' = mp_unblock c" "seq s = pos + 1"
    | (skip) "r = OM_BUS_MP_POLL_SKIPPED" "mp_same (mp_release c pos m) m'" "c' = mp_unblock c" "seq s = pos" "pos < enqueue_pos (hdr m)"
    | (empty) "r = OM_BUS_MP_POLL_EMPTY" "m' = m" "c_capacity c' = c_capacity c" "c_mask c' = c_mask c"
proof (cases "seq s = pos + 1")
  case True
  then show ?thesis using assms(1) by (intro rec) (simp_all add: om_bus_mp_poll_impl_def Let_def s_def pos_def)
next
  case nr: False
  show ?thesis
  proof (cases "seq s = pos \<and> pos < enqueue_pos (hdr m) \<and> blocked_sequence c = pos \<and> \<not> now - blocked_since_ns c < c_skip_timeout_ns c")
    case True
    with nr assms(1) show ?thesis
      by (intro skip) (auto simp: om_bus_mp_poll_impl_def Let_def s_def pos_def not_le [symmetric] mp_same_def)
  next
    case False
    with nr assms(1) show ?thesis
      by (intro empty) (auto simp: om_bus_mp_poll_impl_def Let_def s_def pos_def not_le [symmetric] split: if_splits)
  qed
qed

lemma mp_poll_inv:
  assumes inv: "mp_sys_inv s" and p: "om_bus_mp_poll_impl now copy (consumer s) (mem s) = (r, rc, c, m)"
  shows "mp_sys_inv (s\<lparr>mem := m, consumer := c, outcomes := outcomes s @ (if r = OM_BUS_MP_POLL_EMPTY then [] else [r])\<rparr>)"
proof -
  have ok: "mp_ok (mem s)" and cc: "c_capacity (consumer s) = capacity (hdr (mem s))" "c_mask (consumer s) = capacity (hdr (mem s)) - 1"
    using inv by (simp_all add: mp_sys_inv_def)
  note D = mp_okD [OF ok]
  let ?d = "dequeue_pos (hdr (mem s))" and ?m = "mp_release (consumer s) (dequeue_pos (hdr (mem s))) (mem s)"
  have i: "mp_slot_idx ?d (c_mask (consumer s)) = deq (mem s) mod cap (mem s)" unfolding cc(2) by (rule mp_slot_idx_eq [OF D(1)])
  have u: "unat (?d + 1) = Suc (deq (mem s))" using D(4,6) by (simp add: unat_add_no_wrap)
  have go: "mp_sys_inv (s\<lparr>mem := m', consumer := mp_unblock (consumer s), outcomes := outcomes s @ [r]\<rparr>)"
    if lt: "deq (mem s) < enq (mem s)" and sm: "mp_same ?m m'"
      and r: "r = (if deq (mem s) \<in> committed s then OM_BUS_MP_POLL_RECORD else OM_BUS_MP_POLL_SKIPPED)" for m'
  proof -
    note R = mp_release_ok [OF ok lt cc]
    have "mp_history_ok ?m (outcomes s @ [r]) (committed s) (poisoned s)"
      using inv r R(5) D(5) unfolding mp_sys_inv_def mp_history_ok_def R(2,3) by (auto simp: nth_append less_Suc_eq)
    moreover have "mp_claims_ok ?m (committed s) (pending s)"
      using inv unfolding mp_sys_inv_def mp_claims_ok_def R(3,4) by simp
    ultimately have "mp_sys_inv (s\<lparr>mem := ?m, consumer := mp_unblock (consumer s), outcomes := outcomes s @ [r]\<rparr>)"
      using inv R(1,4) by (simp add: mp_sys_inv_def mp_unblock_def)
    from mp_same_inv [OF _ this, of m'] sm show ?thesis by (simp add: mp_sys_inv_def)
  qed
  have K: "seq_at (mem s) (deq (mem s)) = Suc (deq (mem s)) \<longleftrightarrow> deq (mem s) \<in> committed s" if "deq (mem s) < enq (mem s)"
    using inv that by (simp add: mp_sys_inv_def mp_history_ok_def)
  consider (rec) "r = OM_BUS_MP_POLL_RECORD" "m = ?m" "c = mp_unblock (consumer s)" "seq_at (mem s) (deq (mem s)) = Suc (deq (mem s))"
    | (skip) "r = OM_BUS_MP_POLL_SKIPPED" "mp_same ?m m" "c = mp_unblock (consumer s)" "seq_at (mem s) (deq (mem s)) = deq (mem s)"
        "deq (mem s) < enq (mem s)"
    | (empty) "r = OM_BUS_MP_POLL_EMPTY" "m = mem s" "c_capacity c = c_capacity (consumer s)" "c_mask c = c_mask (consumer s)"
    using p by (cases rule: mp_poll_cases) (simp_all add: i u word_less_nat_alt)
  then show ?thesis
  proof cases
    case rec
    have "deq (mem s) < enq (mem s)" using rec(4) D(2) D(8) [of "deq (mem s)"] by simp
    with go [OF this] K rec show ?thesis by (simp add: mp_same_def)
  next
    case skip
    then show ?thesis using go [OF skip(5,2)] K by simp
  next
    case empty
    then show ?thesis using inv by (simp add: mp_sys_inv_def)
  qed
qed

lemma mp_step_inv:
  assumes "mp_step s s'" and inv: "mp_sys_inv s"
  shows "mp_sys_inv s'"
  using assms(1)
proof cases
  case (full p i m)
  then have "mp_same (mem s) m" by (auto simp: mp_claim_turn_def Let_def mp_same_def split: if_splits)
  from mp_same_inv [OF this inv] show ?thesis by (simp add: full(1))
next
  case (fields p cl)
  have "mp_same (mem s) (mp_fill_slot p (cl_sequence cl) (cl_len cl) (mem s))"
    by (simp add: mp_same_def mp_fill_slot_def map_seq_upd)
  from mp_same_inv [OF this inv] show ?thesis by (simp add: fields(1))
next
  case (payload p cl bs)
  have "mp_same (mem s) (mp_write_payload cl bs (mem s))" by (simp add: mp_same_def mp_write_payload_def map_seq_upd)
  from mp_same_inv [OF this inv] show ?thesis by (simp add: payload(1))
qed (use inv mp_claim_inv mp_commit_inv mp_poison_inv mp_poll_inv in \<open>simp_all\<close>)

lemma mp_steps_inv: "mp_step\<^sup>*\<^sup>* s s' \<Longrightarrow> mp_sys_inv s \<Longrightarrow> mp_sys_inv s'"
  by (induction rule: rtranclp_induct) (auto intro: mp_step_inv)

lemma mp_start_inv:
  assumes i: "om_bus_mp_init addr sz cfg = Inr m" and c: "om_bus_mp_consumer_open addr m = Inr c"
    and cap: "cfg_capacity cfg \<noteq> 1"
  shows "mp_sys_inv (mp_start m c)"
proof -
  have m: "m = mp_fresh cfg" and v: "mp_is_power_of_two (cfg_capacity cfg)"
    using i by (auto simp: om_bus_mp_init_def mp_validate_config_def split: if_splits)
  have c': "c_capacity c = capacity (hdr m)" "c_mask c = capacity (hdr m) - 1"
    using c by (auto simp: om_bus_mp_consumer_open_def split: if_splits)
  have "unat (cfg_capacity cfg) \<noteq> 0" "unat (cfg_capacity cfg) \<noteq> 1"
    using v cap by (auto simp: mp_is_power_of_two_def word_unat_eq_iff)
  then have two: "2 \<le> unat (cfg_capacity cfg)" by linarith
  have "unat (of_nat q :: u64) = q" if "q < unat (cfg_capacity cfg)" for q
    using that unsigned_less [of "cfg_capacity cfg", where 'a = nat] by (simp add: unat_of_nat)
  then have "mp_ok m" using v two by (simp add: mp_ok_def m mp_fresh_def)
  then show ?thesis using c' by (simp add: mp_sys_inv_def mp_start_def mp_claims_ok_def mp_history_ok_def m mp_fresh_def)
qed

end
