(* ===== verification/Fifo_Spec.thy ===== *)
theory Fifo_Spec
  imports Main
begin

text \<open>
  The contract of a bounded queue between producers and a consumer, as an interface: what a client of a
  message ring relies on, independently of the layout of the ring.
\<close>

text \<open>A client that publishes a list in order, and one that polls up to \<open>n\<close> times.\<close>

fun publish_all :: "('a \<Rightarrow> 'm \<Rightarrow> bool \<times> 'm) \<Rightarrow> 'a list \<Rightarrow> 'm \<Rightarrow> bool list \<times> 'm" where
  "publish_all publish [] m = ([], m)"
| "publish_all publish (a # as) m =
     (case publish a m of (b, m') \<Rightarrow> case publish_all publish as m' of (bs, m2) \<Rightarrow> (b # bs, m2))"

fun poll_n :: "('m \<Rightarrow> 'a option \<times> 'm) \<Rightarrow> nat \<Rightarrow> 'm \<Rightarrow> 'a list \<times> 'm" where
  "poll_n poll 0 m = ([], m)"
| "poll_n poll (Suc n) m =
     (case poll m of (None, m') \<Rightarrow> ([], m') | (Some a, m') \<Rightarrow> case poll_n poll n m' of (as, m2) \<Rightarrow> (a # as, m2))"

locale bounded_fifo =
  fixes holds :: "'m \<Rightarrow> 'a list \<Rightarrow> bool" and valid :: "'m \<Rightarrow> 'a \<Rightarrow> bool"
    and room :: "'m \<Rightarrow> nat" and budget :: "'m \<Rightarrow> nat"
    and publish :: "'a \<Rightarrow> 'm \<Rightarrow> bool \<times> 'm" and poll :: "'m \<Rightarrow> 'a option \<times> 'm"
  assumes bounded: "holds m q \<Longrightarrow> length q \<le> room m"
    and publish_ok: "holds m q \<Longrightarrow> length q < room m \<Longrightarrow> valid m a \<Longrightarrow> 0 < budget m \<Longrightarrow> publish a m = (b, m') \<Longrightarrow>
      b \<and> holds m' (q @ [a]) \<and> room m' = room m \<and> valid m' = valid m \<and> Suc (budget m') = budget m"
    and publish_full: "holds m q \<Longrightarrow> length q = room m \<Longrightarrow> valid m a \<Longrightarrow> publish a m = (b, m') \<Longrightarrow>
      \<not> b \<and> holds m' q \<and> room m' = room m \<and> valid m' = valid m \<and> budget m' = budget m"
    and poll_some: "holds m (a # q) \<Longrightarrow> poll m = (r, m') \<Longrightarrow> r = Some a \<and> holds m' q \<and> room m' = room m \<and>
      valid m' = valid m \<and> budget m' = budget m"
    and poll_none: "holds m [] \<Longrightarrow> poll m = (r, m') \<Longrightarrow> r = None \<and> holds m' [] \<and> room m' = room m \<and>
      valid m' = valid m \<and> budget m' = budget m"
begin

lemma poll_n_prefix:
  "holds m q \<Longrightarrow> poll_n poll n m = (as, m') \<Longrightarrow> as = take n q \<and> holds m' (drop n q)"
proof (induction n arbitrary: m q as m')
  case (Suc n)
  obtain r m1 where p: "poll m = (r, m1)" by fastforce
  show ?case
  proof (cases q)
    case Nil
    then show ?thesis using poll_none [OF Suc.prems(1) [unfolded Nil] p] Suc.prems(2) p by simp
  next
    case (Cons a q')
    from poll_some [OF Suc.prems(1) [unfolded Cons] p] show ?thesis
      using Suc.prems(2) Suc.IH [of m1 q'] p Cons by (auto split: prod.splits)
  qed
qed simp

lemma publish_all_fits:
  "holds m q \<Longrightarrow> \<forall>a \<in> set as. valid m a \<Longrightarrow> length q + length as \<le> room m \<Longrightarrow> length as \<le> budget m \<Longrightarrow>
    publish_all publish as m = (bs, m') \<Longrightarrow> bs = replicate (length as) True \<and> holds m' (q @ as)"
proof (induction as arbitrary: m q bs m')
  case (Cons a as)
  obtain b m1 where p: "publish a m = (b, m1)" by fastforce
  from publish_ok [OF Cons.prems(1) _ _ _ p] show ?case
    using Cons.prems(2-5) Cons.IH [of m1 "q @ [a]"] p by (auto split: prod.splits)
qed simp

text \<open>What is published fits and is received, in order and unchanged.\<close>

lemma publish_then_poll:
  assumes "holds m []" "\<forall>a \<in> set as. valid m a" "length as \<le> room m" "length as \<le> budget m"
    and "publish_all publish as m = (bs, m1)" "poll_n poll (length as) m1 = (rs, m2)"
  shows "bs = replicate (length as) True \<and> rs = as \<and> holds m2 []"
  using publish_all_fits [OF assms(1,2) _ assms(4,5)] poll_n_prefix [OF _ assms(6), of as] assms(3) by simp

end

end
