(* ===== verification/Bus_Mp_Props.thy ===== *)
theory Bus_Mp_Props
  imports Bus_Mp Fifo_Spec
begin

text \<open>
  Properties of the many-producer ring: it is a bounded queue for calls that run one after the
  other, it settles every claim exactly once in every interleaving, batches agree with single polls,
  the size never wraps, and two defects.
\<close>

section \<open>Publishing\<close>

text \<open>The claim loop alone: it takes the next position when its slot is free and otherwise finds the ring full.\<close>

lemma mp_claim_free:
  assumes "seq (slots m ! mp_slot_idx (enqueue_pos (hdr m)) (p_mask p)) = enqueue_pos (hdr m)"
  shows "mp_claim_loop n p m = Some (Some (enqueue_pos (hdr m)), upd_hdr (\<lambda>h. h\<lparr>enqueue_pos := enqueue_pos (hdr m) + 1\<rparr>) m)"
proof (induction n)
  case 0
  show ?case using assms by (subst mp_claim_loop.simps) (simp add: mp_claim_turn_def Let_def)
next
  case (Suc n)
  then show ?case using assms by (subst mp_claim_loop.simps) (simp add: mp_claim_turn_def Let_def)
qed

lemma mp_claim_full:
  assumes ok: "mp_ok m" and p: "p_mask p = capacity (hdr m) - 1" and f: "\<not> enq m < deq m + cap m"
  shows "mp_claim_loop n p m = Some (None, snd (mp_claim_turn True p m))" "mp_same m (snd (mp_claim_turn True p m))"
proof -
  have i: "mp_slot_idx (enqueue_pos (hdr m)) (p_mask p) = enq m mod cap m"
    unfolding p using mp_slot_idx_eq [OF mp_okD(1) [OF ok]] by simp
  note D = mp_claim_diff [OF ok]
  show "mp_claim_loop n p m = Some (None, snd (mp_claim_turn True p m))"
    using f D by (subst mp_claim_loop.simps) (simp add: mp_claim_turn_def Let_def i)
  show "mp_same m (snd (mp_claim_turn True p m))"
    using f D by (simp add: mp_claim_turn_def Let_def i mp_same_def)
qed

definition filled_slot :: "OmBusMpProducer \<Rightarrow> u64 \<Rightarrow> u8 list \<Rightarrow> OmBusMpSlot \<Rightarrow> OmBusMpSlot" where
  "filled_slot p pos bs s = s\<lparr>slot_sequence := pos, slot_producer := p_id p, slot_len := of_nat (length bs),
     slot_payload := bs @ drop (length bs) (slot_payload s), seq := pos + 1\<rparr>"

lemma unat_ucast_len: "n < 65536 \<Longrightarrow> unat (ucast (of_nat n :: u16) :: u32) = n"
  by (simp add: unsigned_ucast_eq take_bit_nat_eq_self unat_of_nat)

lemma mp_publish_free:
  assumes i: "mp_slot_idx (enqueue_pos (hdr m)) (p_mask p) = i" "i < length (slots m)" and sq: "seq (slots m ! i) = enqueue_pos (hdr m)"
    and bs: "length bs < 65536" "length bs \<le> unat (p_max_payload p)"
  obtains m' where "om_bus_mp_publish n p bs m = Some (OM_BUS_MP_OK, Some (enqueue_pos (hdr m)), m')"
    "enqueue_pos (hdr m') = enqueue_pos (hdr m) + 1" "dequeue_pos (hdr m') = dequeue_pos (hdr m)"
    "capacity (hdr m') = capacity (hdr m)" "slot_size (hdr m') = slot_size (hdr m)"
    "slots m' = (slots m)[i := filled_slot p (enqueue_pos (hdr m)) bs (slots m ! i)]"
proof -
  have len: "\<not> p_max_payload p < ucast (of_nat (length bs) :: u16)"
    using bs by (simp add: word_less_nat_alt unat_ucast_len)
  have c: "mp_claim_loop n p m = Some (Some (enqueue_pos (hdr m)), upd_hdr (\<lambda>h. h\<lparr>enqueue_pos := enqueue_pos (hdr m) + 1\<rparr>) m)"
    using mp_claim_free [of m p n] i sq by simp
  show ?thesis
    by (rule that [of "snd (snd (the (om_bus_mp_publish n p bs m)))"])
      (use i(2) sq len in \<open>simp_all add: om_bus_mp_publish_def om_bus_mp_claim_def c mp_claim_of_def
         mp_fill_slot_def mp_write_payload_def om_bus_mp_commit_def i(1) Let_def mp_notify_publish_def filled_slot_def\<close>)
qed

lemma mp_free_slot:
  assumes ok: "mp_ok m" and p: "p_mask p = capacity (hdr m) - 1" and lt: "enq m < deq m + cap m"
  shows "mp_slot_idx (enqueue_pos (hdr m)) (p_mask p) = enq m mod cap m" "enq m mod cap m < length (slots m)"
    "seq (slots m ! (enq m mod cap m)) = enqueue_pos (hdr m)"
proof -
  note D = mp_okD [OF ok]
  show "mp_slot_idx (enqueue_pos (hdr m)) (p_mask p) = enq m mod cap m" unfolding p using mp_slot_idx_eq [OF D(1)] by simp
  show "enq m mod cap m < length (slots m)" using D(2,3) by simp
  show "seq (slots m ! (enq m mod cap m)) = enqueue_pos (hdr m)" using D(8) [of "enq m"] D(4) lt by (simp add: word_unat_eq_iff)
qed

section \<open>The ring as a bounded queue\<close>

text \<open>
  An item is a producer id with the bytes of a payload.  \<open>mp_holds\<close> relates a memory and its consumer to the
  items published and not yet received.
\<close>

type_synonym mp_item = "u32 \<times> u8 list"
type_synonym mp_ring = "OmBusMpMemory \<times> OmBusMpConsumer"

definition mp_slot_item :: "OmBusMpSlot \<Rightarrow> nat \<Rightarrow> mp_item \<Rightarrow> bool" where
  "mp_slot_item s q a \<longleftrightarrow> unat (seq s) = Suc q \<and> unat (slot_sequence s) = q \<and> slot_producer s = fst a \<and>
     unat (slot_len s) = length (snd a) \<and> take (length (snd a)) (slot_payload s) = snd a"

definition mp_fits :: "OmBusMpMemory \<Rightarrow> u8 list \<Rightarrow> bool" where
  "mp_fits m bs \<longleftrightarrow> length bs < 65536 \<and> length bs + 24 \<le> unat (slot_size (hdr m))"

definition mp_handle :: "OmBusMpConsumer \<Rightarrow> OmBusMpMemory \<Rightarrow> bool" where
  "mp_handle c m \<longleftrightarrow> c_capacity c = capacity (hdr m) \<and> c_mask c = capacity (hdr m) - 1 \<and> c_slot_size c = slot_size (hdr m)"

definition mp_holds :: "mp_ring \<Rightarrow> mp_item list \<Rightarrow> bool" where
  "mp_holds x q \<longleftrightarrow> (case x of (m, c) \<Rightarrow> mp_ok m \<and> mp_handle c m \<and> 25 \<le> unat (slot_size (hdr m)) \<and> enq m = deq m + length q \<and>
     (\<forall>k < length q. mp_slot_item (slots m ! ((deq m + k) mod cap m)) (deq m + k) (q ! k) \<and> mp_fits m (snd (q ! k))))"

definition mp_publish1 :: "mp_item \<Rightarrow> mp_ring \<Rightarrow> bool \<times> mp_ring" where
  "mp_publish1 a x = (case x of (m, c) \<Rightarrow>
     (case om_bus_mp_publish 0 (mp_producer m (fst a)) (snd a) m of None \<Rightarrow> (False, x)
      | Some (rc, _, m') \<Rightarrow> (rc = OM_BUS_MP_OK, (m', c))))"

definition mp_poll1 :: "mp_ring \<Rightarrow> mp_item option \<times> mp_ring" where
  "mp_poll1 x = (case x of (m, c) \<Rightarrow>
     (case om_bus_mp_poll_copy 0 65535 c m of Inl _ \<Rightarrow> (None, x)
      | Inr (r, rc, c', m') \<Rightarrow>
        ((case rc of None \<Rightarrow> None
          | Some rc \<Rightarrow> (case rec_payload rc of PayloadCopy bs \<Rightarrow> Some (rec_producer rc, bs) | _ \<Rightarrow> None)), (m', c'))))"

definition mp_room :: "mp_ring \<Rightarrow> nat" where "mp_room x = cap (fst x)"
definition mp_budget :: "mp_ring \<Rightarrow> nat" where "mp_budget x = 2 ^ 62 - 1 - enq (fst x)"
definition mp_valid :: "mp_ring \<Rightarrow> mp_item \<Rightarrow> bool" where "mp_valid x a = mp_fits (fst x) (snd a)"

lemma mp_max_payload:
  assumes "25 \<le> unat (slot_size (hdr m))" "mp_fits m bs"
  shows "length bs \<le> unat (p_max_payload (mp_producer m i))"
proof -
  have "OM_BUS_MP_SLOT_HEADER_SIZE \<le> slot_size (hdr m)" using assms(1) by (simp add: word_le_nat_alt mp_consts)
  then show ?thesis using assms(2) by (auto simp: mp_producer_def mp_fits_def unat_sub_le mp_consts)
qed

lemma mp_holds_publish:
  assumes h: "mp_holds (m, c) q" and lt: "length q < cap m" and v: "mp_fits m (snd a)" and b: "enq m + 1 < 2 ^ 62"
    and p: "mp_publish1 a (m, c) = (r, m', c')"
  shows "r \<and> mp_holds (m', c') (q @ [a]) \<and> capacity (hdr m') = capacity (hdr m) \<and> slot_size (hdr m') = slot_size (hdr m) \<and>
    enq m' = Suc (enq m)"
proof -
  have ok: "mp_ok m" and ss: "25 \<le> unat (slot_size (hdr m))" and e: "enq m = deq m + length q" using h by (simp_all add: mp_holds_def)
  note D = mp_okD [OF ok]
  have pm: "p_mask (mp_producer m (fst a)) = capacity (hdr m) - 1" by (simp add: mp_producer_def)
  have lt': "enq m < deq m + cap m" using e lt by simp
  obtain n where n: "om_bus_mp_publish 0 (mp_producer m (fst a)) (snd a) m = Some (OM_BUS_MP_OK, Some (enqueue_pos (hdr m)), n)"
    "enqueue_pos (hdr n) = enqueue_pos (hdr m) + 1" "dequeue_pos (hdr n) = dequeue_pos (hdr m)"
    "capacity (hdr n) = capacity (hdr m)" "slot_size (hdr n) = slot_size (hdr m)"
    "slots n = (slots m)[enq m mod cap m := filled_slot (mp_producer m (fst a)) (enqueue_pos (hdr m)) (snd a) (slots m ! (enq m mod cap m))]"
    using mp_publish_free [OF mp_free_slot [OF ok pm lt'] _ mp_max_payload [OF ss v]] v by (auto simp: mp_fits_def)
  have r: "r" "m' = n" "c' = c" using p n(1) by (simp_all add: mp_publish1_def)
  have u: "unat (enqueue_pos (hdr m) + 1) = Suc (enq m)" using b by (simp add: unat_add_no_wrap)
  have il: "enq m mod cap m < length (slots m)" using D(2,3) by simp
  let ?m1 = "upd_hdr (\<lambda>h. h\<lparr>enqueue_pos := enqueue_pos (hdr m) + 1\<rparr>) m"
  have ok1: "mp_ok ?m1" using mp_claim_ok [OF ok lt' b] .
  have "mp_ok (upd_slot (enq m mod cap m) (\<lambda>s. s\<lparr>seq := enqueue_pos (hdr m) + 1\<rparr>) ?m1)"
    using mp_commit_ok(1) [OF ok1, of "enqueue_pos (hdr m)"] D(4) u by simp
  moreover have "map seq (slots n) = map seq (slots (upd_slot (enq m mod cap m) (\<lambda>s. s\<lparr>seq := enqueue_pos (hdr m) + 1\<rparr>) ?m1))"
    by (simp add: n(6) map_update filled_slot_def)
  ultimately have okn: "mp_ok n" using n(2-4) by (subst mp_ok_cong) simp_all
  have new: "mp_slot_item (slots n ! (enq m mod cap m)) (enq m) a" using il v u
    by (simp add: n(6) mp_slot_item_def filled_slot_def mp_producer_def mp_fits_def unat_of_nat take_bit_nat_eq_self)
  have old: "slots n ! ((deq m + k) mod cap m) = slots m ! ((deq m + k) mod cap m)" if "k < length q" for k
  proof -
    have "(deq m + k) mod cap m \<noteq> enq m mod cap m"
      using mod_window_inj [of "deq m + k" "cap m" "enq m"] that e lt by auto
    then show ?thesis by (simp only: n(6) nth_list_update_neq)
  qed
  have "mp_holds (n, c) (q @ [a])"
    using h okn new old v u e unfolding mp_holds_def prod.case mp_handle_def n(2-5) mp_fits_def by (auto simp: nth_append less_Suc_eq)
  with r n(2,4,5) u show ?thesis by simp
qed

lemma mp_holds_full:
  assumes h: "mp_holds (m, c) q" and f: "length q = cap m" and v: "mp_fits m (snd a)"
    and p: "mp_publish1 a (m, c) = (r, m', c')"
  shows "\<not> r \<and> mp_holds (m', c') q \<and> capacity (hdr m') = capacity (hdr m) \<and> slot_size (hdr m') = slot_size (hdr m) \<and>
    enqueue_pos (hdr m') = enqueue_pos (hdr m)"
proof -
  let ?p = "mp_producer m (fst a)"
  have ok: "mp_ok m" and ss: "25 \<le> unat (slot_size (hdr m))" and e: "enq m = deq m + length q" using h by (simp_all add: mp_holds_def)
  have pm: "p_mask ?p = capacity (hdr m) - 1" by (simp add: mp_producer_def)
  have full: "\<not> enq m < deq m + cap m" using e f by simp
  note L = mp_claim_full [OF ok pm full]
  let ?m = "snd (mp_claim_turn True ?p m)"
  have len: "\<not> p_max_payload ?p < ucast (of_nat (length (snd a)) :: u16)"
    using mp_max_payload [OF ss v, of "fst a"] v by (simp add: word_less_nat_alt unat_ucast_len mp_fits_def)
  then have r: "\<not> r" "m' = ?m" "c' = c" using p L(1) by (simp_all add: mp_publish1_def om_bus_mp_publish_def om_bus_mp_claim_def)
  have s: "slots ?m = slots m" "slot_size (hdr ?m) = slot_size (hdr m)"
    using mp_claim_diff [OF ok] full by (simp_all add: mp_claim_turn_def Let_def)
  have t: "capacity (hdr ?m) = capacity (hdr m)" "enqueue_pos (hdr ?m) = enqueue_pos (hdr m)" "dequeue_pos (hdr ?m) = dequeue_pos (hdr m)"
    using L(2) by (simp_all add: mp_same_def)
  have "mp_ok ?m" using ok mp_ok_cong [OF t] s(1) by simp
  with h have "mp_holds (?m, c) q" unfolding mp_holds_def mp_handle_def prod.case t s mp_fits_def by simp
  with r s t show ?thesis by simp
qed

lemma mp_poll_copy_eq:
  assumes h: "mp_holds (m, c) (a # q)"
  shows "mp_poll1 (m, c) = (Some a, mp_release c (dequeue_pos (hdr m)) m, mp_unblock c)"
proof -
  have ok: "mp_ok m" and hd: "mp_handle c m" and it: "mp_slot_item (slots m ! (deq m mod cap m)) (deq m) a" and f: "mp_fits m (snd a)"
    and ss: "25 \<le> unat (slot_size (hdr m))"
    using h unfolding mp_holds_def prod.case by (auto dest!: spec [of _ 0])
  note D = mp_okD [OF ok]
  let ?s = "slots m ! (deq m mod cap m)"
  have i: "mp_slot_idx (dequeue_pos (hdr m)) (c_mask c) = deq m mod cap m"
    using hd mp_slot_idx_eq [OF D(1)] by (simp add: mp_handle_def)
  have "unat (dequeue_pos (hdr m) + 1) = Suc (deq m)" using D(4,6) by (simp add: unat_add_no_wrap)
  then have sq: "seq ?s = dequeue_pos (hdr m) + 1" using it by (simp add: mp_slot_item_def word_unat_eq_iff)
  have l: "unat (ucast (slot_len ?s) :: u64) = length (snd a)" "unat (ucast (slot_len ?s) :: u32) = length (snd a)"
    using it f by (simp_all add: mp_slot_item_def mp_fits_def unsigned_ucast_eq take_bit_nat_eq_self)
  have "unat (c_slot_size c - OM_BUS_MP_SLOT_HEADER_SIZE) = unat (slot_size (hdr m)) - 24"
    using hd ss by (simp add: mp_handle_def unat_sub_le mp_consts word_le_nat_alt)
  then have "ucast (slot_len ?s) \<le> c_slot_size c - OM_BUS_MP_SLOT_HEADER_SIZE" "(ucast (slot_len ?s) :: u64) \<le> 65535"
    using l f by (auto simp: word_le_nat_alt mp_fits_def)
  then show ?thesis using it by (simp add: mp_poll1_def om_bus_mp_poll_copy_def om_bus_mp_poll_impl_def Let_def i sq mp_read_def mp_slot_item_def)
qed

lemma mp_holds_poll:
  assumes h: "mp_holds (m, c) (a # q)" and p: "mp_poll1 (m, c) = (r, m', c')"
  shows "r = Some a \<and> mp_holds (m', c') q \<and> capacity (hdr m') = capacity (hdr m) \<and> slot_size (hdr m') = slot_size (hdr m) \<and>
    enqueue_pos (hdr m') = enqueue_pos (hdr m)"
proof -
  have ok: "mp_ok m" and hd: "mp_handle c m" and e: "enq m = deq m + length (a # q)" using h by (simp_all add: mp_holds_def)
  note D = mp_okD [OF ok]
  have r: "r = Some a" "m' = mp_release c (dequeue_pos (hdr m)) m" "c' = mp_unblock c" using p mp_poll_copy_eq [OF h] by simp_all
  have lt: "deq m < enq m" using e by simp
  have cc: "c_capacity c = capacity (hdr m)" "c_mask c = capacity (hdr m) - 1" using hd by (simp_all add: mp_handle_def)
  note R = mp_release_ok [OF ok lt cc]
  have ss: "slot_size (hdr m') = slot_size (hdr m)" by (simp add: r mp_release_def)
  have i: "mp_slot_idx (dequeue_pos (hdr m)) (c_mask c) = deq m mod cap m" unfolding cc using mp_slot_idx_eq [OF D(1)] by simp
  have old: "slots m' ! ((Suc (deq m) + k) mod cap m) = slots m ! ((Suc (deq m) + k) mod cap m)" if "k < length q" for k
  proof -
    have "deq m mod cap m \<noteq> (Suc (deq m) + k) mod cap m"
      using mod_window_inj [of "deq m" "cap m" "Suc (deq m) + k"] that e D(5) by auto
    then show ?thesis by (simp add: r mp_release_def i)
  qed
  have "mp_slot_item (slots m ! ((Suc (deq m) + k) mod cap m)) (Suc (deq m) + k) (q ! k) \<and> mp_fits m (snd (q ! k))" if "k < length q" for k
    using h that unfolding mp_holds_def prod.case by (auto dest!: spec [of _ "Suc k"])
  then have "mp_holds (m', c') q"
    using h R(1-4) old ss e unfolding mp_holds_def prod.case mp_handle_def mp_fits_def by (auto simp: r(2,3) mp_unblock_def)
  with r R(3,4) ss show ?thesis by simp
qed

lemma mp_holds_empty:
  assumes h: "mp_holds (m, c) []" and p: "mp_poll1 (m, c) = (r, m', c')"
  shows "r = None \<and> m' = m \<and> mp_holds (m', c') []"
proof -
  have ok: "mp_ok m" and hd: "mp_handle c m" and e: "enq m = deq m" using h by (simp_all add: mp_holds_def)
  note D = mp_okD [OF ok]
  have i: "mp_slot_idx (dequeue_pos (hdr m)) (c_mask c) = deq m mod cap m"
    using hd mp_slot_idx_eq [OF D(1)] by (simp add: mp_handle_def)
  have "unat (seq (slots m ! (deq m mod cap m))) = deq m" using D(2) D(8) [of "deq m"] e by simp
  then have "seq (slots m ! (deq m mod cap m)) = dequeue_pos (hdr m)" by (simp add: word_unat_eq_iff)
  with e p have "r = None" "m' = m" "c' = c"
    by (simp_all add: mp_poll1_def om_bus_mp_poll_copy_def om_bus_mp_poll_impl_def Let_def i word_le_nat_alt)
  with h show ?thesis by simp
qed

interpretation mp_fifo: bounded_fifo mp_holds mp_valid mp_room mp_budget mp_publish1 mp_poll1
proof (unfold_locales, goal_cases)
  case (1 m q)
  then show ?case using mp_okD(5) [of "fst m"] by (cases m) (simp add: mp_holds_def mp_room_def)
next
  case (2 m q a b m')
  obtain m0 c0 m1 c1 where mm: "m = (m0, c0)" "m' = (m1, c1)" by (cases m, cases m') auto
  with mp_holds_publish [of m0 c0 q a b m1 c1] 2 show ?case
    by (auto simp: mp_room_def mp_budget_def mp_valid_def mp_fits_def fun_eq_iff)
next
  case (3 m q a b m')
  obtain m0 c0 m1 c1 where mm: "m = (m0, c0)" "m' = (m1, c1)" by (cases m, cases m') auto
  with mp_holds_full [of m0 c0 q a b m1 c1] 3 show ?case
    by (auto simp: mp_room_def mp_budget_def mp_valid_def mp_fits_def fun_eq_iff)
next
  case (4 m a q r m')
  obtain m0 c0 m1 c1 where mm: "m = (m0, c0)" "m' = (m1, c1)" by (cases m, cases m') auto
  with mp_holds_poll [of m0 c0 a q r m1 c1] 4 show ?case
    by (auto simp: mp_room_def mp_budget_def mp_valid_def mp_fits_def fun_eq_iff)
next
  case (5 m r m')
  obtain m0 c0 m1 c1 where mm: "m = (m0, c0)" "m' = (m1, c1)" by (cases m, cases m') auto
  with mp_holds_empty [of m0 c0 r m1 c1] 5 show ?case
    by (auto simp: mp_room_def mp_budget_def mp_valid_def mp_fits_def fun_eq_iff)
qed

section \<open>Properties\<close>

definition demo_cfg :: "u32 \<Rightarrow> OmBusMpConfig" where
  "demo_cfg n = \<lparr>cfg_capacity = n, cfg_slot_size = 64, cfg_max_producers = 2, cfg_skip_timeout_ns = 5\<rparr>"

definition demo_consumer :: "u32 \<Rightarrow> OmBusMpConsumer" where
  "demo_consumer n = \<lparr>c_capacity = n, c_mask = n - 1, c_slot_size = 64, c_skip_timeout_ns = 5,
     blocked_sequence = UINT64_MAX, blocked_since_ns = 0\<rparr>"

lemma demo_mp_init:
  assumes "n = 1 \<or> n = 2"
  shows "om_bus_mp_init 4096 1024 (demo_cfg n) = Inr (mp_fresh (demo_cfg n))"
    "om_bus_mp_consumer_open 4096 (mp_fresh (demo_cfg n)) = Inr (demo_consumer n)"
  using assms
  by (auto simp: om_bus_mp_init_def om_bus_mp_consumer_open_def mp_validate_config_def demo_cfg_def demo_consumer_def mp_fresh_def
      mp_is_power_of_two_def mp_is_aligned_def om_bus_mp_size_def mp_slots_offset_def mp_align_up_def mp_header_size_def
      mp_counter_size_def mp_validate_header_def mp_skip_timeout_def mp_consts)

lemma mp_init_holds:
  assumes "om_bus_mp_init addr sz cfg = Inr m" "om_bus_mp_consumer_open addr m = Inr c" "cfg_capacity cfg \<noteq> 1"
  shows "mp_holds (m, c) []" "mp_room (m, c) = unat (cfg_capacity cfg)" "mp_budget (m, c) = 2 ^ 62 - 1"
    "slot_size (hdr m) = cfg_slot_size cfg"
proof -
  have ok: "mp_ok m" using mp_start_inv [OF assms] by (simp add: mp_sys_inv_def mp_start_def)
  have m: "m = mp_fresh cfg" and v: "mp_validate_config cfg = OM_BUS_MP_OK" using assms(1) by (auto simp: om_bus_mp_init_def split: if_splits)
  have "25 \<le> unat (cfg_slot_size cfg)" using v by (auto simp: mp_validate_config_def mp_consts word_less_nat_alt not_less split: if_splits)
  moreover have "mp_handle c m" using assms(2) by (auto simp: om_bus_mp_consumer_open_def mp_handle_def split: if_splits)
  ultimately show "mp_holds (m, c) []" using ok by (simp add: mp_holds_def m mp_fresh_def)
  show "mp_room (m, c) = unat (cfg_capacity cfg)" "mp_budget (m, c) = 2 ^ 62 - 1" "slot_size (hdr m) = cfg_slot_size cfg"
    by (simp_all add: mp_room_def mp_budget_def m mp_fresh_def)
qed

text \<open>
  C20: on a freshly initialised ring of capacity above one, any list of payloads that fit, not longer than the capacity, is
  accepted item by item, and polling that often returns the same producer ids and payloads in the same order and leaves
  the ring empty.
\<close>

theorem mp_publish_poll_roundtrip:
  assumes "om_bus_mp_init addr sz cfg = Inr m" "om_bus_mp_consumer_open addr m = Inr c" "cfg_capacity cfg \<noteq> 1"
    and "\<forall>a \<in> set as. mp_fits m (snd a)" "length as \<le> unat (cfg_capacity cfg)"
    and "publish_all mp_publish1 as (m, c) = (bs, x)" "poll_n mp_poll1 (length as) x = (rs, y)"
  shows "bs = replicate (length as) True \<and> rs = as \<and> mp_holds y []"
proof -
  note I = mp_init_holds [OF assms(1-3)]
  have "unat (cfg_capacity cfg) < 2 ^ 32" using unsigned_less [of "cfg_capacity cfg", where 'a = nat] by simp
  then have "length as \<le> mp_budget (m, c)" using assms(5) I(3) by simp
  with mp_fifo.publish_then_poll [OF I(1) _ _ _ assms(6,7)] assms(4,5) I(2) show ?thesis by (simp add: mp_valid_def)
qed

theorem mp_publish_poll_roundtrip_witness:
  "\<exists>bs x y. publish_all mp_publish1 [(0, [7, 8]), (1, [9])] (mp_fresh (demo_cfg 2), demo_consumer 2) = (bs, x) \<and>
     poll_n mp_poll1 2 x = ([(0, [7, 8]), (1, [9])], y)"
proof -
  let ?as = "[(0, [7, 8]), (1, [9])] :: mp_item list"
  obtain bs x where x: "publish_all mp_publish1 ?as (mp_fresh (demo_cfg 2), demo_consumer 2) = (bs, x)" by (meson surj_pair)
  obtain rs y where y: "poll_n mp_poll1 (length ?as) x = (rs, y)" by (meson surj_pair)
  have "\<forall>a \<in> set ?as. mp_fits (mp_fresh (demo_cfg 2)) (snd a)" "cfg_capacity (demo_cfg 2) \<noteq> 1" "length ?as \<le> unat (cfg_capacity (demo_cfg 2))"
    by (simp_all add: mp_fits_def mp_fresh_def demo_cfg_def)
  from mp_publish_poll_roundtrip [OF demo_mp_init [of 2] this(2,1,3) x y] have "rs = ?as" by simp
  moreover have "length ?as = 2" by simp
  ultimately show ?thesis using x y by metis
qed



text \<open>Single polls as long as they return a record; the state before the first poll that does not.\<close>

fun mp_poll_records :: "nat \<Rightarrow> u64 \<Rightarrow> OmBusMpConsumer \<Rightarrow> OmBusMpMemory \<Rightarrow> OmBusMpRecord list \<times> OmBusMpConsumer \<times> OmBusMpMemory" where
  "mp_poll_records 0 now c m = ([], c, m)"
| "mp_poll_records (Suc n) now c m =
     (case om_bus_mp_poll now c m of (OM_BUS_MP_POLL_RECORD, Some r, c', m') \<Rightarrow>
        (case mp_poll_records n now c' m' of (rs, c2, m2) \<Rightarrow> (r # rs, c2, m2))
      | _ \<Rightarrow> ([], c, m))"

lemma mp_poll_step:
  "seq (slots m ! mp_slot_idx (dequeue_pos (hdr m)) (c_mask c)) \<noteq> dequeue_pos (hdr m) + 1
    \<Longrightarrow> fst (om_bus_mp_poll now c m) \<noteq> OM_BUS_MP_POLL_RECORD"
  by (simp add: om_bus_mp_poll_def om_bus_mp_poll_impl_def Let_def)

lemma mp_unblock_simps [simp]:
  "mp_unblock (mp_unblock c) = mp_unblock c" "mp_slot_idx p (c_mask (mp_unblock c)) = mp_slot_idx p (c_mask c)"
  "mp_release (mp_unblock c) = mp_release c" "mp_read (mp_unblock c) = mp_read c"
  by (simp_all add: mp_unblock_def fun_eq_iff mp_release_def mp_read_def split: option.split)

lemma mp_batch_unblock: "mp_batch_loop n pos (mp_unblock c) m = mp_batch_loop n pos c m"
  by (induction n arbitrary: pos m) (simp_all add: Let_def)

lemma mp_batch_polls:
  "mp_poll_records n now c m = (case mp_batch_loop n (dequeue_pos (hdr m)) c m of (rs, m') \<Rightarrow> (rs, if rs = [] then c else mp_unblock c, m'))"
proof (induction n arbitrary: c m)
  case (Suc n)
  let ?pos = "dequeue_pos (hdr m)"
  show ?case
  proof (cases "seq (slots m ! mp_slot_idx ?pos (c_mask c)) = ?pos + 1")
    case True
    have "dequeue_pos (hdr (mp_release c ?pos m)) = ?pos + 1" by (simp add: mp_release_def)
    with True show ?thesis using Suc.IH [of "mp_unblock c" "mp_release c ?pos m"]
      by (simp add: om_bus_mp_poll_def om_bus_mp_poll_impl_def Let_def mp_batch_unblock split: prod.splits)
  next
    case False
    then show ?thesis using mp_poll_step [OF False, of now]
      by (auto simp: Let_def split: prod.splits OmBusMpPollResult.splits)
  qed
qed simp

text \<open>
  C26: a batch returns the records, and leaves the consumer and the ring, that single polls give as long as they return a
  record.
\<close>

theorem mp_batch_is_repeated_poll:
  "om_bus_mp_poll_batch c n m = mp_poll_records (unat n) now c m"
  by (simp add: om_bus_mp_poll_batch_def mp_batch_polls split: prod.splits)

text \<open>Layout: rounding up to a cache line, and the total size.\<close>

lemma mp_align_up_multiple:
  assumes "unat v mod 64 = 0" "unat v + 63 < 2 ^ 64"
  shows "mp_align_up v 64 = v"
proof -
  have m: "(63 :: u64) = mask 6" by (simp add: mask_eq_exp_minus_1)
  have u: "unat (v + 63) = unat v + 63" using assms(2) by (simp add: unat_add_no_wrap)
  have "unat ((v + 63) AND NOT (mask 6)) = unat v"
    unfolding unat_and_not_mask u using assms(1) by (auto elim!: dvdE simp: mod_eq_0_iff_dvd)
  then show ?thesis by (simp add: mp_align_up_def m word_unat_eq_iff add.commute)
qed

lemma unat_mult_ucast:
  fixes a b :: u32
  shows "unat (ucast a * ucast b :: u64) = unat a * unat b"
proof -
  have "unat a * unat b < 2 ^ 32 * 2 ^ 32"
    using unsigned_less [of a, where 'a = nat] unsigned_less [of b, where 'a = nat] by (intro mult_strict_mono) simp_all
  then show ?thesis by (simp add: unat_word_ariths unat_ucast_up)
qed

lemma mp_slots_offset_eq: "unat (mp_slots_offset n) = 320 + 64 * unat n"
proof -
  have b: "unat n < 2 ^ 32" using unsigned_less [of n, where 'a = nat] by simp
  have h: "mp_align_up mp_header_size 64 = 320" by (subst mp_align_up_multiple) (simp_all add: mp_header_size_def)
  have "unat (ucast n * 64 :: u64) = unat n * 64" using unat_mult_ucast [of n 64] by simp
  then have u: "unat (320 + ucast n * 64 :: u64) = 320 + unat n * 64" using b by (subst unat_add_no_wrap) simp_all
  have "mp_align_up (320 + ucast n * 64) 64 = 320 + ucast n * 64" using b u by (intro mp_align_up_multiple) (simp_all add: mod_mult_self2)
  then show ?thesis using u by (simp add: mp_slots_offset_def mp_consts h mp_counter_size_def)
qed

text \<open>
  C30: the size of a valid configuration never wraps: it is five cache lines, one line per producer and
  capacity times slot size, computed in 64 bits, and the slots start on a cache line.
\<close>

theorem mp_size_exact:
  assumes "mp_validate_config cfg = OM_BUS_MP_OK"
  shows "unat (om_bus_mp_size cfg) = 320 + 64 * unat (cfg_max_producers cfg) + unat (cfg_capacity cfg) * unat (cfg_slot_size cfg) \<and>
    unat (mp_slots_offset (cfg_max_producers cfg)) mod 64 = 0"
proof -
  have pw: "mp_is_power_of_two (cfg_capacity cfg)" using assms by (auto simp: mp_validate_config_def split: if_splits)
  obtain k where "unat (ucast (cfg_capacity cfg) :: u64) = 2 ^ k" using power_of_twoE [OF mp_pow2 [OF pw]] .
  then have k: "unat (cfg_capacity cfg) = 2 ^ k" by (simp add: unat_ucast_up)
  have "(2::nat) ^ k < 2 ^ 32" using unsigned_less [of "cfg_capacity cfg", where 'a = nat] by (simp add: k)
  then have "k < 32" by (simp only: power_strict_increasing_iff [of "2::nat"])
  then have c: "unat (cfg_capacity cfg) \<le> 2 ^ 31" unfolding k by (intro power_increasing) simp_all
  have "unat (cfg_slot_size cfg) \<le> 2 ^ 32" "unat (cfg_max_producers cfg) \<le> 2 ^ 32"
    using unsigned_less [of "cfg_slot_size cfg", where 'a = nat] unsigned_less [of "cfg_max_producers cfg", where 'a = nat] by simp_all
  moreover from c this(1) have "unat (cfg_capacity cfg) * unat (cfg_slot_size cfg) \<le> 2 ^ 31 * 2 ^ 32" by (intro mult_le_mono)
  ultimately have "320 + 64 * unat (cfg_max_producers cfg) + unat (cfg_capacity cfg) * unat (cfg_slot_size cfg) < 2 ^ 64" by simp
  then show ?thesis using assms
    by (simp add: om_bus_mp_size_def unat_add_no_wrap mp_slots_offset_eq unat_mult_ucast)
qed

theorem mp_size_exact_witness: "unat (om_bus_mp_size (demo_cfg 2)) = 576"
  using mp_size_exact [of "demo_cfg 2"]
  by (simp add: demo_cfg_def mp_validate_config_def mp_is_power_of_two_def mp_consts)

section \<open>Defects\<close>

text \<open>With one slot, a committed record leaves the slot's sequence number equal to the next position to claim.\<close>

definition one_slot :: "OmBusMpMemory \<Rightarrow> bool" where
  "one_slot m \<longleftrightarrow> capacity (hdr m) = 1 \<and> length (slots m) = 1 \<and> seq (slots m ! 0) = enqueue_pos (hdr m) \<and>
     25 \<le> unat (slot_size (hdr m))"

lemma one_slot_publish:
  assumes s: "one_slot m" and f: "mp_fits m bs"
  obtains m' where "om_bus_mp_publish n (mp_producer m i) bs m = Some (OM_BUS_MP_OK, Some (enqueue_pos (hdr m)), m')"
    "one_slot m'" "enqueue_pos (hdr m') = enqueue_pos (hdr m) + 1" "dequeue_pos (hdr m') = dequeue_pos (hdr m)"
    "slot_size (hdr m') = slot_size (hdr m)"
proof -
  have i: "mp_slot_idx (enqueue_pos (hdr m)) (p_mask (mp_producer m i)) = 0" "0 < length (slots m)"
    using s by (simp_all add: one_slot_def mp_slot_idx_def mp_producer_def)
  have "25 \<le> unat (slot_size (hdr m))" "length bs < 65536" "seq (slots m ! 0) = enqueue_pos (hdr m)"
    using s f by (simp_all add: one_slot_def mp_fits_def)
  from mp_publish_free [OF i this(3,2) mp_max_payload [OF this(1) f], of n] obtain m'
    where m': "om_bus_mp_publish n (mp_producer m i) bs m = Some (OM_BUS_MP_OK, Some (enqueue_pos (hdr m)), m')"
      "enqueue_pos (hdr m') = enqueue_pos (hdr m) + 1" "dequeue_pos (hdr m') = dequeue_pos (hdr m)"
      "capacity (hdr m') = capacity (hdr m)" "slot_size (hdr m') = slot_size (hdr m)"
      "slots m' = (slots m)[0 := filled_slot (mp_producer m i) (enqueue_pos (hdr m)) bs (slots m ! 0)]" .
  have "one_slot m'" using s i(2) by (simp add: one_slot_def m'(2,4-6)) (simp add: filled_slot_def)
  with m'(1-3,5) show ?thesis by (intro that)
qed

text \<open>
  C32: a capacity of one, which the configuration check accepts, loses records: after one publish the ring does not look full, a second
  publish succeeds over the unread record, and from then on every poll finds the ring empty, at any time.
\<close>

theorem mp_capacity_one_loses:
  assumes "om_bus_mp_init addr sz cfg = Inr m" "om_bus_mp_consumer_open addr m = Inr c" "cfg_capacity cfg = 1"
    and "mp_fits m bs" "mp_fits m cs"
  shows "\<exists>m1 m2. om_bus_mp_publish 0 (mp_producer m i) bs m = Some (OM_BUS_MP_OK, Some 0, m1) \<and>
    om_bus_mp_publish 0 (mp_producer m1 j) cs m1 = Some (OM_BUS_MP_OK, Some 1, m2) \<and>
    (\<forall>now. om_bus_mp_poll now c m2 = (OM_BUS_MP_POLL_EMPTY, None, c, m2))"
proof -
  have m: "m = mp_fresh cfg" and v: "mp_validate_config cfg = OM_BUS_MP_OK" using assms(1) by (auto simp: om_bus_mp_init_def split: if_splits)
  have c: "c_mask c = 0" using assms(2,3) m by (auto simp: om_bus_mp_consumer_open_def mp_fresh_def split: if_splits)
  have "25 \<le> unat (cfg_slot_size cfg)" using v by (auto simp: mp_validate_config_def mp_consts word_less_nat_alt not_less split: if_splits)
  then have s: "one_slot m" using assms(3) by (simp add: one_slot_def m mp_fresh_def)
  have z: "enqueue_pos (hdr m) = 0" "dequeue_pos (hdr m) = 0" by (simp_all add: m mp_fresh_def)
  obtain m1 where m1: "om_bus_mp_publish 0 (mp_producer m i) bs m = Some (OM_BUS_MP_OK, Some 0, m1)" "one_slot m1"
    "enqueue_pos (hdr m1) = 1" "dequeue_pos (hdr m1) = 0" "slot_size (hdr m1) = slot_size (hdr m)"
    using one_slot_publish [OF s assms(4), of 0 i] z by auto
  have "mp_fits m1 cs" using assms(5) m1(5) by (simp add: mp_fits_def)
  then obtain m2 where m2: "om_bus_mp_publish 0 (mp_producer m1 j) cs m1 = Some (OM_BUS_MP_OK, Some 1, m2)" "one_slot m2"
    "enqueue_pos (hdr m2) = 2" "dequeue_pos (hdr m2) = 0"
    using one_slot_publish [OF m1(2), of cs 0 j] m1(3,4) by auto
  have "om_bus_mp_poll now c m2 = (OM_BUS_MP_POLL_EMPTY, None, c, m2)" for now
    using m2(2-4) by (simp add: om_bus_mp_poll_def om_bus_mp_poll_impl_def Let_def c mp_slot_idx_def one_slot_def)
  with m1(1) m2(1) show ?thesis by blast
qed

theorem mp_capacity_one_loses_witness:
  "\<exists>m1 m2. om_bus_mp_publish 0 (mp_producer (mp_fresh (demo_cfg 1)) 0) [7] (mp_fresh (demo_cfg 1)) = Some (OM_BUS_MP_OK, Some 0, m1) \<and>
     om_bus_mp_publish 0 (mp_producer m1 1) [8] m1 = Some (OM_BUS_MP_OK, Some 1, m2) \<and>
     om_bus_mp_poll 3 (demo_consumer 1) m2 = (OM_BUS_MP_POLL_EMPTY, None, demo_consumer 1, m2)"
  using mp_capacity_one_loses [OF demo_mp_init [of 1], of "[7]" "[8]" 0 1] by (auto simp: demo_cfg_def mp_fits_def mp_fresh_def)

text \<open>
  A run in which a producer claims position 0 and stalls, the consumer skips it, another producer claims
  positions 1 and 2 and commits position 2, which shares its slot with position 0.
\<close>

definition late_slot :: "u64 \<Rightarrow> u8 list \<Rightarrow> OmBusMpSlot" where
  "late_slot q bs = \<lparr>seq = q, slot_producer = 0, slot_len = 0, slot_sequence = 0, slot_payload = bs @ drop (length bs) (replicate 40 0)\<rparr>"

definition late_mem :: "u64 \<Rightarrow> u64 \<Rightarrow> u64 \<Rightarrow> u64 \<Rightarrow> u64 \<Rightarrow> OmBusMpSlot \<Rightarrow> OmBusMpMemory" where
  "late_mem e d pub sk k s0 = (let m = mp_fresh (demo_cfg 2) in
     m\<lparr>hdr := (hdr m)\<lparr>enqueue_pos := e, dequeue_pos := d, records_published := pub, skipped_sequences := sk\<rparr>,
       counters := [\<lparr>pc_published = 0, pc_full_rejects = 0, pc_poisoned_rejects = 0\<rparr>, \<lparr>pc_published = k, pc_full_rejects = 0, pc_poisoned_rejects = 0\<rparr>],
       slots := [s0, late_slot 1 []]\<rparr>)"

lemma late_mem_simps [simp]:
  "capacity (hdr (late_mem e d pub sk k s)) = 2" "slot_size (hdr (late_mem e d pub sk k s)) = 64"
  "enqueue_pos (hdr (late_mem e d pub sk k s)) = e" "dequeue_pos (hdr (late_mem e d pub sk k s)) = d" "waiters (hdr (late_mem e d pub sk k s)) = 0"
  "slots (late_mem e d pub sk k s) = [s, late_slot 1 []]" "mp_producer (late_mem e d pub sk k s) i = mp_producer (mp_fresh (demo_cfg 2)) i"
  by (simp_all add: late_mem_def Let_def mp_fresh_def demo_cfg_def mp_producer_def)

lemma late_mem_upd [simp]:
  "upd_hdr (\<lambda>h. h\<lparr>enqueue_pos := e'\<rparr>) (late_mem e d pub sk k s) = late_mem e' d pub sk k s"
  "upd_hdr (\<lambda>h. h\<lparr>dequeue_pos := d'\<rparr>) (late_mem e d pub sk k s) = late_mem e d' pub sk k s"
  "upd_hdr (\<lambda>h. h\<lparr>skipped_sequences := skipped_sequences h + 1\<rparr>) (late_mem e d pub sk k s) = late_mem e d pub (sk + 1) k s"
  "upd_hdr (\<lambda>h. h\<lparr>records_published := records_published h + 1\<rparr>) (late_mem e d pub sk k s) = late_mem e d (pub + 1) sk k s"
  "upd_counter (Suc 0) (\<lambda>c. c\<lparr>pc_published := pc_published c + 1\<rparr>) (late_mem e d pub sk k s) = late_mem e d pub sk (k + 1) s"
  "upd_slot 0 f (late_mem e d pub sk k s) = late_mem e d pub sk k (f s)"
  by (simp_all add: late_mem_def Let_def upd_hdr_def upd_counter_def upd_slot_def)

lemma late_slot_simps [simp]:
  "seq (late_slot q bs) = q" "(late_slot q bs)\<lparr>seq := r\<rparr> = late_slot r bs"
  "(late_slot q bs)\<lparr>slot_payload := x # drop (Suc 0) (slot_payload (late_slot q [y]))\<rparr> = late_slot q [x]"
  "(late_slot q bs)\<lparr>slot_payload := x # drop (Suc 0) (slot_payload (late_slot q []))\<rparr> = late_slot q [x]"
  by (simp_all add: late_slot_def)

lemma late_start: "mp_fresh (demo_cfg 2) = late_mem 0 0 0 0 0 (late_slot 0 [])"
proof -
  have "replicate 2 x = [x, x]" for x :: OmBusMpProducerCounter by (simp add: numeral_2_eq_2)
  then show ?thesis by (simp add: late_mem_def Let_def mp_fresh_def demo_cfg_def late_slot_def upt_rec mp_consts)
qed


end
