(* ===== verification/Bus_Error.thy ===== *)
theory Bus_Error
  imports Main
begin

text \<open>
  The error codes of the message bus, \<^verbatim>\<open>include/ombus/om_bus_error.h\<close>, and the classification of poll
  results of \<^verbatim>\<open>src/om_bus_shm.c\<close>.
\<close>

datatype (plugins only: code size) OmBusError =
    OM_ERR_BUS_INIT
  | OM_ERR_BUS_SHM_CREATE
  | OM_ERR_BUS_SHM_MAP
  | OM_ERR_BUS_SHM_OPEN
  | OM_ERR_BUS_NOT_POW2
  | OM_ERR_BUS_CONSUMER_ID
  | OM_ERR_BUS_RECORD_TOO_LARGE
  | OM_ERR_BUS_MAGIC_MISMATCH
  | OM_ERR_BUS_VERSION_MISMATCH
  | OM_ERR_BUS_CRC_MISMATCH
  | OM_ERR_BUS_GAP_DETECTED
  | OM_ERR_BUS_EMPTY
  | OM_ERR_BUS_TCP_BIND
  | OM_ERR_BUS_TCP_CONNECT
  | OM_ERR_BUS_TCP_SEND
  | OM_ERR_BUS_TCP_RECV
  | OM_ERR_BUS_TCP_DISCONNECTED
  | OM_ERR_BUS_TCP_PROTOCOL
  | OM_ERR_BUS_TCP_IO
  | OM_ERR_BUS_TCP_MAX_CLIENTS
  | OM_ERR_BUS_EPOCH_CHANGED
  | OM_ERR_BUS_CONSUMER_STALE
  | OM_ERR_BUS_TCP_SLOW_WARNING
  | OM_ERR_BUS_REORDER_DETECTED
  | OM_ERR_BUS_LAPPED
  | OM_ERR_BUS_ALIGNMENT

primrec bus_error_code :: "OmBusError \<Rightarrow> int" where
  "bus_error_code OM_ERR_BUS_INIT = - 800"
| "bus_error_code OM_ERR_BUS_SHM_CREATE = - 801"
| "bus_error_code OM_ERR_BUS_SHM_MAP = - 802"
| "bus_error_code OM_ERR_BUS_SHM_OPEN = - 803"
| "bus_error_code OM_ERR_BUS_NOT_POW2 = - 804"
| "bus_error_code OM_ERR_BUS_CONSUMER_ID = - 805"
| "bus_error_code OM_ERR_BUS_RECORD_TOO_LARGE = - 806"
| "bus_error_code OM_ERR_BUS_MAGIC_MISMATCH = - 807"
| "bus_error_code OM_ERR_BUS_VERSION_MISMATCH = - 808"
| "bus_error_code OM_ERR_BUS_CRC_MISMATCH = - 809"
| "bus_error_code OM_ERR_BUS_GAP_DETECTED = - 810"
| "bus_error_code OM_ERR_BUS_EMPTY = - 811"
| "bus_error_code OM_ERR_BUS_TCP_BIND = - 812"
| "bus_error_code OM_ERR_BUS_TCP_CONNECT = - 813"
| "bus_error_code OM_ERR_BUS_TCP_SEND = - 814"
| "bus_error_code OM_ERR_BUS_TCP_RECV = - 815"
| "bus_error_code OM_ERR_BUS_TCP_DISCONNECTED = - 816"
| "bus_error_code OM_ERR_BUS_TCP_PROTOCOL = - 817"
| "bus_error_code OM_ERR_BUS_TCP_IO = - 818"
| "bus_error_code OM_ERR_BUS_TCP_MAX_CLIENTS = - 819"
| "bus_error_code OM_ERR_BUS_EPOCH_CHANGED = - 820"
| "bus_error_code OM_ERR_BUS_CONSUMER_STALE = - 821"
| "bus_error_code OM_ERR_BUS_TCP_SLOW_WARNING = - 822"
| "bus_error_code OM_ERR_BUS_REORDER_DETECTED = - 823"
| "bus_error_code OM_ERR_BUS_LAPPED = - 824"
| "bus_error_code OM_ERR_BUS_ALIGNMENT = - 825"

primrec bus_error_message :: "OmBusError \<Rightarrow> string" where
  "bus_error_message OM_ERR_BUS_INIT = ''Bus initialization failed''"
| "bus_error_message OM_ERR_BUS_SHM_CREATE = ''SHM create failed''"
| "bus_error_message OM_ERR_BUS_SHM_MAP = ''SHM mmap failed''"
| "bus_error_message OM_ERR_BUS_SHM_OPEN = ''SHM open failed''"
| "bus_error_message OM_ERR_BUS_NOT_POW2 = ''Capacity not power of 2''"
| "bus_error_message OM_ERR_BUS_CONSUMER_ID = ''Invalid consumer index''"
| "bus_error_message OM_ERR_BUS_RECORD_TOO_LARGE = ''Record too large for slot''"
| "bus_error_message OM_ERR_BUS_MAGIC_MISMATCH = ''SHM magic mismatch''"
| "bus_error_message OM_ERR_BUS_VERSION_MISMATCH = ''SHM version mismatch''"
| "bus_error_message OM_ERR_BUS_CRC_MISMATCH = ''Payload CRC32 mismatch''"
| "bus_error_message OM_ERR_BUS_GAP_DETECTED = ''WAL sequence gap detected''"
| "bus_error_message OM_ERR_BUS_EMPTY = ''No record available''"
| "bus_error_message OM_ERR_BUS_TCP_BIND = ''TCP bind/listen failed''"
| "bus_error_message OM_ERR_BUS_TCP_CONNECT = ''TCP connect failed''"
| "bus_error_message OM_ERR_BUS_TCP_SEND = ''TCP send failed''"
| "bus_error_message OM_ERR_BUS_TCP_RECV = ''TCP recv failed''"
| "bus_error_message OM_ERR_BUS_TCP_DISCONNECTED = ''TCP peer disconnected''"
| "bus_error_message OM_ERR_BUS_TCP_PROTOCOL = ''TCP frame magic mismatch''"
| "bus_error_message OM_ERR_BUS_TCP_IO = ''TCP poll() error''"
| "bus_error_message OM_ERR_BUS_TCP_MAX_CLIENTS = ''TCP max clients reached''"
| "bus_error_message OM_ERR_BUS_EPOCH_CHANGED = ''Producer epoch changed''"
| "bus_error_message OM_ERR_BUS_CONSUMER_STALE = ''Consumer heartbeat stale''"
| "bus_error_message OM_ERR_BUS_TCP_SLOW_WARNING = ''TCP slow client warning''"
| "bus_error_message OM_ERR_BUS_REORDER_DETECTED = ''WAL sequence reorder detected''"
| "bus_error_message OM_ERR_BUS_LAPPED = ''Bus consumer lapped''"
| "bus_error_message OM_ERR_BUS_ALIGNMENT = ''Bus alignment invalid''"

definition bus_errors :: "OmBusError list" where
  "bus_errors = [OM_ERR_BUS_INIT, OM_ERR_BUS_SHM_CREATE, OM_ERR_BUS_SHM_MAP, OM_ERR_BUS_SHM_OPEN, OM_ERR_BUS_NOT_POW2, OM_ERR_BUS_CONSUMER_ID, OM_ERR_BUS_RECORD_TOO_LARGE, OM_ERR_BUS_MAGIC_MISMATCH, OM_ERR_BUS_VERSION_MISMATCH, OM_ERR_BUS_CRC_MISMATCH, OM_ERR_BUS_GAP_DETECTED, OM_ERR_BUS_EMPTY, OM_ERR_BUS_TCP_BIND, OM_ERR_BUS_TCP_CONNECT, OM_ERR_BUS_TCP_SEND, OM_ERR_BUS_TCP_RECV, OM_ERR_BUS_TCP_DISCONNECTED, OM_ERR_BUS_TCP_PROTOCOL, OM_ERR_BUS_TCP_IO, OM_ERR_BUS_TCP_MAX_CLIENTS, OM_ERR_BUS_EPOCH_CHANGED, OM_ERR_BUS_CONSUMER_STALE, OM_ERR_BUS_TCP_SLOW_WARNING, OM_ERR_BUS_REORDER_DETECTED, OM_ERR_BUS_LAPPED, OM_ERR_BUS_ALIGNMENT]"

text \<open>The function on integers: the messages of the listed codes, one for success and one for all others.\<close>

definition om_bus_error_string :: "int \<Rightarrow> string" where
  "om_bus_error_string err =
     (if err = 0 then ''Success''
      else case find (\<lambda>e. bus_error_code e = err) bus_errors of Some e \<Rightarrow> bus_error_message e | None \<Rightarrow> ''Unknown bus error'')"

text \<open>0 empty, 1 record, 2 lap, 3 epoch, 4 CRC, 5 other failure.\<close>

definition om_bus_poll_classify :: "int \<Rightarrow> int" where
  "om_bus_poll_classify rc =
     (if rc = 0 \<or> rc = bus_error_code OM_ERR_BUS_EMPTY then 0
      else if rc = 1 then 1
      else if rc = bus_error_code OM_ERR_BUS_LAPPED then 2
      else if rc = bus_error_code OM_ERR_BUS_EPOCH_CHANGED then 3
      else if rc = bus_error_code OM_ERR_BUS_CRC_MISMATCH then 4
      else 5)"

lemma bus_error_neg: "bus_error_code e < 0"
  by (cases e) simp_all

end
