(* ===== verification/Bus_Shm.thy ===== *)
theory Bus_Shm
  imports Bus_Error Ring_Index
begin

text \<open>
  The shared-memory stream of \<^verbatim>\<open>include/ombus/om_bus.h\<close> and \<^verbatim>\<open>src/om_bus_shm.c\<close>: one producer (the stream), several
  consumers (endpoints), records of the write-ahead log carried inline.

  The mapped region is a record: header, consumer tails and slots, each slot with the bytes that
  follow its header.  The outcomes of the system calls, the clock and the value that the second
  load of a slot's sequence number sees are arguments.  The CRC is the table driven variant of the
  source.  Handles and output pointers are not NULL.  The fields of an output record are given when the
  call fills all of them.
\<close>

section \<open>Constants\<close>

definition OM_BUS_SHM_MAGIC :: u32 where "OM_BUS_SHM_MAGIC = 0x4F4D4253"
definition OM_BUS_SHM_VERSION :: u32 where "OM_BUS_SHM_VERSION = 2"
definition OM_BUS_HEADER_PAGE :: u32 where "OM_BUS_HEADER_PAGE = 4096"
definition OM_BUS_CACHELINE_SIZE :: u32 where "OM_BUS_CACHELINE_SIZE = 64"
definition OM_BUS_SLOT_HEADER_SIZE :: u32 where "OM_BUS_SLOT_HEADER_SIZE = 24"
definition OM_BUS_CONSUMER_ALIGN :: u32 where "OM_BUS_CONSUMER_ALIGN = OM_BUS_CACHELINE_SIZE"
definition OM_BUS_DEFAULT_SLOT_SIZE :: u32 where "OM_BUS_DEFAULT_SLOT_SIZE = 256"
definition OM_BUS_DEFAULT_CAPACITY :: u32 where "OM_BUS_DEFAULT_CAPACITY = 4096"
definition OM_BUS_DEFAULT_MAX_CONSUMERS :: u32 where "OM_BUS_DEFAULT_MAX_CONSUMERS = 8"
definition OM_BUS_FLAG_CRC :: u32 where "OM_BUS_FLAG_CRC = 1"
definition OM_BUS_FLAG_REJECT_REORDER :: u32 where "OM_BUS_FLAG_REJECT_REORDER = 2"
definition OM_BUS_FLAG_BROADCAST :: u32 where "OM_BUS_FLAG_BROADCAST = 4"
definition OM_BUS_CURSOR_MAGIC :: u32 where "OM_BUS_CURSOR_MAGIC = 0x4F4D4243"

lemmas bus_consts = OM_BUS_SHM_MAGIC_def OM_BUS_SHM_VERSION_def OM_BUS_HEADER_PAGE_def OM_BUS_CACHELINE_SIZE_def
  OM_BUS_SLOT_HEADER_SIZE_def OM_BUS_CONSUMER_ALIGN_def OM_BUS_DEFAULT_SLOT_SIZE_def OM_BUS_DEFAULT_CAPACITY_def
  OM_BUS_DEFAULT_MAX_CONSUMERS_def OM_BUS_FLAG_CRC_def OM_BUS_FLAG_REJECT_REORDER_def OM_BUS_FLAG_BROADCAST_def
  OM_BUS_CURSOR_MAGIC_def

section \<open>State\<close>

record OmBusSlot =
  seq :: u64
  s_wal_seq :: u64
  s_wal_type :: u8
  s_payload_len :: u16
  s_crc32 :: u32
  s_bytes :: "u8 list"

record OmBusShmHeader =
  magic :: u32
  version :: u32
  slot_size :: u32
  capacity :: u32
  max_consumers :: u32
  flags :: u32
  staleness_ns :: u64
  stream_name :: string
  head :: u64
  min_tail :: u64
  producer_epoch :: u64

record OmBusConsumerTail =
  tail :: u64
  t_wal_seq :: u64
  last_poll_ns :: u64

record OmBusShm =
  hdr :: OmBusShmHeader
  tails :: "OmBusConsumerTail list"
  slots :: "OmBusSlot list"

text \<open>A payload is NULL, bytes of the caller or of the copy buffer, or a pointer to the bytes of a slot.\<close>

datatype bus_payload = PayloadNull | PayloadBytes "u8 list" | PayloadSlot nat

record OmBusRecord =
  r_wal_seq :: u64
  r_wal_type :: u8
  r_payload_len :: u16
  r_payload :: bus_payload

record OmBusStreamConfig =
  sc_stream_name :: string
  sc_capacity :: u32
  sc_slot_size :: u32
  sc_max_consumers :: u32
  sc_flags :: u32
  sc_staleness_ns :: u64

record OmBusStream =
  st_slot_size :: u32
  st_capacity :: u32
  st_mask :: u32
  st_max_consumers :: u32
  st_flags :: u32
  st_shm_name :: string
  st_records_published :: u64
  st_staleness_ns :: u64

record OmBusStreamStats =
  ss_records_published :: u64
  ss_head :: u64
  ss_min_tail :: u64

record OmBusEndpointConfig =
  ec_consumer_index :: u32
  ec_zero_copy :: bool

record OmBusEndpoint =
  ep_consumer_index :: u32
  ep_slot_size :: u32
  ep_capacity :: u32
  ep_mask :: u32
  ep_max_consumers :: u32
  ep_flags :: u32
  ep_zero_copy :: bool
  ep_expected_wal_seq :: u64
  ep_producer_epoch :: u64

section \<open>Helpers\<close>

definition bus_is_power_of_two :: "u32 \<Rightarrow> bool" where
  "bus_is_power_of_two v \<longleftrightarrow> v \<noteq> 0 \<and> v AND (v - 1) = 0"

definition bus_crc32c_step :: "u32 \<Rightarrow> u32" where
  "bus_crc32c_step c = drop_bit 1 c XOR (if c AND 1 \<noteq> 0 then 0x82F63B78 else 0)"

definition bus_crc32c_table :: "nat \<Rightarrow> u32" where
  "bus_crc32c_table i = (bus_crc32c_step ^^ 8) (of_nat i)"

definition bus_crc32 :: "u8 list \<Rightarrow> u32" where
  "bus_crc32 buf =
     foldl (\<lambda>crc b. bus_crc32c_table (unat ((crc XOR ucast b) AND 0xFF)) XOR drop_bit 8 crc) 0xFFFFFFFF buf XOR 0xFFFFFFFF"

definition bus_shm_size :: "u32 \<Rightarrow> u32 \<Rightarrow> u32 \<Rightarrow> u64" where
  "bus_shm_size cap sz consumers =
     ucast OM_BUS_HEADER_PAGE + ucast consumers * ucast OM_BUS_CONSUMER_ALIGN + ucast cap * ucast sz"

fun min_tail_loop :: "u64 \<Rightarrow> u64 \<Rightarrow> OmBusConsumerTail list \<Rightarrow> u64 \<Rightarrow> u64" where
  "min_tail_loop now stale [] m = m"
| "min_tail_loop now stale (t # ts) m =
     (if last_poll_ns t = 0 then min_tail_loop now stale ts m
      else if stale \<noteq> 0 \<and> now - last_poll_ns t > stale then min_tail_loop now stale ts m
      else min_tail_loop now stale ts (if tail t < m then tail t else m))"

definition bus_min_tail_live :: "u64 \<Rightarrow> OmBusConsumerTail list \<Rightarrow> u32 \<Rightarrow> u64 \<Rightarrow> u64 \<Rightarrow> u64" where
  "bus_min_tail_live now ts count stale fallback =
     (let m = min_tail_loop (if stale \<noteq> 0 then now else 0) stale (take (unat count) ts) UINT64_MAX
      in if m = UINT64_MAX then fallback else m)"

definition bus_is_broadcast :: "u32 \<Rightarrow> bool" where
  "bus_is_broadcast f \<longleftrightarrow> f AND OM_BUS_FLAG_BROADCAST \<noteq> 0"

definition bus_slot_idx :: "u64 \<Rightarrow> u32 \<Rightarrow> nat" where
  "bus_slot_idx pos msk = unat (pos AND ucast msk)"

definition set_min_tail :: "u64 \<Rightarrow> OmBusShm \<Rightarrow> OmBusShm" where
  "set_min_tail v m = m\<lparr>hdr := (hdr m)\<lparr>min_tail := v\<rparr>\<rparr>"

definition set_head :: "u64 \<Rightarrow> OmBusShm \<Rightarrow> OmBusShm" where
  "set_head v m = m\<lparr>hdr := (hdr m)\<lparr>head := v\<rparr>\<rparr>"

definition upd_tail :: "nat \<Rightarrow> (OmBusConsumerTail \<Rightarrow> OmBusConsumerTail) \<Rightarrow> OmBusShm \<Rightarrow> OmBusShm" where
  "upd_tail i f m = m\<lparr>tails := (tails m)[i := f (tails m ! i)]\<rparr>"

section \<open>The stream\<close>

definition payload_bytes :: "bus_payload \<Rightarrow> u8 list" where
  "payload_bytes p = (case p of PayloadBytes bs \<Rightarrow> bs | _ \<Rightarrow> [])"

definition bus_write :: "OmBusStream \<Rightarrow> u64 \<Rightarrow> OmBusRecord \<Rightarrow> OmBusSlot \<Rightarrow> OmBusSlot" where
  "bus_write st pos rc s =
     (let bs = take (unat (r_payload_len rc)) (payload_bytes (r_payload rc))
      in s\<lparr>s_bytes := (if r_payload rc \<noteq> PayloadNull \<and> 0 < r_payload_len rc then bs @ drop (length bs) (s_bytes s) else s_bytes s),
           s_wal_seq := r_wal_seq rc, s_wal_type := r_wal_type rc, s_payload_len := r_payload_len rc,
           s_crc32 := (if st_flags st AND OM_BUS_FLAG_CRC \<noteq> 0 then bus_crc32 bs else 0), seq := pos + 1\<rparr>)"

definition bus_publish_slot :: "OmBusStream \<Rightarrow> u64 \<Rightarrow> OmBusRecord \<Rightarrow> OmBusShm \<Rightarrow> OmBusShm" where
  "bus_publish_slot st pos rc m =
     (let i = bus_slot_idx pos (st_mask st) in m\<lparr>slots := (slots m)[i := bus_write st pos rc (slots m ! i)]\<rparr>)"

text \<open>What the system calls of \<^verbatim>\<open>om_bus_stream_create\<close> return.\<close>

record create_os =
  co_shm_open :: bool
  co_fstat_size :: "u64 option"
  co_ftruncate :: bool
  co_mmap :: bool
  co_calloc :: bool
  co_epoch :: u64

definition bus_defaults :: "OmBusStreamConfig \<Rightarrow> u32 \<times> u32 \<times> u32" where
  "bus_defaults c =
     (if sc_capacity c \<noteq> 0 then sc_capacity c else OM_BUS_DEFAULT_CAPACITY,
      if sc_slot_size c \<noteq> 0 then sc_slot_size c else OM_BUS_DEFAULT_SLOT_SIZE,
      if sc_max_consumers c \<noteq> 0 then sc_max_consumers c else OM_BUS_DEFAULT_MAX_CONSUMERS)"

definition bus_fresh :: "u64 \<Rightarrow> OmBusStreamConfig \<Rightarrow> OmBusShm" where
  "bus_fresh epoch c = (case bus_defaults c of (cap, sz, mc) \<Rightarrow>
     \<lparr>hdr = \<lparr>magic = OM_BUS_SHM_MAGIC, version = OM_BUS_SHM_VERSION, slot_size = sz, capacity = cap, max_consumers = mc,
        flags = sc_flags c, staleness_ns = sc_staleness_ns c, stream_name = take 63 (sc_stream_name c), head = 0, min_tail = 0,
        producer_epoch = epoch\<rparr>,
      tails = replicate (unat mc) \<lparr>tail = 0, t_wal_seq = 0, last_poll_ns = 0\<rparr>,
      slots = map (\<lambda>i. \<lparr>seq = of_nat i, s_wal_seq = 0, s_wal_type = 0, s_payload_len = 0, s_crc32 = 0,
          s_bytes = replicate (unat sz - unat OM_BUS_SLOT_HEADER_SIZE) 0\<rparr>) [0..<unat cap]\<rparr>)"

definition bus_stream_of :: "OmBusStreamConfig \<Rightarrow> OmBusStream" where
  "bus_stream_of c = (case bus_defaults c of (cap, sz, mc) \<Rightarrow>
     \<lparr>st_slot_size = sz, st_capacity = cap, st_mask = cap - 1, st_max_consumers = mc, st_flags = sc_flags c,
      st_shm_name = take 63 (sc_stream_name c), st_records_published = 0, st_staleness_ns = sc_staleness_ns c\<rparr>)"

definition om_bus_stream_create :: "create_os \<Rightarrow> OmBusStreamConfig \<Rightarrow> OmBusError + OmBusStream \<times> OmBusShm" where
  "om_bus_stream_create os c = (case bus_defaults c of (cap, sz, mc) \<Rightarrow>
     if \<not> bus_is_power_of_two cap then Inl OM_ERR_BUS_NOT_POW2
     else if sz < OM_BUS_SLOT_HEADER_SIZE + 1 then Inl OM_ERR_BUS_INIT
     else if sz mod OM_BUS_CACHELINE_SIZE \<noteq> 0 then Inl OM_ERR_BUS_ALIGNMENT
     else if \<not> co_shm_open os then Inl OM_ERR_BUS_SHM_CREATE
     else let needs_resize = (case co_fstat_size os of Some n \<Rightarrow> n < bus_shm_size cap sz mc | None \<Rightarrow> True)
       in if needs_resize \<and> \<not> co_ftruncate os then Inl OM_ERR_BUS_SHM_CREATE
          else if \<not> co_mmap os then Inl OM_ERR_BUS_SHM_MAP
          else if \<not> co_calloc os then Inl OM_ERR_BUS_INIT
          else Inr (bus_stream_of c, bus_fresh (co_epoch os) c))"

text \<open>
  One turn of the back-pressure loop: whether it leaves, the memory, and whether it calls the back-pressure
  callback.  The loop run alone with the clock standing still; \<open>None\<close> is a loop that never ends.
\<close>

definition pressure_turn :: "u64 \<Rightarrow> OmBusStream \<Rightarrow> u64 \<Rightarrow> u32 \<Rightarrow> OmBusShm \<Rightarrow> bool \<times> OmBusShm \<times> bool" where
  "pressure_turn now st h spins m =
     (if h - min_tail (hdr m) < ucast (st_capacity st) then (True, m, False)
      else (False,
            if spins AND 31 = 0
            then set_min_tail (bus_min_tail_live now (tails m) (st_max_consumers st) (st_staleness_ns st) h) m else m,
            spins = 42))"

partial_function (option) pressure_loop :: "u64 \<Rightarrow> OmBusStream \<Rightarrow> u64 \<Rightarrow> u32 \<Rightarrow> OmBusShm \<Rightarrow> OmBusShm option" where
  "pressure_loop now st h spins m =
     (case pressure_turn now st h spins m of (leaves, m', cb) \<Rightarrow> if leaves then Some m' else pressure_loop now st h (spins + 1) m')"

definition om_bus_stream_publish ::
  "u64 \<Rightarrow> OmBusStream \<Rightarrow> OmBusRecord \<Rightarrow> OmBusShm \<Rightarrow> (OmBusError option \<times> OmBusStream \<times> OmBusShm) option" where
  "om_bus_stream_publish now st rc m =
     (if st_slot_size st - OM_BUS_SLOT_HEADER_SIZE < ucast (r_payload_len rc) then Some (Some OM_ERR_BUS_RECORD_TOO_LARGE, st, m)
      else let h = head (hdr m)
        in case (if bus_is_broadcast (st_flags st) then Some m else pressure_loop now st h 0 m) of None \<Rightarrow> None
          | Some m1 \<Rightarrow> Some (None, st\<lparr>st_records_published := st_records_published st + 1\<rparr>, set_head (h + 1) (bus_publish_slot st h rc m1)))"

fun publish_chunk :: "OmBusStream \<Rightarrow> u64 \<Rightarrow> OmBusRecord list \<Rightarrow> OmBusShm \<Rightarrow> OmBusShm" where
  "publish_chunk st h [] m = m"
| "publish_chunk st h (r # rs) m = publish_chunk st (h + 1) rs (bus_publish_slot st h r m)"

text \<open>The records still to publish and the local head; chunks of what is available.\<close>

partial_function (option) publish_batch_loop ::
  "u64 \<Rightarrow> OmBusStream \<Rightarrow> u64 \<Rightarrow> OmBusRecord list \<Rightarrow> OmBusShm \<Rightarrow> (u64 \<times> OmBusShm) option" where
  "publish_batch_loop now st h rs m =
     (if rs = [] then Some (h, m)
      else case (if bus_is_broadcast (st_flags st) then Some m else pressure_loop now st h 0 m) of None \<Rightarrow> None
        | Some m1 \<Rightarrow>
          let available = (if bus_is_broadcast (st_flags st) then length rs
                else unat (ucast (st_capacity st) - (h - min_tail (hdr m1)) :: u64));
              chunk = min (length rs) available
          in publish_batch_loop now st (h + of_nat chunk) (drop chunk rs) (publish_chunk st h (take chunk rs) m1))"

definition om_bus_stream_publish_batch ::
  "u64 \<Rightarrow> OmBusStream \<Rightarrow> OmBusRecord list \<Rightarrow> OmBusShm \<Rightarrow> (OmBusError option \<times> OmBusStream \<times> OmBusShm) option" where
  "om_bus_stream_publish_batch now st rs m =
     (if \<exists>r \<in> set rs. st_slot_size st - OM_BUS_SLOT_HEADER_SIZE < ucast (r_payload_len r)
      then Some (Some OM_ERR_BUS_RECORD_TOO_LARGE, st, m)
      else case publish_batch_loop now st (head (hdr m)) rs m of None \<Rightarrow> None
        | Some (h, m') \<Rightarrow> Some (None, st\<lparr>st_records_published := st_records_published st + of_nat (length rs)\<rparr>, set_head h m'))"

definition om_bus_stream_stats :: "OmBusStream \<Rightarrow> OmBusShm \<Rightarrow> OmBusStreamStats" where
  "om_bus_stream_stats st m =
     \<lparr>ss_records_published = st_records_published st, ss_head = head (hdr m), ss_min_tail = min_tail (hdr m)\<rparr>"

section \<open>Endpoints\<close>

record open_os =
  oo_shm_open :: bool
  oo_fstat_size :: "u64 option"
  oo_mmap :: bool
  oo_calloc :: bool
  oo_malloc :: bool
  oo_now :: u64

definition om_bus_endpoint_open ::
  "open_os \<Rightarrow> OmBusEndpointConfig \<Rightarrow> OmBusShm \<Rightarrow> OmBusError + OmBusEndpoint \<times> OmBusShm" where
  "om_bus_endpoint_open os c m =
     (if \<not> oo_shm_open os then Inl OM_ERR_BUS_SHM_OPEN
      else case oo_fstat_size os of None \<Rightarrow> Inl OM_ERR_BUS_SHM_OPEN
        | Some n \<Rightarrow>
          if n < ucast OM_BUS_HEADER_PAGE then Inl OM_ERR_BUS_SHM_OPEN
          else if \<not> oo_mmap os then Inl OM_ERR_BUS_SHM_MAP
          else if magic (hdr m) \<noteq> OM_BUS_SHM_MAGIC then Inl OM_ERR_BUS_MAGIC_MISMATCH
          else if version (hdr m) \<noteq> OM_BUS_SHM_VERSION then Inl OM_ERR_BUS_VERSION_MISMATCH
          else if max_consumers (hdr m) \<le> ec_consumer_index c then Inl OM_ERR_BUS_CONSUMER_ID
          else if flags (hdr m) AND OM_BUS_FLAG_BROADCAST \<noteq> 0 \<and> ec_zero_copy c then Inl OM_ERR_BUS_INIT
          else if \<not> oo_calloc os then Inl OM_ERR_BUS_INIT
          else if \<not> ec_zero_copy c \<and> \<not> oo_malloc os then Inl OM_ERR_BUS_INIT
          else Inr (\<lparr>ep_consumer_index = ec_consumer_index c, ep_slot_size = slot_size (hdr m), ep_capacity = capacity (hdr m),
                  ep_mask = capacity (hdr m) - 1, ep_max_consumers = max_consumers (hdr m), ep_flags = flags (hdr m),
                  ep_zero_copy = ec_zero_copy c, ep_expected_wal_seq = 0, ep_producer_epoch = producer_epoch (hdr m)\<rparr>,
                upd_tail (unat (ec_consumer_index c)) (\<lambda>t. \<lparr>tail = head (hdr m), t_wal_seq = 0, last_poll_ns = oo_now os\<rparr>) m))"

text \<open>The result of a poll: nothing, a record, or an error.\<close>

datatype poll_rc = PollEmpty | PollRecord | PollError OmBusError

primrec poll_rc_code :: "poll_rc \<Rightarrow> int" where
  "poll_rc_code PollEmpty = 0"
| "poll_rc_code PollRecord = 1"
| "poll_rc_code (PollError e) = bus_error_code e"

definition bus_gap_result :: "OmBusEndpoint \<Rightarrow> u64 \<Rightarrow> poll_rc \<times> OmBusEndpoint" where
  "bus_gap_result ep ws =
     (if 0 < ep_expected_wal_seq ep \<and> ws \<noteq> ep_expected_wal_seq ep
      then if ep_expected_wal_seq ep < ws then PollError OM_ERR_BUS_GAP_DETECTED
           else if ep_flags ep AND OM_BUS_FLAG_REJECT_REORDER \<noteq> 0 then PollError OM_ERR_BUS_REORDER_DETECTED else PollRecord
      else PollRecord, ep\<lparr>ep_expected_wal_seq := ws + 1\<rparr>)"

definition bus_endpoint_advance :: "u64 \<Rightarrow> OmBusEndpoint \<Rightarrow> u64 \<Rightarrow> u64 \<Rightarrow> u64 \<Rightarrow> OmBusShm \<Rightarrow> OmBusShm" where
  "bus_endpoint_advance now ep old_tail new_tail ws m =
     (let m1 = upd_tail (unat (ep_consumer_index ep)) (\<lambda>t. \<lparr>tail = new_tail, t_wal_seq = ws, last_poll_ns = now\<rparr>) m
      in if bus_is_broadcast (ep_flags ep) then m1
         else if old_tail = min_tail (hdr m1) \<or> new_tail < min_tail (hdr m1)
         then set_min_tail (bus_min_tail_live now (tails m1) (ep_max_consumers ep) (staleness_ns (hdr m1)) new_tail) m1
         else m1)"

definition ep_tail :: "OmBusEndpoint \<Rightarrow> OmBusShm \<Rightarrow> u64" where
  "ep_tail ep m = tail (tails m ! unat (ep_consumer_index ep))"

text \<open>\<open>reload\<close> gives the value of the second load of the slot's sequence number from the first.\<close>

definition om_bus_endpoint_poll ::
  "u64 \<Rightarrow> (u64 \<Rightarrow> u64) \<Rightarrow> OmBusEndpoint \<Rightarrow> OmBusShm \<Rightarrow> poll_rc \<times> OmBusRecord option \<times> OmBusEndpoint \<times> OmBusShm" where
  "om_bus_endpoint_poll now reload ep m =
     (if producer_epoch (hdr m) \<noteq> ep_producer_epoch ep then (PollError OM_ERR_BUS_EPOCH_CHANGED, None, ep, m)
      else let t = ep_tail ep m; i = bus_slot_idx t (ep_mask ep); s = slots m ! i; want_seq = t + 1
        in if bus_is_broadcast (ep_flags ep) \<and> (seq s = 0 \<or> seq s < want_seq) then (PollEmpty, None, ep, m)
           else if bus_is_broadcast (ep_flags ep) \<and> want_seq < seq s then (PollError OM_ERR_BUS_LAPPED, None, ep, m)
           else if \<not> bus_is_broadcast (ep_flags ep) \<and> seq s \<noteq> want_seq then (PollEmpty, None, ep, m)
           else if ep_slot_size ep - OM_BUS_SLOT_HEADER_SIZE < ucast (s_payload_len s)
           then (PollError OM_ERR_BUS_RECORD_TOO_LARGE, None, ep, m)
           else if bus_is_broadcast (ep_flags ep) \<and> reload (seq s) \<noteq> seq s then (PollError OM_ERR_BUS_LAPPED, None, ep, m)
           else let bs = take (unat (s_payload_len s)) (s_bytes s)
             in if ep_flags ep AND OM_BUS_FLAG_CRC \<noteq> 0 \<and> bus_crc32 bs \<noteq> s_crc32 s then (PollError OM_ERR_BUS_CRC_MISMATCH, None, ep, m)
                else case bus_gap_result ep (s_wal_seq s) of (rc, ep') \<Rightarrow>
                  (rc, Some \<lparr>r_wal_seq = s_wal_seq s, r_wal_type = s_wal_type s, r_payload_len = s_payload_len s,
                         r_payload = (if ep_zero_copy ep then PayloadSlot i else PayloadBytes bs)\<rparr>, ep',
                   bus_endpoint_advance now ep' t (t + 1) (s_wal_seq s) m))"

text \<open>
  The batch loop after \<open>k\<close> records: an error when the first record is lapped, otherwise the records up to
  the first slot that is not ready.
\<close>

fun poll_batch_loop :: "(u64 \<Rightarrow> u64) \<Rightarrow> OmBusEndpoint \<Rightarrow> OmBusShm \<Rightarrow> u64 \<Rightarrow> nat \<Rightarrow> nat \<Rightarrow> OmBusError + OmBusRecord list" where
  "poll_batch_loop reload ep m t 0 k = Inr []"
| "poll_batch_loop reload ep m t (Suc n) k =
     (let pos = t + of_nat k; i = bus_slot_idx pos (ep_mask ep); s = slots m ! i; want_seq = pos + 1;
          bs = take (unat (s_payload_len s)) (s_bytes s); bc = bus_is_broadcast (ep_flags ep);
          lapped = (if k = 0 then Inl OM_ERR_BUS_LAPPED else Inr [])
      in if bc \<and> (seq s = 0 \<or> seq s < want_seq) then Inr []
         else if bc \<and> want_seq < seq s then lapped
         else if \<not> bc \<and> seq s \<noteq> want_seq then Inr []
         else if bc \<and> reload (seq s) \<noteq> seq s then lapped
         else if ep_flags ep AND OM_BUS_FLAG_CRC \<noteq> 0 \<and> bus_crc32 bs \<noteq> s_crc32 s then Inr []
         else case poll_batch_loop reload ep m t n (Suc k) of Inl e \<Rightarrow> Inl e
           | Inr rs \<Rightarrow> Inr (\<lparr>r_wal_seq = s_wal_seq s, r_wal_type = s_wal_type s, r_payload_len = s_payload_len s,
                 r_payload = (if bc then PayloadBytes bs else PayloadSlot i)\<rparr> # rs))"

definition om_bus_endpoint_poll_batch ::
  "u64 \<Rightarrow> (u64 \<Rightarrow> u64) \<Rightarrow> OmBusEndpoint \<Rightarrow> nat \<Rightarrow> OmBusShm \<Rightarrow> (OmBusError + OmBusRecord list) \<times> OmBusEndpoint \<times> OmBusShm" where
  "om_bus_endpoint_poll_batch now reload ep max_count m =
     (if max_count = 0 then (Inr [], ep, m)
      else if producer_epoch (hdr m) \<noteq> ep_producer_epoch ep then (Inl OM_ERR_BUS_EPOCH_CHANGED, ep, m)
      else let t = ep_tail ep m; n = (if bus_is_broadcast (ep_flags ep) \<and> 1 < max_count then 1 else max_count)
        in case poll_batch_loop reload ep m t n 0 of Inl e \<Rightarrow> (Inl e, ep, m)
          | Inr rs \<Rightarrow> if rs = [] then (Inr [], ep, m)
              else let ep' = ep\<lparr>ep_expected_wal_seq := r_wal_seq (last rs) + 1\<rparr>
                in (Inr rs, ep', bus_endpoint_advance now ep' t (t + of_nat (length rs)) (r_wal_seq (last rs)) m))"

definition om_bus_endpoint_seek_head :: "u64 \<Rightarrow> OmBusEndpoint \<Rightarrow> OmBusShm \<Rightarrow> OmBusShm" where
  "om_bus_endpoint_seek_head now ep m =
     upd_tail (unat (ep_consumer_index ep)) (\<lambda>t. t\<lparr>tail := head (hdr m), last_poll_ns := now\<rparr>) m"

definition om_bus_endpoint_wal_seq :: "OmBusEndpoint \<Rightarrow> OmBusShm \<Rightarrow> u64" where
  "om_bus_endpoint_wal_seq ep m = t_wal_seq (tails m ! unat (ep_consumer_index ep))"

definition om_bus_endpoint_close :: "OmBusEndpoint \<Rightarrow> OmBusShm \<Rightarrow> OmBusShm" where
  "om_bus_endpoint_close ep m = upd_tail (unat (ep_consumer_index ep)) (\<lambda>t. t\<lparr>last_poll_ns := 0\<rparr>) m"

definition om_bus_endpoint_position :: "OmBusEndpoint \<Rightarrow> OmBusShm \<Rightarrow> u64" where
  "om_bus_endpoint_position ep m = ep_tail ep m"

definition set_ep_tail :: "OmBusEndpoint \<Rightarrow> u64 \<Rightarrow> OmBusShm \<Rightarrow> OmBusShm" where
  "set_ep_tail ep v m = upd_tail (unat (ep_consumer_index ep)) (\<lambda>t. t\<lparr>tail := v\<rparr>) m"

definition om_bus_endpoint_peek_previous ::
  "u64 \<Rightarrow> (u64 \<Rightarrow> u64) \<Rightarrow> OmBusEndpoint \<Rightarrow> u64 \<Rightarrow> OmBusShm \<Rightarrow> poll_rc \<times> OmBusRecord option \<times> OmBusEndpoint \<times> OmBusShm" where
  "om_bus_endpoint_peek_previous now reload ep distance m =
     (let t = ep_tail ep m
      in if distance = 0 \<or> t < distance \<or> ucast (ep_capacity ep) < distance then (PollEmpty, None, ep, m)
         else case om_bus_endpoint_poll now reload (ep\<lparr>ep_expected_wal_seq := 0\<rparr>) (set_ep_tail ep (t - distance) m) of
           (rc, r, ep', m') \<Rightarrow> (rc, r, ep'\<lparr>ep_expected_wal_seq := ep_expected_wal_seq ep\<rparr>, set_ep_tail ep t m'))"

definition om_bus_endpoint_rewind_retained :: "OmBusEndpoint \<Rightarrow> OmBusShm \<Rightarrow> bool \<times> OmBusEndpoint \<times> OmBusShm" where
  "om_bus_endpoint_rewind_retained ep m =
     (let h = head (hdr m); start = (if ucast (ep_capacity ep) < h then h - ucast (ep_capacity ep) else 0)
      in (start = 0, ep\<lparr>ep_expected_wal_seq := 0\<rparr>, set_ep_tail ep start m))"

section \<open>Cursor files\<close>

definition cursor_bytes :: "u64 \<Rightarrow> u8 list" where
  "cursor_bytes ws =
     bytes_le 4 (unat OM_BUS_CURSOR_MAGIC) @ bytes_le 8 (unat ws) @ bytes_le 4 (unat (bus_crc32 (bytes_le 8 (unat ws))))"

text \<open>\<open>opened\<close> and \<open>written\<close> are what \<^verbatim>\<open>open\<close> and \<^verbatim>\<open>write\<close> return; the bytes are what the file then holds.\<close>

definition om_bus_endpoint_save_cursor :: "bool \<Rightarrow> int \<Rightarrow> OmBusEndpoint \<Rightarrow> OmBusShm \<Rightarrow> OmBusError option \<times> u8 list option" where
  "om_bus_endpoint_save_cursor opened written ep m =
     (if \<not> opened then (Some OM_ERR_BUS_SHM_OPEN, None)
      else if written = 16 then (None, Some (cursor_bytes (om_bus_endpoint_wal_seq ep m)))
      else (Some OM_ERR_BUS_SHM_OPEN, Some (take (nat written) (cursor_bytes (om_bus_endpoint_wal_seq ep m)))))"

text \<open>The argument is the content of the file, or \<open>None\<close> when it cannot be opened; \<^verbatim>\<open>read\<close> gives its first 16 bytes.\<close>

definition om_bus_endpoint_load_cursor :: "u8 list option \<Rightarrow> OmBusError + u64" where
  "om_bus_endpoint_load_cursor file =
     (case file of None \<Rightarrow> Inl OM_ERR_BUS_SHM_OPEN
      | Some content \<Rightarrow>
        let buf = take 16 content; m = nat_le (take 4 buf); ws = take 8 (drop 4 buf); c = nat_le (drop 12 buf)
        in if length buf \<noteq> 16 then Inl OM_ERR_BUS_SHM_OPEN
           else if m \<noteq> unat OM_BUS_CURSOR_MAGIC then Inl OM_ERR_BUS_CRC_MISMATCH
           else if c \<noteq> unat (bus_crc32 ws) then Inl OM_ERR_BUS_CRC_MISMATCH
           else Inr (of_nat (nat_le ws)))"

section \<open>What the ring holds\<close>

text \<open>
  \<open>latest c n i\<close>: the last position below \<open>n\<close> that falls on slot \<open>i\<close> of \<open>c\<close>.
\<close>

definition on_slot :: "nat \<Rightarrow> nat \<Rightarrow> nat \<Rightarrow> nat \<Rightarrow> bool" where
  "on_slot c n i p \<longleftrightarrow> p < n \<and> p mod c = i \<and> n \<le> p + c"

text \<open>A slot that carries record \<open>r\<close> as number \<open>p\<close>.\<close>

definition carries :: "u32 \<Rightarrow> OmBusSlot \<Rightarrow> nat \<Rightarrow> OmBusRecord \<Rightarrow> bool" where
  "carries f s p r \<longleftrightarrow> unat (seq s) = Suc p \<and> s_wal_seq s = r_wal_seq r \<and> s_wal_type s = r_wal_type r \<and>
     s_payload_len s = r_payload_len r \<and>
     take (unat (r_payload_len r)) (s_bytes s) = payload_bytes (r_payload r) \<and>
     (f AND OM_BUS_FLAG_CRC \<noteq> 0 \<longrightarrow> s_crc32 s = bus_crc32 (payload_bytes (r_payload r)))"

text \<open>A record as a producer gives it: its payload is a byte list of the length it states, and fits the slot.\<close>

definition fits :: "u32 \<Rightarrow> OmBusRecord \<Rightarrow> bool" where
  "fits sz r \<longleftrightarrow> r_payload r = PayloadBytes (payload_bytes (r_payload r)) \<and>
     length (payload_bytes (r_payload r)) = unat (r_payload_len r) \<and> unat (r_payload_len r) + 24 \<le> unat sz"

definition shm_ok :: "OmBusShm \<Rightarrow> OmBusRecord list \<Rightarrow> bool" where
  "shm_ok m rs \<longleftrightarrow> bus_is_power_of_two (capacity (hdr m)) \<and> length (slots m) = unat (capacity (hdr m)) \<and>
     length (tails m) = unat (max_consumers (hdr m)) \<and> 25 \<le> unat (slot_size (hdr m)) \<and>
     unat (head (hdr m)) = length rs \<and> length rs < 2 ^ 63 \<and> (\<forall>r \<in> set rs. fits (slot_size (hdr m)) r) \<and>
     (\<forall>s \<in> set (slots m). length (s_bytes s) = unat (slot_size (hdr m)) - 24) \<and>
     (\<forall>i < unat (capacity (hdr m)).
        (\<forall>p. on_slot (unat (capacity (hdr m))) (length rs) i p \<longrightarrow> carries (flags (hdr m)) (slots m ! i) p (rs ! p)) \<and>
        (length rs \<le> i \<longrightarrow> unat (seq (slots m ! i)) = i))"

lemma on_slot_ex:
  assumes "i < c" "i < n"
  shows "\<exists>p. on_slot c n i p"
proof (cases "n \<le> c")
  case True
  then show ?thesis using assms by (intro exI [of _ i]) (simp add: on_slot_def)
next
  case False
  obtain p where "n - c \<le> p" "p < n - c + c" "p mod c = i mod c" using window_rep [of c "n - c" i] assms(1) by auto
  then show ?thesis using assms False by (intro exI [of _ p]) (simp add: on_slot_def)
qed

lemma on_slot_unique: "on_slot c n i p \<Longrightarrow> on_slot c n i q \<Longrightarrow> p = q"
  using mod_window_inj [of p c q] mod_window_inj [of q c p] unfolding on_slot_def by (cases "p \<le> q") auto

lemma shm_okD:
  assumes "shm_ok m rs"
  shows "bus_is_power_of_two (capacity (hdr m))" "length (slots m) = unat (capacity (hdr m))" "25 \<le> unat (slot_size (hdr m))"
    "unat (head (hdr m)) = length rs" "length rs < 2 ^ 63" "0 < unat (capacity (hdr m))" "length (tails m) = unat (max_consumers (hdr m))"
    "r \<in> set rs \<Longrightarrow> fits (slot_size (hdr m)) r"
    "on_slot (unat (capacity (hdr m))) (length rs) i p \<Longrightarrow> i < unat (capacity (hdr m)) \<Longrightarrow> carries (flags (hdr m)) (slots m ! i) p (rs ! p)"
    "length rs \<le> i \<Longrightarrow> i < unat (capacity (hdr m)) \<Longrightarrow> unat (seq (slots m ! i)) = i"
  using assms unfolding shm_ok_def by (auto simp: bus_is_power_of_two_def unat_gt_0)

lemma bus_slot_idx_eq: "bus_is_power_of_two c \<Longrightarrow> bus_slot_idx pos (c - 1) = unat pos mod unat c"
  by (simp add: bus_is_power_of_two_def bus_slot_idx_def ring_pos_32)

text \<open>The slot at a position up to the head: the record itself, an older one or none, or a newer one.\<close>

lemma shm_slot_at:
  assumes ok: "shm_ok m rs"
  defines "c \<equiv> unat (capacity (hdr m))" and "n \<equiv> length rs"
  shows "t < n \<Longrightarrow> n \<le> t + c \<Longrightarrow> carries (flags (hdr m)) (slots m ! (t mod c)) t (rs ! t)"
    "t = n \<Longrightarrow> unat (seq (slots m ! (t mod c))) \<le> t"
    "t + c < n \<Longrightarrow> Suc t < unat (seq (slots m ! (t mod c)))"
proof -
  note D = shm_okD [OF ok, folded c_def n_def]
  have i: "t mod c < c" using D(6) by simp
  show "carries (flags (hdr m)) (slots m ! (t mod c)) t (rs ! t)" if "t < n" "n \<le> t + c"
    using D(9) [of "t mod c" t] that i by (simp add: on_slot_def)
  show "unat (seq (slots m ! (t mod c))) \<le> t" if "t = n"
  proof (cases "t mod c < n")
    case True
    then obtain p where p: "on_slot c n (t mod c) p" using on_slot_ex [OF i] by blast
    with D(9) [OF p i] that show ?thesis by (simp add: carries_def on_slot_def)
  next
    case False
    then have "t mod c = t" using that by (metis mod_less_eq_dividend le_antisym not_less)
    with D(10) [of t] that i show ?thesis by simp
  qed
  show "Suc t < unat (seq (slots m ! (t mod c)))" if "t + c < n"
  proof -
    have "t mod c < n" using that by (metis mod_less_eq_dividend add_lessD1 le_less_trans)
    then obtain p where p: "on_slot c n (t mod c) p" using on_slot_ex [OF i] by blast
    with D(9) [OF p i] that show ?thesis by (simp add: carries_def on_slot_def)
  qed
qed

definition ep_of :: "OmBusEndpoint \<Rightarrow> OmBusShm \<Rightarrow> bool" where
  "ep_of ep m \<longleftrightarrow> ep_mask ep = capacity (hdr m) - 1 \<and> ep_capacity ep = capacity (hdr m) \<and> ep_slot_size ep = slot_size (hdr m) \<and>
     ep_flags ep = flags (hdr m) \<and> ep_max_consumers ep = max_consumers (hdr m) \<and> ep_producer_epoch ep = producer_epoch (hdr m) \<and>
     ep_consumer_index ep < max_consumers (hdr m)"

lemma advance_frame [simp]:
  "slots (bus_endpoint_advance now ep a b w m) = slots m"
  "head (hdr (bus_endpoint_advance now ep a b w m)) = head (hdr m)"
  "capacity (hdr (bus_endpoint_advance now ep a b w m)) = capacity (hdr m)"
  "slot_size (hdr (bus_endpoint_advance now ep a b w m)) = slot_size (hdr m)"
  "flags (hdr (bus_endpoint_advance now ep a b w m)) = flags (hdr m)"
  "max_consumers (hdr (bus_endpoint_advance now ep a b w m)) = max_consumers (hdr m)"
  "producer_epoch (hdr (bus_endpoint_advance now ep a b w m)) = producer_epoch (hdr m)"
  "tails (bus_endpoint_advance now ep a b w m) =
     (tails m)[unat (ep_consumer_index ep) := \<lparr>tail = b, t_wal_seq = w, last_poll_ns = now\<rparr>]"
  by (simp_all add: bus_endpoint_advance_def Let_def upd_tail_def set_min_tail_def)

lemma shm_ok_cong:
  assumes "slots m' = slots m" "head (hdr m') = head (hdr m)" "capacity (hdr m') = capacity (hdr m)"
    "slot_size (hdr m') = slot_size (hdr m)" "flags (hdr m') = flags (hdr m)" "max_consumers (hdr m') = max_consumers (hdr m)"
    "length (tails m') = length (tails m)"
  shows "shm_ok m' rs = shm_ok m rs"
  unfolding shm_ok_def assms ..

lemma shm_poll_outcome:
  assumes ok: "shm_ok m rs" and ep: "ep_of ep m" and zc: "\<not> ep_zero_copy ep" and re: "reload = id"
    and t: "unat (ep_tail ep m) = t" "t \<le> length rs"
  defines "c \<equiv> unat (capacity (hdr m))"
  shows "t = length rs \<Longrightarrow> om_bus_endpoint_poll now reload ep m = (PollEmpty, None, ep, m)"
    "t + c < length rs \<Longrightarrow> om_bus_endpoint_poll now reload ep m =
      (if bus_is_broadcast (flags (hdr m)) then PollError OM_ERR_BUS_LAPPED else PollEmpty, None, ep, m)"
    "t < length rs \<Longrightarrow> length rs \<le> t + c \<Longrightarrow> om_bus_endpoint_poll now reload ep m =
      (fst (bus_gap_result ep (r_wal_seq (rs ! t))), Some (rs ! t), ep\<lparr>ep_expected_wal_seq := r_wal_seq (rs ! t) + 1\<rparr>,
       bus_endpoint_advance now (ep\<lparr>ep_expected_wal_seq := r_wal_seq (rs ! t) + 1\<rparr>) (ep_tail ep m) (ep_tail ep m + 1) (r_wal_seq (rs ! t)) m)"
proof -
  note D = shm_okD [OF ok]
  note S = shm_slot_at [OF ok, of t, folded c_def]
  have i: "bus_slot_idx (ep_tail ep m) (ep_mask ep) = t mod c"
    using ep bus_slot_idx_eq [OF D(1), of "ep_tail ep m"] t(1) by (simp add: ep_of_def c_def)
  let ?s = "slots m ! (t mod c)"
  have u: "unat (ep_tail ep m + 1) = Suc t" using t D(5) by (simp add: unat_add_no_wrap)
  have e: "producer_epoch (hdr m) = ep_producer_epoch ep" "ep_flags ep = flags (hdr m)" "ep_slot_size ep = slot_size (hdr m)"
    using ep by (simp_all add: ep_of_def)
  show "om_bus_endpoint_poll now reload ep m = (PollEmpty, None, ep, m)" if "t = length rs"
  proof -
    have "unat (seq ?s) < Suc t" using S(2) that by simp
    then have "seq ?s < ep_tail ep m + 1" by (simp add: word_less_nat_alt u)
    moreover from this have "seq ?s \<noteq> ep_tail ep m + 1" by auto
    ultimately show ?thesis by (simp add: om_bus_endpoint_poll_def Let_def i e)
  qed
  show "om_bus_endpoint_poll now reload ep m =
      (if bus_is_broadcast (flags (hdr m)) then PollError OM_ERR_BUS_LAPPED else PollEmpty, None, ep, m)" if "t + c < length rs"
  proof -
    have "ep_tail ep m + 1 < seq ?s" using S(3) that by (simp add: word_less_nat_alt u)
    moreover from this have "seq ?s \<noteq> 0" "\<not> seq ?s < ep_tail ep m + 1" "seq ?s \<noteq> ep_tail ep m + 1" by auto
    ultimately show ?thesis by (simp add: om_bus_endpoint_poll_def Let_def i e)
  qed
  assume lt: "t < length rs" "length rs \<le> t + c"
  have ca: "carries (flags (hdr m)) ?s t (rs ! t)" using S(1) lt by blast
  have f: "fits (slot_size (hdr m)) (rs ! t)" using D(8) lt(1) by simp
  have sq: "seq ?s = ep_tail ep m + 1" using ca u by (simp add: carries_def word_unat_eq_iff)
  have nz: "ep_tail ep m + 1 \<noteq> 0" using u by (metis nat.distinct(1) unsigned_0)
  have "unat (ep_slot_size ep - OM_BUS_SLOT_HEADER_SIZE) = unat (slot_size (hdr m)) - 24"
    using D(3) e(3) by (simp add: unat_sub_le bus_consts word_le_nat_alt)
  moreover have "unat (ucast (r_payload_len (rs ! t)) :: u32) = unat (r_payload_len (rs ! t))"
    using unsigned_less [of "r_payload_len (rs ! t)", where 'a = nat] by (simp add: unsigned_ucast_eq take_bit_nat_eq_self)
  ultimately have len: "\<not> ep_slot_size ep - OM_BUS_SLOT_HEADER_SIZE < ucast (r_payload_len (rs ! t))"
    using f by (auto simp: word_less_nat_alt fits_def)
  have rec: "\<lparr>r_wal_seq = r_wal_seq (rs ! t), r_wal_type = r_wal_type (rs ! t), r_payload_len = r_payload_len (rs ! t),
      r_payload = PayloadBytes (payload_bytes (r_payload (rs ! t)))\<rparr> = rs ! t" using f by (simp add: fits_def)
  have ca': "s_wal_seq ?s = r_wal_seq (rs ! t)" "s_wal_type ?s = r_wal_type (rs ! t)" "s_payload_len ?s = r_payload_len (rs ! t)"
    "take (unat (r_payload_len (rs ! t))) (s_bytes ?s) = payload_bytes (r_payload (rs ! t))"
    "flags (hdr m) AND OM_BUS_FLAG_CRC = 0 \<or> bus_crc32 (payload_bytes (r_payload (rs ! t))) = s_crc32 ?s"
    using ca by (auto simp: carries_def)
  show "om_bus_endpoint_poll now reload ep m =
      (fst (bus_gap_result ep (r_wal_seq (rs ! t))), Some (rs ! t), ep\<lparr>ep_expected_wal_seq := r_wal_seq (rs ! t) + 1\<rparr>,
       bus_endpoint_advance now (ep\<lparr>ep_expected_wal_seq := r_wal_seq (rs ! t) + 1\<rparr>) (ep_tail ep m) (ep_tail ep m + 1) (r_wal_seq (rs ! t)) m)"
    using len nz zc re ca'(5) by (simp add: om_bus_endpoint_poll_def Let_def i sq e(1,2) ca'(1-4) rec bus_gap_result_def)
qed

section \<open>Publishing\<close>

definition stream_of :: "OmBusStream \<Rightarrow> OmBusShm \<Rightarrow> bool" where
  "stream_of st m \<longleftrightarrow> st_mask st = capacity (hdr m) - 1 \<and> st_capacity st = capacity (hdr m) \<and> st_slot_size st = slot_size (hdr m) \<and>
     st_flags st = flags (hdr m) \<and> st_max_consumers st = max_consumers (hdr m)"

lemma bus_write_carries:
  assumes f: "fits sz r" and b: "length (s_bytes s) = unat sz - 24" and u: "unat (pos + 1) = Suc p"
  shows "carries (st_flags st) (bus_write st pos r s) p r" "length (s_bytes (bus_write st pos r s)) = unat sz - 24"
proof -
  let ?bs = "payload_bytes (r_payload r)"
  have l: "length ?bs = unat (r_payload_len r)" "r_payload r \<noteq> PayloadNull" "unat (r_payload_len r) \<le> unat sz - 24"
    using f by (auto simp: fits_def)
  have z: "\<not> 0 < r_payload_len r \<Longrightarrow> ?bs = []" using l(1) by (simp add: word_gt_0)
  show "carries (st_flags st) (bus_write st pos r s) p r"
    using l z u by (cases "0 < r_payload_len r") (auto simp: carries_def bus_write_def Let_def)
  show "length (s_bytes (bus_write st pos r s)) = unat sz - 24"
    using l z b by (auto simp: bus_write_def Let_def)
qed

lemma on_slot_Suc:
  assumes "i < c" "i \<noteq> n mod c"
  shows "on_slot c (Suc n) i p \<longleftrightarrow> on_slot c n i p"
proof -
  have "n \<noteq> p + c" if "p mod c = i" using that assms(2) by auto
  then show ?thesis using assms by (auto simp: on_slot_def less_Suc_eq le_less)
qed

lemma on_slot_new: "0 < c \<Longrightarrow> on_slot c (Suc n) (n mod c) p \<longleftrightarrow> p = n"
  using on_slot_unique [of c "Suc n" "n mod c" p n] by (auto simp: on_slot_def)

lemma shm_publish_ok:
  assumes ok: "shm_ok m rs" and st: "stream_of st m" and f: "fits (slot_size (hdr m)) r" and b: "Suc (length rs) < 2 ^ 63"
  shows "shm_ok (set_head (head (hdr m) + 1) (bus_publish_slot st (head (hdr m)) r m)) (rs @ [r])"
proof -
  note D = shm_okD [OF ok]
  let ?c = "unat (capacity (hdr m))" and ?n = "length rs"
  let ?i = "?n mod ?c" and ?h = "head (hdr m)"
  have i: "bus_slot_idx ?h (st_mask st) = ?i"
    using st bus_slot_idx_eq [OF D(1), of ?h] D(4) by (simp add: stream_of_def)
  have il: "?i < length (slots m)" using D(2,6) by simp
  have u: "unat (?h + 1) = Suc ?n" using b D(4) by (simp add: unat_add_no_wrap)
  let ?w = "bus_write st ?h r (slots m ! ?i)"
  have "length (s_bytes (slots m ! ?i)) = unat (slot_size (hdr m)) - 24"
    using ok il unfolding shm_ok_def by (metis nth_mem)
  note W = bus_write_carries [OF f this u, of st]
  have fl: "st_flags st = flags (hdr m)" using st by (simp add: stream_of_def)
  have sl: "length (s_bytes s) = unat (slot_size (hdr m)) - 24" if "s \<in> set ((slots m)[?i := ?w])" for s
    using that W(2) ok set_update_subset_insert [of "slots m" ?i ?w] unfolding shm_ok_def by auto
  have old: "carries (flags (hdr m)) ((slots m)[?i := ?w] ! j) p ((rs @ [r]) ! p)"
    if "j < ?c" "on_slot ?c (Suc ?n) j p" for j p
  proof (cases "j = ?i")
    case True
    then have "p = ?n" using that(2) on_slot_new D(6) by simp
    then show ?thesis using W(1) il True fl by simp
  next
    case False
    then have "on_slot ?c ?n j p" using on_slot_Suc that by simp
    then show ?thesis using D(9) [OF _ that(1)] False by (simp add: on_slot_def nth_append)
  qed
  have free: "unat (seq ((slots m)[?i := ?w] ! j)) = j" if "j < ?c" "Suc ?n \<le> j" for j
  proof -
    have "?i \<noteq> j" using that by (metis mod_less_eq_dividend not_less_eq_eq)
    then show ?thesis using D(10) that by simp
  qed
  show ?thesis unfolding shm_ok_def set_head_def bus_publish_slot_def i Let_def
    using D(1-3,7) D(8) u b f sl old free by auto
qed

lemma min_tail_stale:
  assumes "\<forall>t \<in> set ts. last_poll_ns t = 0 \<or> stale \<noteq> 0 \<and> stale < now - last_poll_ns t"
  shows "min_tail_loop now stale ts m = m"
  using assms by (induction ts arbitrary: m) auto

text \<open>With every consumer closed or stale the producer does not wait.\<close>

definition all_stale :: "u64 \<Rightarrow> OmBusStream \<Rightarrow> OmBusShm \<Rightarrow> bool" where
  "all_stale now st m \<longleftrightarrow> (\<forall>t \<in> set (tails m). last_poll_ns t = 0 \<or>
     st_staleness_ns st \<noteq> 0 \<and> st_staleness_ns st < now - last_poll_ns t)"

lemma pressure_loop_stale:
  assumes s: "all_stale now st m" and c: "0 < st_capacity st"
  shows "\<exists>v. pressure_loop now st (head (hdr m)) 0 m = Some (set_min_tail v m)"
proof -
  let ?h = "head (hdr m)" and ?c = "ucast (st_capacity st) :: u64"
  have c': "(0 :: u64) < ?c" using c unat_ucast_up [of "st_capacity st"] by (simp add: word_gt_0 word_unat_eq_iff)
  have l: "bus_min_tail_live now (tails m) (st_max_consumers st) (st_staleness_ns st) ?h = ?h"
  proof (cases "st_staleness_ns st = 0")
    case True
    then have "min_tail_loop 0 0 (take k (tails m)) UINT64_MAX = UINT64_MAX" for k
      using s by (intro min_tail_stale) (auto simp: all_stale_def dest: in_set_takeD)
    then show ?thesis by (simp add: bus_min_tail_live_def Let_def True)
  next
    case False
    then have "min_tail_loop now (st_staleness_ns st) (take k (tails m)) UINT64_MAX = UINT64_MAX" for k
      using s by (intro min_tail_stale) (auto simp: all_stale_def dest: in_set_takeD)
    then show ?thesis using False by (simp add: bus_min_tail_live_def Let_def)
  qed
  show ?thesis
  proof (cases "?h - min_tail (hdr m) < ?c")
    case True
    then have "pressure_loop now st ?h 0 m = Some m" by (subst pressure_loop.simps) (simp add: pressure_turn_def)
    moreover have "m = set_min_tail (min_tail (hdr m)) m" by (simp add: set_min_tail_def)
    ultimately show ?thesis by metis
  next
    case False
    then have "pressure_loop now st ?h 0 m = pressure_loop now st ?h 1 (set_min_tail ?h m)"
      by (subst pressure_loop.simps) (simp add: pressure_turn_def l)
    also have "\<dots> = Some (set_min_tail ?h m)"
      using c' by (subst pressure_loop.simps) (simp add: pressure_turn_def set_min_tail_def)
    finally show ?thesis by blast
  qed
qed

end
