(* ===== verification/Bus_Tcp.thy ===== *)
theory Bus_Tcp
  imports Bus_Shm "HOL-Library.Sublist"
begin

text \<open>
  The TCP transport of \<^verbatim>\<open>include/ombus/om_bus_tcp.h\<close> and \<^verbatim>\<open>src/om_bus_tcp.c\<close>: a server that copies records as
  frames into one send buffer per client, a client that cuts its receive buffer into frames again, and
  a client that reconnects.

  Sockets are outside the model: what \<^verbatim>\<open>poll\<close>, \<^verbatim>\<open>accept\<close>, \<^verbatim>\<open>send\<close>, \<^verbatim>\<open>recv\<close>, \<^verbatim>\<open>connect\<close>, the allocator and the
  clock return are arguments.  A buffer is the list of its bytes, the empty list when it is NULL.  The
  \<^verbatim>\<open>pollfds\<close> and \<^verbatim>\<open>pfd_to_slot\<close> arrays are rebuilt by every call of \<^verbatim>\<open>om_bus_tcp_server_poll_io\<close> and are local to it here.
\<close>

section \<open>Frames\<close>

definition OM_BUS_TCP_FRAME_MAGIC :: u32 where "OM_BUS_TCP_FRAME_MAGIC = 0x4F4D5446"
definition OM_BUS_TCP_FRAME_HEADER_SIZE :: u32 where "OM_BUS_TCP_FRAME_HEADER_SIZE = 16"
definition OM_BUS_TCP_WAL_TYPE_SLOW_WARNING :: u8 where "OM_BUS_TCP_WAL_TYPE_SLOW_WARNING = 0xFE"
definition OM_TCP_DEFAULT_MAX_CLIENTS :: u32 where "OM_TCP_DEFAULT_MAX_CLIENTS = 64"
definition OM_TCP_DEFAULT_SEND_BUF_SIZE :: u32 where "OM_TCP_DEFAULT_SEND_BUF_SIZE = 256 * 1024"
definition OM_TCP_DEFAULT_RECV_BUF_SIZE :: u32 where "OM_TCP_DEFAULT_RECV_BUF_SIZE = 256 * 1024"

lemmas tcp_consts = OM_BUS_TCP_FRAME_MAGIC_def OM_BUS_TCP_FRAME_HEADER_SIZE_def OM_BUS_TCP_WAL_TYPE_SLOW_WARNING_def
  OM_TCP_DEFAULT_MAX_CLIENTS_def OM_TCP_DEFAULT_SEND_BUF_SIZE_def OM_TCP_DEFAULT_RECV_BUF_SIZE_def

record OmBusTcpFrameHeader =
  fh_magic :: u32
  fh_wal_type :: u8
  fh_flags :: u8
  fh_payload_len :: u16
  fh_wal_seq :: u64

text \<open>The packed layout of the header, little endian, written and read by \<^verbatim>\<open>memcpy\<close>.\<close>

definition frame_header_bytes :: "OmBusTcpFrameHeader \<Rightarrow> u8 list" where
  "frame_header_bytes h =
     bytes_le 4 (unat (fh_magic h)) @ [fh_wal_type h, fh_flags h] @ bytes_le 2 (unat (fh_payload_len h)) @ bytes_le 8 (unat (fh_wal_seq h))"

definition frame_header_of :: "u8 list \<Rightarrow> OmBusTcpFrameHeader" where
  "frame_header_of bs =
     \<lparr>fh_magic = of_nat (nat_le (take 4 bs)), fh_wal_type = bs ! 4, fh_flags = bs ! 5,
      fh_payload_len = of_nat (nat_le (take 2 (drop 6 bs))), fh_wal_seq = of_nat (nat_le (take 8 (drop 8 bs)))\<rparr>"

text \<open>\<^verbatim>\<open>memcpy\<close> of bytes into a buffer at an offset.\<close>

definition buf_put :: "nat \<Rightarrow> u8 list \<Rightarrow> u8 list \<Rightarrow> u8 list" where
  "buf_put off bs buf = take off buf @ bs @ drop (off + length bs) buf"

section \<open>Server state\<close>

record OmBusTcpClientSlot =
  cs_fd :: int
  cs_send_buf :: "u8 list"
  cs_send_buf_size :: u32
  cs_send_used :: u32
  cs_send_offset :: u32
  cs_disconnect_pending :: bool

record OmBusTcpServer =
  ts_listen_fd :: int
  ts_clients :: "OmBusTcpClientSlot list"
  ts_max_clients :: u32
  ts_client_count :: u32
  ts_send_buf_size :: u32
  ts_port :: u16
  ts_records_broadcast :: u64
  ts_bytes_broadcast :: u64
  ts_clients_accepted :: u64
  ts_clients_disconnected :: u64
  ts_slow_client_drops :: u64

record OmBusTcpServerConfig =
  tc_port :: u16
  tc_max_clients :: u32
  tc_send_buf_size :: u32

record OmBusTcpServerStats =
  to_records_broadcast :: u64
  to_bytes_broadcast :: u64
  to_clients_accepted :: u64
  to_clients_disconnected :: u64
  to_slow_client_drops :: u64

text \<open>What the allocator and the socket calls of \<^verbatim>\<open>om_bus_tcp_server_create\<close> return.\<close>

record tcp_create_os =
  tk_calloc :: bool
  tk_calloc_clients :: bool
  tk_calloc_pollfds :: bool
  tk_calloc_map :: bool
  tk_socket :: int
  tk_bind :: bool
  tk_listen :: bool
  tk_bound_port :: u16
  tk_nonblocking :: bool

definition om_bus_tcp_server_create :: "tcp_create_os \<Rightarrow> OmBusTcpServerConfig \<Rightarrow> OmBusError + OmBusTcpServer" where
  "om_bus_tcp_server_create os cfg =
     (let max_clients = (if tc_max_clients cfg \<noteq> 0 then tc_max_clients cfg else OM_TCP_DEFAULT_MAX_CLIENTS);
          send_buf_sz = (if tc_send_buf_size cfg \<noteq> 0 then tc_send_buf_size cfg else OM_TCP_DEFAULT_SEND_BUF_SIZE)
      in if \<not> tk_calloc os \<or> \<not> tk_calloc_clients os \<or> \<not> tk_calloc_pollfds os \<or> \<not> tk_calloc_map os then Inl OM_ERR_BUS_INIT
         else if tk_socket os < 0 \<or> \<not> tk_bind os \<or> \<not> tk_listen os \<or> \<not> tk_nonblocking os then Inl OM_ERR_BUS_TCP_BIND
         else Inr \<lparr>ts_listen_fd = tk_socket os,
           ts_clients = replicate (unat max_clients) \<lparr>cs_fd = -1, cs_send_buf = [], cs_send_buf_size = 0, cs_send_used = 0,
             cs_send_offset = 0, cs_disconnect_pending = False\<rparr>,
           ts_max_clients = max_clients, ts_client_count = 0, ts_send_buf_size = send_buf_sz, ts_port = tk_bound_port os,
           ts_records_broadcast = 0, ts_bytes_broadcast = 0, ts_clients_accepted = 0, ts_clients_disconnected = 0,
           ts_slow_client_drops = 0\<rparr>)"

definition om_bus_tcp_server_port :: "OmBusTcpServer option \<Rightarrow> u16" where
  "om_bus_tcp_server_port srv = (case srv of None \<Rightarrow> 0 | Some s \<Rightarrow> ts_port s)"

definition om_bus_tcp_server_client_count :: "OmBusTcpServer option \<Rightarrow> u32" where
  "om_bus_tcp_server_client_count srv = (case srv of None \<Rightarrow> 0 | Some s \<Rightarrow> ts_client_count s)"

section \<open>Broadcast\<close>

definition slot_compact :: "OmBusTcpClientSlot \<Rightarrow> OmBusTcpClientSlot" where
  "slot_compact s =
     (let pending = cs_send_used s - cs_send_offset s
      in s\<lparr>cs_send_buf := (if 0 < cs_send_offset s \<and> 0 < pending
             then buf_put 0 (take (unat pending) (drop (unat (cs_send_offset s)) (cs_send_buf s))) (cs_send_buf s) else cs_send_buf s),
           cs_send_used := pending, cs_send_offset := 0\<rparr>)"

definition slot_put :: "u8 list \<Rightarrow> u32 \<Rightarrow> OmBusTcpClientSlot \<Rightarrow> OmBusTcpClientSlot" where
  "slot_put bs n s = s\<lparr>cs_send_buf := buf_put (unat (cs_send_used s)) bs (cs_send_buf s), cs_send_used := cs_send_used s + n\<rparr>"

definition warning_frame :: "OmBusTcpClientSlot \<Rightarrow> u8 list" where
  "warning_frame s =
     frame_header_bytes \<lparr>fh_magic = OM_BUS_TCP_FRAME_MAGIC, fh_wal_type = OM_BUS_TCP_WAL_TYPE_SLOW_WARNING, fh_flags = 0,
       fh_payload_len = 8, fh_wal_seq = 0\<rparr> @ bytes_le 4 (unat (cs_send_used s - cs_send_offset s)) @ bytes_le 4 (unat (cs_send_buf_size s))"

definition record_header :: "OmBusRecord \<Rightarrow> OmBusTcpFrameHeader" where
  "record_header r = \<lparr>fh_magic = OM_BUS_TCP_FRAME_MAGIC, fh_wal_type = r_wal_type r, fh_flags = 0,
     fh_payload_len = r_payload_len r, fh_wal_seq = r_wal_seq r\<rparr>"

text \<open>The flag says that the client was found too slow: its frame is dropped and it will be disconnected.\<close>

definition server_append_frame :: "OmBusRecord \<Rightarrow> OmBusTcpClientSlot \<Rightarrow> bool \<times> OmBusTcpClientSlot" where
  "server_append_frame r s =
     (let frame_size = OM_BUS_TCP_FRAME_HEADER_SIZE + ucast (r_payload_len r);
          s1 = (if cs_send_buf_size s < cs_send_used s + frame_size then slot_compact s else s)
      in if cs_send_buf_size s1 < cs_send_used s1 + frame_size
         then let warn_size = OM_BUS_TCP_FRAME_HEADER_SIZE + 8;
                  s2 = (if cs_send_used s1 + warn_size \<le> cs_send_buf_size s1 then slot_put (warning_frame s1) warn_size s1 else s1)
           in (True, s2\<lparr>cs_disconnect_pending := True\<rparr>)
         else let payload = (if 0 < r_payload_len r \<and> r_payload r \<noteq> PayloadNull
                    then take (unat (r_payload_len r)) (payload_bytes (r_payload r)) else [])
           in (False, slot_put (frame_header_bytes (record_header r) @ payload) frame_size s1))"

definition broadcast_slot :: "OmBusRecord \<Rightarrow> OmBusTcpClientSlot \<Rightarrow> bool \<times> OmBusTcpClientSlot" where
  "broadcast_slot r s = (if cs_fd s < 0 \<or> cs_disconnect_pending s then (False, s) else server_append_frame r s)"

definition om_bus_tcp_server_broadcast :: "OmBusRecord \<Rightarrow> OmBusTcpServer \<Rightarrow> OmBusTcpServer" where
  "om_bus_tcp_server_broadcast r srv =
     (let rs = map (broadcast_slot r) (ts_clients srv)
      in srv\<lparr>ts_clients := map snd rs, ts_slow_client_drops := ts_slow_client_drops srv + of_nat (length (filter fst rs)),
             ts_records_broadcast := ts_records_broadcast srv + 1, ts_bytes_broadcast := ts_bytes_broadcast srv + ucast (r_payload_len r)\<rparr>)"

fun append_batch :: "OmBusRecord list \<Rightarrow> OmBusTcpClientSlot \<Rightarrow> nat \<times> OmBusTcpClientSlot" where
  "append_batch [] s = (0, s)"
| "append_batch (r # rs) s =
     (if cs_disconnect_pending s then (0, s)
      else case server_append_frame r s of (slow, s') \<Rightarrow> case append_batch rs s' of (n, s'') \<Rightarrow> (if slow then Suc n else n, s''))"

definition om_bus_tcp_server_broadcast_batch :: "OmBusRecord list \<Rightarrow> OmBusTcpServer \<Rightarrow> OmBusTcpServer" where
  "om_bus_tcp_server_broadcast_batch recs srv =
     (if recs = [] then srv
      else let rs = map (\<lambda>s. if cs_fd s < 0 \<or> cs_disconnect_pending s then (0, s) else append_batch recs s) (ts_clients srv)
        in srv\<lparr>ts_clients := map snd rs, ts_slow_client_drops := ts_slow_client_drops srv + of_nat (sum_list (map fst rs)),
               ts_records_broadcast := ts_records_broadcast srv + of_nat (length recs),
               ts_bytes_broadcast := ts_bytes_broadcast srv + sum_list (map (\<lambda>r. ucast (r_payload_len r)) recs)\<rparr>)"

section \<open>Server input and output\<close>

text \<open>
  What the system reports for one client: hang-up or error, readable, end of file seen by the peek, writable,
  the result of \<^verbatim>\<open>send\<close>, and whether a failed \<^verbatim>\<open>send\<close> would only block.
\<close>

record tcp_client_io =
  ce_hup :: bool
  ce_in :: bool
  ce_fin :: bool
  ce_out :: bool
  ce_sent :: int
  ce_again :: bool

text \<open>The result of \<^verbatim>\<open>poll\<close>, the accepted descriptors with the buffer the allocator gives for each, and the events per slot.\<close>

record tcp_io =
  io_ret :: int
  io_eintr :: bool
  io_listen :: bool
  io_accepts :: "(int \<times> u8 list option) list"
  io_clients :: "nat \<Rightarrow> tcp_client_io"

definition client_flush :: "tcp_client_io \<Rightarrow> OmBusTcpClientSlot \<Rightarrow> OmBusTcpClientSlot" where
  "client_flush ev s =
     (if 0 < ce_sent ev
      then let off = cs_send_offset s + of_int (ce_sent ev)
        in if off = cs_send_used s then s\<lparr>cs_send_offset := 0, cs_send_used := 0\<rparr> else s\<lparr>cs_send_offset := off\<rparr>
      else if ce_sent ev < 0 \<and> \<not> ce_again ev then s\<lparr>cs_disconnect_pending := True\<rparr> else s)"

definition client_io :: "tcp_client_io \<Rightarrow> OmBusTcpClientSlot \<Rightarrow> OmBusTcpClientSlot" where
  "client_io ev s =
     (if cs_fd s < 0 then s
      else let s1 = (if ce_hup ev \<or> ce_in ev \<and> ce_fin ev then s\<lparr>cs_disconnect_pending := True\<rparr> else s)
        in if ce_out ev \<and> 0 < cs_send_used s1 - cs_send_offset s1 then client_flush ev s1 else s1)"

fun free_slot :: "OmBusTcpClientSlot list \<Rightarrow> nat option" where
  "free_slot [] = None"
| "free_slot (s # ss) = (if cs_fd s < 0 then Some 0 else map_option Suc (free_slot ss))"

fun accept_loop :: "(int \<times> u8 list option) list \<Rightarrow> OmBusTcpServer \<Rightarrow> OmBusTcpServer" where
  "accept_loop [] srv = srv"
| "accept_loop ((cfd, buf) # as) srv =
     (case free_slot (ts_clients srv) of None \<Rightarrow> accept_loop as srv
      | Some i \<Rightarrow>
        (case buf of
           None \<Rightarrow> accept_loop as (srv\<lparr>ts_clients := (ts_clients srv)[i := (ts_clients srv ! i)\<lparr>cs_fd := -1, cs_send_buf := []\<rparr>]\<rparr>)
         | Some b \<Rightarrow> accept_loop as (srv\<lparr>ts_clients := (ts_clients srv)[i := \<lparr>cs_fd = cfd, cs_send_buf = b, cs_send_buf_size = ts_send_buf_size srv,
               cs_send_used = 0, cs_send_offset = 0, cs_disconnect_pending = False\<rparr>],
             ts_client_count := ts_client_count srv + 1, ts_clients_accepted := ts_clients_accepted srv + 1\<rparr>)))"

definition close_slot :: "OmBusTcpClientSlot \<Rightarrow> OmBusTcpClientSlot" where
  "close_slot s = s\<lparr>cs_fd := (if 0 \<le> cs_fd s then -1 else cs_fd s), cs_send_buf := [], cs_send_used := 0, cs_send_offset := 0,
     cs_disconnect_pending := False\<rparr>"

definition close_pending :: "OmBusTcpServer \<Rightarrow> OmBusTcpServer" where
  "close_pending srv =
     (let n = length (filter cs_disconnect_pending (ts_clients srv))
      in srv\<lparr>ts_clients := map (\<lambda>s. if cs_disconnect_pending s then close_slot s else s) (ts_clients srv),
             ts_client_count := ts_client_count srv - of_nat n, ts_clients_disconnected := ts_clients_disconnected srv + of_nat n\<rparr>)"

definition upd_client :: "(nat \<Rightarrow> tcp_client_io) \<Rightarrow> nat \<Rightarrow> OmBusTcpServer \<Rightarrow> OmBusTcpServer" where
  "upd_client evs i srv = srv\<lparr>ts_clients := (ts_clients srv)[i := client_io (evs i) (ts_clients srv ! i)]\<rparr>"

definition om_bus_tcp_server_poll_io :: "tcp_io \<Rightarrow> OmBusTcpServer \<Rightarrow> OmBusError option \<times> OmBusTcpServer" where
  "om_bus_tcp_server_poll_io io srv =
     (if io_ret io < 0 then (if io_eintr io then None else Some OM_ERR_BUS_TCP_IO, srv)
      else let polled = filter (\<lambda>i. 0 \<le> cs_fd (ts_clients srv ! i)) [0..<length (ts_clients srv)];
               srv1 = (if io_ret io = 0 then srv
                 else fold (upd_client (io_clients io)) polled (if io_listen io then accept_loop (io_accepts io) srv else srv))
        in (None, close_pending srv1))"

definition om_bus_tcp_server_stats :: "OmBusTcpServer \<Rightarrow> OmBusTcpServerStats" where
  "om_bus_tcp_server_stats srv =
     \<lparr>to_records_broadcast = ts_records_broadcast srv, to_bytes_broadcast = ts_bytes_broadcast srv,
      to_clients_accepted = ts_clients_accepted srv, to_clients_disconnected = ts_clients_disconnected srv,
      to_slow_client_drops = ts_slow_client_drops srv\<rparr>"

text \<open>The descriptors that destroying a server closes, in order; the memory is then freed.\<close>

definition om_bus_tcp_server_destroy :: "OmBusTcpServer \<Rightarrow> int list" where
  "om_bus_tcp_server_destroy srv =
     filter (\<lambda>fd. 0 \<le> fd) (map cs_fd (ts_clients srv)) @ (if 0 \<le> ts_listen_fd srv then [ts_listen_fd srv] else [])"

section \<open>Client\<close>

record OmBusTcpClient =
  tl_fd :: int
  tl_recv_buf :: "u8 list"
  tl_recv_buf_size :: u32
  tl_recv_used :: u32
  tl_recv_offset :: u32
  tl_flags :: u32
  tl_expected_wal_seq :: u64
  tl_last_wal_seq :: u64

record OmBusTcpClientConfig =
  lc_host :: string
  lc_port :: u16
  lc_recv_buf_size :: u32
  lc_flags :: u32

text \<open>Whether the address parses and the calls succeed; the buffer is what \<^verbatim>\<open>malloc\<close> gives.\<close>

record tcp_connect_os =
  tn_socket :: int
  tn_inet_pton :: bool
  tn_connect :: bool
  tn_calloc :: bool
  tn_malloc :: "u8 list option"

definition om_bus_tcp_client_connect :: "tcp_connect_os \<Rightarrow> OmBusTcpClientConfig \<Rightarrow> OmBusError + OmBusTcpClient" where
  "om_bus_tcp_client_connect os cfg =
     (let recv_buf_sz = (if lc_recv_buf_size cfg \<noteq> 0 then lc_recv_buf_size cfg else OM_TCP_DEFAULT_RECV_BUF_SIZE)
      in if tn_socket os < 0 \<or> \<not> tn_inet_pton os \<or> \<not> tn_connect os then Inl OM_ERR_BUS_TCP_CONNECT
         else if \<not> tn_calloc os then Inl OM_ERR_BUS_INIT
         else case tn_malloc os of None \<Rightarrow> Inl OM_ERR_BUS_INIT
           | Some b \<Rightarrow> Inr \<lparr>tl_fd = tn_socket os, tl_recv_buf = b, tl_recv_buf_size = recv_buf_sz, tl_recv_used = 0, tl_recv_offset = 0,
               tl_flags = lc_flags cfg, tl_expected_wal_seq = 0, tl_last_wal_seq = 0\<rparr>)"

text \<open>The result of \<^verbatim>\<open>recv\<close>: bytes (none at end of file), nothing available, or a failure.\<close>

datatype recv_result = Recv "u8 list" | RecvAgain | RecvFail

definition client_compact :: "OmBusTcpClient \<Rightarrow> OmBusTcpClient" where
  "client_compact c =
     (if 0 < tl_recv_offset c \<and> (tl_recv_buf_size c div 2 < tl_recv_offset c \<or> tl_recv_used c = tl_recv_buf_size c)
      then let pending = tl_recv_used c - tl_recv_offset c
        in c\<lparr>tl_recv_buf := (if 0 < pending
               then buf_put 0 (take (unat pending) (drop (unat (tl_recv_offset c)) (tl_recv_buf c))) (tl_recv_buf c) else tl_recv_buf c),
             tl_recv_used := pending, tl_recv_offset := 0\<rparr>
      else c)"

text \<open>The flag is \<^verbatim>\<open>peer_closed\<close>.\<close>

definition client_recv :: "recv_result \<Rightarrow> OmBusTcpClient \<Rightarrow> bool \<times> OmBusTcpClient" where
  "client_recv r c =
     (if tl_recv_used c < tl_recv_buf_size c
      then case r of
          Recv bs \<Rightarrow> if bs = [] then (True, c)
            else (False, c\<lparr>tl_recv_buf := buf_put (unat (tl_recv_used c)) bs (tl_recv_buf c), tl_recv_used := tl_recv_used c + of_nat (length bs)\<rparr>)
        | RecvAgain \<Rightarrow> (False, c)
        | RecvFail \<Rightarrow> (True, c)
      else (False, c))"

definition client_gap :: "OmBusTcpClient \<Rightarrow> u64 \<Rightarrow> poll_rc" where
  "client_gap c ws =
     (if 0 < tl_expected_wal_seq c \<and> ws \<noteq> tl_expected_wal_seq c
      then if tl_expected_wal_seq c < ws then PollError OM_ERR_BUS_GAP_DETECTED
           else if tl_flags c AND OM_BUS_FLAG_REJECT_REORDER \<noteq> 0 then PollError OM_ERR_BUS_REORDER_DETECTED else PollRecord
      else PollRecord)"

definition client_parse :: "bool \<Rightarrow> OmBusTcpClient \<Rightarrow> poll_rc \<times> OmBusRecord option \<times> OmBusTcpClient" where
  "client_parse peer_closed c =
     (let avail = tl_recv_used c - tl_recv_offset c;
          incomplete = (if peer_closed then PollError OM_ERR_BUS_TCP_DISCONNECTED else PollEmpty, None, c)
      in if avail < OM_BUS_TCP_FRAME_HEADER_SIZE then incomplete
         else let frame_start = drop (unat (tl_recv_offset c)) (tl_recv_buf c);
                  h = frame_header_of (take (unat OM_BUS_TCP_FRAME_HEADER_SIZE) frame_start);
                  frame_size = OM_BUS_TCP_FRAME_HEADER_SIZE + ucast (fh_payload_len h)
           in if fh_magic h \<noteq> OM_BUS_TCP_FRAME_MAGIC then (PollError OM_ERR_BUS_TCP_PROTOCOL, None, c)
              else if avail < frame_size then incomplete
              else let r = \<lparr>r_wal_seq = fh_wal_seq h, r_wal_type = fh_wal_type h, r_payload_len = fh_payload_len h,
                         r_payload = PayloadBytes (take (unat (fh_payload_len h)) (drop (unat OM_BUS_TCP_FRAME_HEADER_SIZE) frame_start))\<rparr>;
                       c1 = c\<lparr>tl_recv_offset := tl_recv_offset c + frame_size\<rparr>
                in if fh_wal_type h = OM_BUS_TCP_WAL_TYPE_SLOW_WARNING then (PollError OM_ERR_BUS_TCP_SLOW_WARNING, Some r, c1)
                   else (client_gap c (fh_wal_seq h), Some r,
                         c1\<lparr>tl_expected_wal_seq := fh_wal_seq h + 1, tl_last_wal_seq := fh_wal_seq h\<rparr>))"

definition om_bus_tcp_client_poll :: "recv_result \<Rightarrow> OmBusTcpClient \<Rightarrow> poll_rc \<times> OmBusRecord option \<times> OmBusTcpClient" where
  "om_bus_tcp_client_poll r c =
     (if tl_fd c < 0 then (PollError OM_ERR_BUS_TCP_DISCONNECTED, None, c)
      else case client_recv r (client_compact c) of (peer_closed, c1) \<Rightarrow> client_parse peer_closed c1)"

definition om_bus_tcp_client_wal_seq :: "OmBusTcpClient option \<Rightarrow> u64" where
  "om_bus_tcp_client_wal_seq c = (case c of None \<Rightarrow> 0 | Some x \<Rightarrow> tl_last_wal_seq x)"

section \<open>The client that reconnects\<close>

record OmBusTcpAutoClientConfig =
  ac_base :: OmBusTcpClientConfig
  ac_max_retries :: u32
  ac_retry_base_ms :: u32
  ac_retry_max_ms :: u32

record OmBusTcpAutoClient =
  at_inner :: "OmBusTcpClient option"
  at_cfg :: OmBusTcpAutoClientConfig
  at_last_wal_seq :: u64
  at_retry_count :: u32
  at_current_backoff_ms :: u32
  at_next_retry_ms :: u64
  at_disconnected :: bool

definition om_bus_tcp_auto_client_create ::
  "bool \<Rightarrow> tcp_connect_os \<Rightarrow> OmBusTcpAutoClientConfig \<Rightarrow> OmBusError + OmBusTcpAutoClient" where
  "om_bus_tcp_auto_client_create calloc os cfg =
     (if \<not> calloc then Inl OM_ERR_BUS_INIT
      else let cfg' = cfg\<lparr>ac_retry_base_ms := (if ac_retry_base_ms cfg = 0 then 100 else ac_retry_base_ms cfg),
                 ac_retry_max_ms := (if ac_retry_max_ms cfg = 0 then 5000 else ac_retry_max_ms cfg)\<rparr>
        in case om_bus_tcp_client_connect os (ac_base cfg) of Inl e \<Rightarrow> Inl e
          | Inr c \<Rightarrow> Inr \<lparr>at_inner = Some c, at_cfg = cfg', at_last_wal_seq = 0, at_retry_count = 0, at_current_backoff_ms = 0,
              at_next_retry_ms = 0, at_disconnected = False\<rparr>)"

text \<open>The connected part of a poll; \<open>now\<close> is the clock read after a disconnection.\<close>

definition auto_poll_inner :: "u64 \<Rightarrow> recv_result \<Rightarrow> OmBusTcpAutoClient \<Rightarrow> poll_rc \<times> OmBusRecord option \<times> OmBusTcpAutoClient" where
  "auto_poll_inner now r a =
     (case at_inner a of None \<Rightarrow> (PollError OM_ERR_BUS_INIT, None, a)
      | Some c \<Rightarrow>
        (case om_bus_tcp_client_poll r c of (rc, rec, c') \<Rightarrow>
           let a1 = a\<lparr>at_inner := Some c'\<rparr>
           in if rc = PollRecord
              then (rc, rec, a1\<lparr>at_last_wal_seq := (case rec of Some x \<Rightarrow> r_wal_seq x | None \<Rightarrow> at_last_wal_seq a)\<rparr>)
              else if rc = PollError OM_ERR_BUS_TCP_DISCONNECTED
              then (PollEmpty, rec, a1\<lparr>at_inner := None, at_disconnected := True, at_current_backoff_ms := ac_retry_base_ms (at_cfg a),
                      at_next_retry_ms := now + ucast (ac_retry_base_ms (at_cfg a))\<rparr>)
              else (rc, rec, a1)))"

definition auto_backoff :: "u64 \<Rightarrow> OmBusTcpAutoClient \<Rightarrow> OmBusTcpAutoClient" where
  "auto_backoff now a =
     (let doubled = at_current_backoff_ms a * 2;
          b = (if ac_retry_max_ms (at_cfg a) < doubled then ac_retry_max_ms (at_cfg a) else doubled)
      in a\<lparr>at_retry_count := at_retry_count a + 1, at_current_backoff_ms := b, at_next_retry_ms := now + ucast b\<rparr>)"

text \<open>\<open>now\<close> and \<open>now'\<close> are the two clock readings, \<open>os\<close> the outcome of a connection attempt.\<close>

definition om_bus_tcp_auto_client_poll ::
  "u64 \<Rightarrow> u64 \<Rightarrow> tcp_connect_os \<Rightarrow> recv_result \<Rightarrow> OmBusTcpAutoClient \<Rightarrow> poll_rc \<times> OmBusRecord option \<times> OmBusTcpAutoClient" where
  "om_bus_tcp_auto_client_poll now now' os r a =
     (if at_disconnected a
      then if now < at_next_retry_ms a then (PollEmpty, None, a)
           else if 0 < ac_max_retries (at_cfg a) \<and> ac_max_retries (at_cfg a) \<le> at_retry_count a
           then (PollError OM_ERR_BUS_TCP_DISCONNECTED, None, a)
           else case om_bus_tcp_client_connect os (ac_base (at_cfg a)) of Inl e \<Rightarrow> (PollEmpty, None, auto_backoff now' a)
             | Inr c \<Rightarrow> auto_poll_inner now' r (a\<lparr>at_inner := Some c, at_disconnected := False, at_retry_count := 0,
                 at_current_backoff_ms := ac_retry_base_ms (at_cfg a)\<rparr>)
      else auto_poll_inner now' r a)"

definition om_bus_tcp_auto_client_wal_seq :: "OmBusTcpAutoClient \<Rightarrow> u64" where
  "om_bus_tcp_auto_client_wal_seq a =
     (case at_inner a of Some c \<Rightarrow> om_bus_tcp_client_wal_seq (Some c) | None \<Rightarrow> at_last_wal_seq a)"

end
