(* ===== verification/Bus_Tcp_Props.thy ===== *)
theory Bus_Tcp_Props
  imports Bus_Tcp
begin

text \<open>
  Properties of the TCP transport: frames survive any cutting of the byte stream by the network, the server's count
  of clients, batches against single broadcasts, and two defects of the clients.
\<close>

section \<open>Bytes in a buffer\<close>

definition window :: "u8 list \<Rightarrow> u32 \<Rightarrow> u32 \<Rightarrow> u8 list" where
  "window buf off used = take (unat used - unat off) (drop (unat off) buf)"

definition window_ok :: "u8 list \<Rightarrow> u32 \<Rightarrow> u32 \<Rightarrow> u32 \<Rightarrow> bool" where
  "window_ok buf sz off used \<longleftrightarrow> length buf = unat sz \<and> off \<le> used \<and> used \<le> sz"

lemma window_okD:
  assumes "window_ok buf sz off used"
  shows "length buf = unat sz" "unat off \<le> unat used" "unat used \<le> unat sz" "length (window buf off used) = unat used - unat off"
    "unat (used - off) = unat used - unat off"
  using assms by (auto simp: window_ok_def window_def word_le_nat_alt unat_sub_le)

text \<open>Appending at the end of the window, moving the window to the front, dropping from the front.\<close>

lemma window_put:
  assumes w: "window_ok buf sz off used" and n: "length bs = unat n" "unat used + unat n \<le> unat sz"
  shows "window_ok (buf_put (unat used) bs buf) sz off (used + n)" "window (buf_put (unat used) bs buf) off (used + n) = window buf off used @ bs"
    "unat (used + n) = unat used + unat n"
proof -
  note D = window_okD [OF w]
  show u: "unat (used + n) = unat used + unat n"
    using n(2) unsigned_less [of sz, where 'a = nat] by (intro unat_add_no_wrap) simp
  have "length (buf_put (unat used) bs buf) = unat sz" using D(1,3) n by (simp add: buf_put_def)
  then show "window_ok (buf_put (unat used) bs buf) sz off (used + n)" using D(2) u n(2) by (simp add: window_ok_def word_le_nat_alt)
  have "unat used + unat n - unat off - (unat used - unat off) = unat n" using D(2) by simp
  then show "window (buf_put (unat used) bs buf) off (used + n) = window buf off used @ bs"
    using D(1-3) n by (simp add: window_def buf_put_def u drop_take)
qed

lemma window_front:
  assumes w: "window_ok buf sz off used"
  defines "buf' \<equiv> (if 0 < used - off then buf_put 0 (take (unat (used - off)) (drop (unat off) buf)) buf else buf)"
  shows "window_ok buf' sz 0 (used - off)" "window buf' 0 (used - off) = window buf off used"
proof -
  note D = window_okD [OF w]
  have l: "length (take (unat (used - off)) (drop (unat off) buf)) = unat (used - off)" using D by simp
  have "length buf' = unat sz" using D l by (simp add: buf'_def buf_put_def)
  then show "window_ok buf' sz 0 (used - off)" using D by (simp add: window_ok_def word_le_nat_alt)
  show "window buf' 0 (used - off) = window buf off used"
  proof (cases "0 < used - off")
    case True
    then show ?thesis using l D(5) by (simp add: window_def buf'_def buf_put_def)
  next
    case False
    then have "unat used - unat off = 0" using D(5) by (simp add: word_gt_0)
    then show ?thesis using D(5) by (simp add: window_def)
  qed
qed

lemma window_drop:
  assumes w: "window_ok buf sz off used" and n: "unat n \<le> unat used - unat off"
  shows "window_ok buf sz (off + n) used" "window buf (off + n) used = drop (unat n) (window buf off used)" "unat (off + n) = unat off + unat n"
proof -
  note D = window_okD [OF w]
  show u: "unat (off + n) = unat off + unat n"
    using n D(2) unsigned_less [of used, where 'a = nat] by (intro unat_add_no_wrap) simp
  then show "window_ok buf sz (off + n) used" using D w n by (simp add: window_ok_def word_le_nat_alt)
  show "window buf (off + n) used = drop (unat n) (window buf off used)" unfolding window_def u drop_take by (simp add: add.commute)
qed

section \<open>Frames\<close>

definition frame :: "OmBusRecord \<Rightarrow> u8 list" where
  "frame r = frame_header_bytes (record_header r) @ payload_bytes (r_payload r)"

text \<open>A record as the bus carries it: its payload has the length it states, and its type is not the reserved one.\<close>

definition tcp_ok :: "OmBusRecord \<Rightarrow> bool" where
  "tcp_ok r \<longleftrightarrow> r_payload r = PayloadBytes (payload_bytes (r_payload r)) \<and> length (payload_bytes (r_payload r)) = unat (r_payload_len r) \<and>
     r_wal_type r \<noteq> OM_BUS_TCP_WAL_TYPE_SLOW_WARNING"

definition is_warning :: "u8 list \<Rightarrow> bool" where
  "is_warning w \<longleftrightarrow> (\<exists>s. w = warning_frame s)"

lemma length_header [simp]: "length (frame_header_bytes h) = 16"
  by (simp add: frame_header_bytes_def)

lemma length_frame: "tcp_ok r \<Longrightarrow> length (frame r) = 16 + unat (r_payload_len r)"
  by (simp add: frame_def tcp_ok_def)

lemma frame_header_roundtrip [simp]: "frame_header_of (frame_header_bytes h) = h"
proof -
  have "unat (fh_magic h) < 256 ^ 4" "unat (fh_payload_len h) < 256 ^ 2" "unat (fh_wal_seq h) < 256 ^ 8"
    using unsigned_less [of "fh_magic h", where 'a = nat] unsigned_less [of "fh_payload_len h", where 'a = nat]
      unsigned_less [of "fh_wal_seq h", where 'a = nat] by simp_all
  then show ?thesis
    by (simp add: frame_header_of_def frame_header_bytes_def nth_append del: bytes_le.simps)
qed

section \<open>The server side of a connection\<close>

definition slot_pending :: "OmBusTcpClientSlot \<Rightarrow> u8 list" where
  "slot_pending s = window (cs_send_buf s) (cs_send_offset s) (cs_send_used s)"

text \<open>The bound on the buffer keeps the 32-bit sums of the overflow test from wrapping.\<close>

definition slot_ok :: "OmBusTcpClientSlot \<Rightarrow> bool" where
  "slot_ok s \<longleftrightarrow> window_ok (cs_send_buf s) (cs_send_buf_size s) (cs_send_offset s) (cs_send_used s) \<and> unat (cs_send_buf_size s) \<le> 2 ^ 31"

lemma slot_pending_length: "slot_ok s \<Longrightarrow> unat (cs_send_used s - cs_send_offset s) = length (slot_pending s)"
  using window_okD(4,5) [of "cs_send_buf s" "cs_send_buf_size s" "cs_send_offset s" "cs_send_used s"] by (simp add: slot_ok_def slot_pending_def)

lemma slot_compact_ok:
  assumes "slot_ok s"
  shows "slot_ok (slot_compact s)" "slot_pending (slot_compact s) = slot_pending s" "cs_send_buf_size (slot_compact s) = cs_send_buf_size s"
    "cs_disconnect_pending (slot_compact s) = cs_disconnect_pending s" "cs_fd (slot_compact s) = cs_fd s"
proof -
  have w: "window_ok (cs_send_buf s) (cs_send_buf_size s) (cs_send_offset s) (cs_send_used s)" using assms by (simp add: slot_ok_def)
  show "cs_send_buf_size (slot_compact s) = cs_send_buf_size s"
    "cs_disconnect_pending (slot_compact s) = cs_disconnect_pending s" "cs_fd (slot_compact s) = cs_fd s"
    by (simp_all add: slot_compact_def Let_def)
  have "slot_ok (slot_compact s) \<and> slot_pending (slot_compact s) = slot_pending s"
  proof (cases "0 < cs_send_offset s")
    case True
    then show ?thesis using window_front [OF w] assms by (simp add: slot_compact_def Let_def slot_ok_def slot_pending_def)
  next
    case False
    then have "cs_send_offset s = 0" by (simp add: word_gt_0)
    then show ?thesis using assms by (simp add: slot_compact_def Let_def slot_ok_def slot_pending_def)
  qed
  then show "slot_ok (slot_compact s)" "slot_pending (slot_compact s) = slot_pending s" by simp_all
qed

lemma slot_put_ok:
  assumes "slot_ok s" "length bs = unat n" "unat (cs_send_used s) + unat n \<le> unat (cs_send_buf_size s)"
  shows "slot_ok (slot_put bs n s)" "slot_pending (slot_put bs n s) = slot_pending s @ bs" "cs_send_buf_size (slot_put bs n s) = cs_send_buf_size s"
    "cs_disconnect_pending (slot_put bs n s) = cs_disconnect_pending s" "cs_fd (slot_put bs n s) = cs_fd s"
  using window_put [of "cs_send_buf s" "cs_send_buf_size s" "cs_send_offset s" "cs_send_used s" bs n] assms
  by (simp_all add: slot_put_def slot_ok_def slot_pending_def)

lemma slot_sum:
  assumes "slot_ok s" "unat n \<le> 65551"
  shows "unat (cs_send_used s + n) = unat (cs_send_used s) + unat n"
  using assms window_okD(3) [of "cs_send_buf s" "cs_send_buf_size s" "cs_send_offset s" "cs_send_used s"]
  by (intro unat_add_no_wrap) (simp add: slot_ok_def)

lemma append_frame_ok:
  assumes ok: "slot_ok s" and r: "tcp_ok r" and a: "server_append_frame r s = (slow, s')"
  shows "slot_ok s'" "cs_fd s' = cs_fd s" "\<not> slow \<Longrightarrow> slot_pending s' = slot_pending s @ frame r \<and> cs_disconnect_pending s' = cs_disconnect_pending s"
    "slow \<Longrightarrow> cs_disconnect_pending s' \<and> (slot_pending s' = slot_pending s \<or> (\<exists>w. is_warning w \<and> slot_pending s' = slot_pending s @ w))"
proof -
  let ?n = "OM_BUS_TCP_FRAME_HEADER_SIZE + ucast (r_payload_len r) :: u32"
  have pl: "unat (ucast (r_payload_len r) :: u32) = unat (r_payload_len r)" "unat (r_payload_len r) < 65536"
    using unsigned_less [of "r_payload_len r", where 'a = nat] by (simp_all add: unsigned_ucast_eq take_bit_nat_eq_self)
  have n: "unat ?n = 16 + unat (r_payload_len r)" using pl by (subst unat_add_no_wrap) (simp_all add: tcp_consts)
  define s1 where "s1 = (if cs_send_buf_size s < cs_send_used s + ?n then slot_compact s else s)"
  have s1: "slot_ok s1" "slot_pending s1 = slot_pending s" "cs_send_buf_size s1 = cs_send_buf_size s"
    "cs_disconnect_pending s1 = cs_disconnect_pending s" "cs_fd s1 = cs_fd s"
    using slot_compact_ok [OF ok] ok by (simp_all add: s1_def)
  have A: "server_append_frame r s = (if cs_send_buf_size s1 < cs_send_used s1 + ?n
      then (True, (if cs_send_used s1 + (OM_BUS_TCP_FRAME_HEADER_SIZE + 8) \<le> cs_send_buf_size s1
        then slot_put (warning_frame s1) (OM_BUS_TCP_FRAME_HEADER_SIZE + 8) s1 else s1)\<lparr>cs_disconnect_pending := True\<rparr>)
      else (False, slot_put (frame_header_bytes (record_header r) @ (if 0 < r_payload_len r \<and> r_payload r \<noteq> PayloadNull
        then take (unat (r_payload_len r)) (payload_bytes (r_payload r)) else [])) ?n s1))"
    by (simp only: server_append_frame_def Let_def s1_def)
  have u: "unat (cs_send_used s1 + ?n) = unat (cs_send_used s1) + unat ?n" using slot_sum [OF s1(1)] n pl(2) by simp
  have "slot_ok s' \<and> cs_fd s' = cs_fd s \<and> (if slow then cs_disconnect_pending s' \<and> (slot_pending s' = slot_pending s \<or> (\<exists>w. is_warning w \<and> slot_pending s' = slot_pending s @ w))
      else slot_pending s' = slot_pending s @ frame r \<and> cs_disconnect_pending s' = cs_disconnect_pending s)"
  proof (cases "cs_send_buf_size s1 < cs_send_used s1 + ?n")
    case True
    define s2 where "s2 = (if cs_send_used s1 + (OM_BUS_TCP_FRAME_HEADER_SIZE + 8) \<le> cs_send_buf_size s1
      then slot_put (warning_frame s1) (OM_BUS_TCP_FRAME_HEADER_SIZE + 8) s1 else s1)"
    have e: "slow" "s' = s2\<lparr>cs_disconnect_pending := True\<rparr>"
      using a True by (simp_all add: A s2_def)
    have w: "length (warning_frame s1) = 24" "unat (OM_BUS_TCP_FRAME_HEADER_SIZE + 8) = 24" by (simp_all add: warning_frame_def tcp_consts)
    have "unat (cs_send_used s1 + (OM_BUS_TCP_FRAME_HEADER_SIZE + 8)) = unat (cs_send_used s1) + 24" using slot_sum [OF s1(1), of "OM_BUS_TCP_FRAME_HEADER_SIZE + 8"] w(2) by simp
    then have "slot_ok s2 \<and> cs_fd s2 = cs_fd s \<and> (slot_pending s2 = slot_pending s \<or> slot_pending s2 = slot_pending s @ warning_frame s1)"
      using slot_put_ok [OF s1(1), of "warning_frame s1" "OM_BUS_TCP_FRAME_HEADER_SIZE + 8"] s1 w by (simp add: s2_def word_le_nat_alt)
    then show ?thesis using e by (auto simp: slot_ok_def slot_pending_def is_warning_def)
  next
    case False
    have "(if 0 < r_payload_len r \<and> r_payload r \<noteq> PayloadNull then take (unat (r_payload_len r)) (payload_bytes (r_payload r)) else []) = payload_bytes (r_payload r)"
      using r by (cases "r_payload r") (auto simp: tcp_ok_def word_gt_0)
    then have e: "\<not> slow" "s' = slot_put (frame r) ?n s1"
      using a False by (simp_all add: A frame_def)
    have "unat (cs_send_used s1) + unat ?n \<le> unat (cs_send_buf_size s1)" using False u by (simp add: word_less_nat_alt)
    then show ?thesis using slot_put_ok [OF s1(1), of "frame r" ?n] s1 e n length_frame [OF r] by simp
  qed
  then show "slot_ok s'" "cs_fd s' = cs_fd s" "\<not> slow \<Longrightarrow> slot_pending s' = slot_pending s @ frame r \<and> cs_disconnect_pending s' = cs_disconnect_pending s"
    "slow \<Longrightarrow> cs_disconnect_pending s' \<and> (slot_pending s' = slot_pending s \<or> (\<exists>w. is_warning w \<and> slot_pending s' = slot_pending s @ w))"
    by (auto split: if_splits)
qed

lemma flush_ok:
  assumes ok: "slot_ok s" and n: "0 < n" "n \<le> length (slot_pending s)" and ev: "ce_sent ev = int n"
  shows "slot_ok (client_flush ev s)" "slot_pending (client_flush ev s) = drop n (slot_pending s)"
    "cs_disconnect_pending (client_flush ev s) = cs_disconnect_pending s"
proof -
  have w: "window_ok (cs_send_buf s) (cs_send_buf_size s) (cs_send_offset s) (cs_send_used s)" using ok by (simp add: slot_ok_def)
  note D = window_okD [OF w]
  let ?n = "of_int (ce_sent ev) :: u32"
  have "n < 2 ^ 32" using n(2) D(3,4) unsigned_less [of "cs_send_buf_size s", where 'a = nat] by (simp add: slot_pending_def)
  then have u: "unat ?n = n" by (simp add: ev unat_of_nat)
  note W = window_drop [OF w, of ?n]
  have le: "unat ?n \<le> unat (cs_send_used s) - unat (cs_send_offset s)" using n(2) D(4) by (simp add: u slot_pending_def)
  show "cs_disconnect_pending (client_flush ev s) = cs_disconnect_pending s" using n(1) ev by (simp add: client_flush_def Let_def)
  have "slot_ok (client_flush ev s) \<and> slot_pending (client_flush ev s) = drop n (slot_pending s)"
  proof (cases "cs_send_offset s + ?n = cs_send_used s")
    case True
    then have "drop n (slot_pending s) = []" using W(3) [OF le] D(4) u by (simp add: slot_pending_def)
    then show ?thesis using True ok n(1) ev by (simp add: client_flush_def Let_def slot_ok_def slot_pending_def window_def window_ok_def)
  next
    case False
    then show ?thesis using W(1,2) [OF le] ok n(1) ev u by (simp add: client_flush_def Let_def slot_ok_def slot_pending_def)
  qed
  then show "slot_ok (client_flush ev s)" "slot_pending (client_flush ev s) = drop n (slot_pending s)" by simp_all
qed

section \<open>The client side of a connection\<close>

definition client_pending :: "OmBusTcpClient \<Rightarrow> u8 list" where
  "client_pending c = window (tl_recv_buf c) (tl_recv_offset c) (tl_recv_used c)"

definition client_ok :: "OmBusTcpClient \<Rightarrow> bool" where
  "client_ok c \<longleftrightarrow> window_ok (tl_recv_buf c) (tl_recv_buf_size c) (tl_recv_offset c) (tl_recv_used c)"

lemma client_compact_ok:
  assumes "client_ok c"
  shows "client_ok (client_compact c)" "client_pending (client_compact c) = client_pending c" "tl_recv_buf_size (client_compact c) = tl_recv_buf_size c"
  using window_front [OF assms [unfolded client_ok_def]] assms
  by (simp_all add: client_compact_def Let_def client_ok_def client_pending_def)

text \<open>The room that \<^verbatim>\<open>recv\<close> is given.\<close>

definition recv_room :: "OmBusTcpClient \<Rightarrow> nat" where
  "recv_room c = unat (tl_recv_buf_size c) - unat (tl_recv_used (client_compact c))"

lemma client_recv_ok:
  assumes ok: "client_ok c" and r: "case r of Recv bs \<Rightarrow> unat (tl_recv_used c) + length bs \<le> unat (tl_recv_buf_size c) | _ \<Rightarrow> True"
  shows "client_ok (snd (client_recv r c))" "client_pending (snd (client_recv r c)) = client_pending c @ (case r of Recv bs \<Rightarrow> bs | _ \<Rightarrow> [])"
proof -
  have "client_ok (snd (client_recv r c)) \<and> client_pending (snd (client_recv r c)) = client_pending c @ (case r of Recv bs \<Rightarrow> bs | _ \<Rightarrow> [])"
  proof (cases r)
    case (Recv bs)
    show ?thesis
    proof (cases "bs = []")
      case True
      then show ?thesis using ok Recv by (simp add: client_recv_def)
    next
      case False
      have l: "unat (tl_recv_used c) + length bs \<le> unat (tl_recv_buf_size c)" using r Recv by simp
      moreover have "0 < length bs" using False by simp
      ultimately have "tl_recv_used c < tl_recv_buf_size c" unfolding word_less_nat_alt by linarith
      moreover have "unat (of_nat (length bs) :: u32) = length bs"
        using l unsigned_less [of "tl_recv_buf_size c", where 'a = nat] by (simp add: unat_of_nat)
      ultimately show ?thesis using window_put [of "tl_recv_buf c" _ _ _ bs "of_nat (length bs)"] ok l False Recv
        by (simp add: client_recv_def client_ok_def client_pending_def)
    qed
  qed (use ok in \<open>simp_all add: client_recv_def\<close>)
  then show "client_ok (snd (client_recv r c))" "client_pending (snd (client_recv r c)) = client_pending c @ (case r of Recv bs \<Rightarrow> bs | _ \<Rightarrow> [])"
    by simp_all
qed

lemma client_parse_frame:
  assumes ok: "client_ok c" and s: "client_pending c @ Y = frame_header_bytes h @ p @ X"
    and h: "fh_magic h = OM_BUS_TCP_FRAME_MAGIC" "length p = unat (fh_payload_len h)"
  defines "c1 \<equiv> c\<lparr>tl_recv_offset := tl_recv_offset c + (OM_BUS_TCP_FRAME_HEADER_SIZE + ucast (fh_payload_len h))\<rparr>"
    and "r \<equiv> \<lparr>r_wal_seq = fh_wal_seq h, r_wal_type = fh_wal_type h, r_payload_len = fh_payload_len h, r_payload = PayloadBytes p\<rparr>"
  shows "length (client_pending c) < 16 + length p \<Longrightarrow>
      client_parse closed c = (if closed then PollError OM_ERR_BUS_TCP_DISCONNECTED else PollEmpty, None, c)"
    "16 + length p \<le> length (client_pending c) \<Longrightarrow> client_parse closed c =
       (if fh_wal_type h = OM_BUS_TCP_WAL_TYPE_SLOW_WARNING then (PollError OM_ERR_BUS_TCP_SLOW_WARNING, Some r, c1)
        else (client_gap c (fh_wal_seq h), Some r, c1\<lparr>tl_expected_wal_seq := fh_wal_seq h + 1, tl_last_wal_seq := fh_wal_seq h\<rparr>))"
    "16 + length p \<le> length (client_pending c) \<Longrightarrow> client_ok c1 \<and> client_pending c1 = drop (16 + length p) (client_pending c)"
proof -
  have w: "window_ok (tl_recv_buf c) (tl_recv_buf_size c) (tl_recv_offset c) (tl_recv_used c)" using ok by (simp add: client_ok_def)
  note D = window_okD [OF w]
  let ?P = "client_pending c" and ?fs = "OM_BUS_TCP_FRAME_HEADER_SIZE + ucast (fh_payload_len h) :: u32"
    and ?start = "drop (unat (tl_recv_offset c)) (tl_recv_buf c)"
  have av: "unat (tl_recv_used c - tl_recv_offset c) = length ?P" using D(4,5) by (simp add: client_pending_def)
  have pl: "unat (ucast (fh_payload_len h) :: u32) = unat (fh_payload_len h)" "unat (fh_payload_len h) < 65536"
    using unsigned_less [of "fh_payload_len h", where 'a = nat] by (simp_all add: unsigned_ucast_eq take_bit_nat_eq_self)
  have fs: "unat ?fs = 16 + length p" using pl h(2) by (subst unat_add_no_wrap) (simp_all add: tcp_consts)
  have hs: "unat OM_BUS_TCP_FRAME_HEADER_SIZE = 16" by (simp add: tcp_consts)
  have P: "take n ?start = take n ?P" if "n \<le> length ?P" for n
    using that D(4) by (simp add: client_pending_def window_def min_absorb1)
  have hd: "frame_header_of (take 16 ?start) = h" if "16 \<le> length ?P"
  proof -
    have "take 16 ?P = take 16 (?P @ Y)" using that by simp
    also have "\<dots> = frame_header_bytes h" unfolding s by simp
    finally show ?thesis using P [OF that] by simp
  qed
  have py: "take (length p) (drop 16 ?start) = p" if "16 + length p \<le> length ?P"
  proof -
    have "take (length p) (drop 16 ?start) = drop 16 (take (16 + length p) ?start)" by (simp add: drop_take)
    also have "\<dots> = drop 16 (take (16 + length p) (?P @ Y))" using P [OF that] that by simp
    also have "\<dots> = p" unfolding s by simp
    finally show ?thesis .
  qed
  show "client_parse closed c = (if closed then PollError OM_ERR_BUS_TCP_DISCONNECTED else PollEmpty, None, c)" if "length ?P < 16 + length p"
    using that hd h(1) av fs hs by (cases "length ?P < 16") (simp_all add: client_parse_def Let_def word_less_nat_alt)
  assume le: "16 + length p \<le> length ?P"
  show "client_parse closed c =
       (if fh_wal_type h = OM_BUS_TCP_WAL_TYPE_SLOW_WARNING then (PollError OM_ERR_BUS_TCP_SLOW_WARNING, Some r, c1)
        else (client_gap c (fh_wal_seq h), Some r, c1\<lparr>tl_expected_wal_seq := fh_wal_seq h + 1, tl_last_wal_seq := fh_wal_seq h\<rparr>))"
    using le hd h av fs hs py by (simp add: client_parse_def Let_def word_less_nat_alt c1_def r_def)
  show "client_ok c1 \<and> client_pending c1 = drop (16 + length p) ?P"
    using window_drop [OF w, of ?fs] le D(4) fs by (simp add: c1_def client_ok_def client_pending_def)
qed

section \<open>One connection\<close>

text \<open>
  A server slot, the bytes in flight, and the client at the other end, with the records sent (not dropped) and received so far.
  The steps are those of the two programs in any order: the server appends a frame, \<^verbatim>\<open>send\<close> takes some of the pending
  bytes, and the client polls while \<^verbatim>\<open>recv\<close> returns some of the bytes in flight, nothing, or an error.
\<close>

record link =
  lk_slot :: OmBusTcpClientSlot
  lk_wire :: "u8 list"
  lk_client :: OmBusTcpClient
  lk_sent :: "OmBusRecord list"
  lk_got :: "OmBusRecord list"

definition delivered :: "poll_rc \<Rightarrow> OmBusRecord option \<Rightarrow> OmBusRecord list" where
  "delivered rc r = (if rc = PollError OM_ERR_BUS_TCP_SLOW_WARNING then [] else case r of Some x \<Rightarrow> [x] | None \<Rightarrow> [])"

inductive tcp_step :: "link \<Rightarrow> link \<Rightarrow> bool" where
  tcp_append: "\<not> cs_disconnect_pending (lk_slot l) \<Longrightarrow> tcp_ok r \<Longrightarrow> server_append_frame r (lk_slot l) = (slow, s') \<Longrightarrow>
    tcp_step l (l\<lparr>lk_slot := s', lk_sent := lk_sent l @ (if slow then [] else [r])\<rparr>)"
| tcp_flush: "0 \<le> cs_fd (lk_slot l) \<Longrightarrow> ce_out ev \<Longrightarrow> ce_sent ev = int n \<Longrightarrow> 0 < n \<Longrightarrow> n \<le> length (slot_pending (lk_slot l)) \<Longrightarrow>
    tcp_step l (l\<lparr>lk_slot := client_io ev (lk_slot l), lk_wire := lk_wire l @ take n (slot_pending (lk_slot l))\<rparr>)"
| tcp_poll: "lk_wire l = (case r of Recv bs \<Rightarrow> bs | _ \<Rightarrow> []) @ w' \<Longrightarrow> (case r of Recv bs \<Rightarrow> length bs \<le> recv_room (lk_client l) | _ \<Rightarrow> True) \<Longrightarrow>
    om_bus_tcp_client_poll r (lk_client l) = (rc, rec, c') \<Longrightarrow>
    tcp_step l (l\<lparr>lk_wire := w', lk_client := c', lk_got := lk_got l @ delivered rc rec\<rparr>)"

inductive tcp_reach :: "link \<Rightarrow> bool" where
  tcp_start: "om_bus_tcp_client_connect os cfg = Inr c \<Longrightarrow> length (tl_recv_buf c) = unat (tl_recv_buf_size c) \<Longrightarrow>
    s = \<lparr>cs_fd = fd, cs_send_buf = b, cs_send_buf_size = sz, cs_send_used = 0, cs_send_offset = 0, cs_disconnect_pending = False\<rparr> \<Longrightarrow>
    length b = unat sz \<Longrightarrow> unat sz \<le> 2 ^ 31 \<Longrightarrow>
    tcp_reach \<lparr>lk_slot = s, lk_wire = [], lk_client = c, lk_sent = [], lk_got = []\<rparr>"
| tcp_more: "tcp_reach l \<Longrightarrow> tcp_step l l' \<Longrightarrow> tcp_reach l'"

definition in_flight :: "link \<Rightarrow> u8 list" where
  "in_flight l = client_pending (lk_client l) @ lk_wire l @ slot_pending (lk_slot l)"

definition link_inv :: "link \<Rightarrow> OmBusRecord list \<Rightarrow> u8 list \<Rightarrow> bool" where
  "link_inv l rest warn \<longleftrightarrow> slot_ok (lk_slot l) \<and> client_ok (lk_client l) \<and> 0 \<le> tl_fd (lk_client l) \<and> lk_sent l = lk_got l @ rest \<and>
     (\<forall>r \<in> set rest. tcp_ok r) \<and> in_flight l = concat (map frame rest) @ warn \<and>
     (warn = [] \<or> is_warning warn \<and> cs_disconnect_pending (lk_slot l))"

lemma client_parse_short:
  assumes "client_ok c" "length (client_pending c) < 16"
  shows "client_parse closed c = (if closed then PollError OM_ERR_BUS_TCP_DISCONNECTED else PollEmpty, None, c)"
proof -
  have "unat (tl_recv_used c - tl_recv_offset c) < 16" using assms window_okD(4,5) by (simp add: client_ok_def client_pending_def)
  then show ?thesis by (simp add: client_parse_def Let_def word_less_nat_alt tcp_consts)
qed

text \<open>The result of parsing: nothing yet, the next record, or the warning at the end.\<close>

lemma client_parse_next:
  assumes ok: "client_ok c" and s: "client_pending c @ Y = concat (map frame rest) @ warn"
    and rest: "\<forall>r \<in> set rest. tcp_ok r" and warn: "warn = [] \<or> is_warning warn"
    and parse: "client_parse closed c = (rc, rec, c')"
  shows "client_ok c'" "tl_fd c' = tl_fd c"
    "\<exists>rest' warn'. rest = delivered rc rec @ rest' \<and> client_pending c' @ Y = concat (map frame rest') @ warn' \<and> (warn' = [] \<or> warn' = warn)"
proof -
  have "client_ok c' \<and> tl_fd c' = tl_fd c \<and>
    (\<exists>rest' warn'. rest = delivered rc rec @ rest' \<and> client_pending c' @ Y = concat (map frame rest') @ warn' \<and> (warn' = [] \<or> warn' = warn))"
  proof (cases rest)
    case (Cons r rs)
    then have r: "tcp_ok r" using rest by simp
    let ?h = "record_header r" and ?p = "payload_bytes (r_payload r)"
    have s': "client_pending c @ Y = frame_header_bytes ?h @ ?p @ concat (map frame rs) @ warn" using s Cons by (simp add: frame_def)
    have h: "fh_magic ?h = OM_BUS_TCP_FRAME_MAGIC" "length ?p = unat (fh_payload_len ?h)" using r by (simp_all add: record_header_def tcp_ok_def)
    note P = client_parse_frame [OF ok s' h]
    have rr: "\<lparr>r_wal_seq = fh_wal_seq ?h, r_wal_type = fh_wal_type ?h, r_payload_len = fh_payload_len ?h, r_payload = PayloadBytes ?p\<rparr> = r"
      "fh_wal_type ?h \<noteq> OM_BUS_TCP_WAL_TYPE_SLOW_WARNING" using r by (simp_all add: record_header_def tcp_ok_def)
    show ?thesis
    proof (cases "length (client_pending c) < 16 + length ?p")
      case True
      then show ?thesis using P(1) [OF True, of closed] parse ok s by (auto simp: delivered_def)
    next
      case False
      then have le: "16 + length ?p \<le> length (client_pending c)" by simp
      have "drop (16 + length ?p) (client_pending c @ Y) = concat (map frame rs) @ warn" unfolding s' by simp
      moreover have "client_gap c (fh_wal_seq ?h) \<noteq> PollError OM_ERR_BUS_TCP_SLOW_WARNING" by (simp add: client_gap_def)
      ultimately show ?thesis using P(2) [OF le, of closed] P(3) [OF le] parse Cons rr le
        by (auto simp: delivered_def client_ok_def client_pending_def)
    qed
  next
    case Nil
    show ?thesis
    proof (cases "warn = []")
      case True
      then show ?thesis using s Nil client_parse_short [OF ok, of closed] parse ok by (auto simp: delivered_def)
    next
      case False
      then obtain w where w: "warn = warning_frame w" using warn by (auto simp: is_warning_def)
      let ?h = "\<lparr>fh_magic = OM_BUS_TCP_FRAME_MAGIC, fh_wal_type = OM_BUS_TCP_WAL_TYPE_SLOW_WARNING, fh_flags = 0, fh_payload_len = 8, fh_wal_seq = 0\<rparr>"
        and ?p = "bytes_le 4 (unat (cs_send_used w - cs_send_offset w)) @ bytes_le 4 (unat (cs_send_buf_size w))"
      have s': "client_pending c @ Y = frame_header_bytes ?h @ ?p @ []" using s Nil w by (simp add: warning_frame_def)
      have h: "fh_magic ?h = OM_BUS_TCP_FRAME_MAGIC" "length ?p = unat (fh_payload_len ?h)" by simp_all
      note P = client_parse_frame [OF ok s' h]
      show ?thesis
      proof (cases "length (client_pending c) < 16 + length ?p")
        case True
        then show ?thesis using P(1) [OF True, of closed] parse ok s by (auto simp: delivered_def)
      next
        case False
        then have le: "16 + length ?p \<le> length (client_pending c)" by simp
        have "length (client_pending c @ Y) = 16 + length ?p" unfolding s' by simp
        then have "length Y = 0" "length (client_pending c) = 16 + length ?p" using le unfolding length_append by linarith+
        then have "Y = []" "length (client_pending c) = 16 + length ?p" by simp_all
        then show ?thesis using P(2) [OF le, of closed] P(3) [OF le] parse Nil by (auto simp: delivered_def)
      qed
    qed
  qed
  then show "client_ok c'" "tl_fd c' = tl_fd c"
    "\<exists>rest' warn'. rest = delivered rc rec @ rest' \<and> client_pending c' @ Y = concat (map frame rest') @ warn' \<and> (warn' = [] \<or> warn' = warn)"
    by blast+
qed

lemma tcp_step_inv:
  assumes "tcp_step l l'" "link_inv l rest warn"
  shows "\<exists>rest' warn'. link_inv l' rest' warn'"
  using assms
proof (induction arbitrary: rest warn rule: tcp_step.induct)
  case (tcp_append l r slow s')
  have ok: "slot_ok (lk_slot l)" and w: "warn = []" using tcp_append.prems tcp_append.hyps(1) by (auto simp: link_inv_def)
  note A = append_frame_ok [OF ok tcp_append.hyps(2,3)]
  show ?case
  proof (cases slow)
    case True
    with A(4) obtain w' where w': "slot_pending s' = slot_pending (lk_slot l) @ w'" "w' = [] \<or> is_warning w'" "cs_disconnect_pending s'" by auto
    then show ?thesis using tcp_append.prems A(1) True w
      by (intro exI [of _ rest] exI [of _ w']) (auto simp: link_inv_def in_flight_def)
  next
    case False
    then show ?thesis using tcp_append.prems A(1,3) w tcp_append.hyps(2)
      by (intro exI [of _ "rest @ [r]"] exI [of _ "[]"]) (auto simp: link_inv_def in_flight_def)
  qed
next
  case (tcp_flush l ev n)
  let ?s = "lk_slot l"
  define s1 where "s1 = (if ce_hup ev \<or> ce_in ev \<and> ce_fin ev then ?s\<lparr>cs_disconnect_pending := True\<rparr> else ?s)"
  have ok: "slot_ok s1" and p: "slot_pending s1 = slot_pending ?s" and d: "cs_disconnect_pending ?s \<longrightarrow> cs_disconnect_pending s1"
    using tcp_flush.prems by (auto simp: link_inv_def s1_def slot_ok_def slot_pending_def)
  have "0 < length (slot_pending s1)" using tcp_flush.hyps(4,5) unfolding p by linarith
  then have "0 < cs_send_used s1 - cs_send_offset s1"
    unfolding word_less_nat_alt slot_pending_length [OF ok] unsigned_0 .
  then have io: "client_io ev ?s = client_flush ev s1" using tcp_flush.hyps(1,2) by (simp add: client_io_def s1_def Let_def)
  note F = flush_ok [OF ok tcp_flush.hyps(4) _ tcp_flush.hyps(3), unfolded p, OF tcp_flush.hyps(5)]
  have "take n (slot_pending ?s) @ drop n (slot_pending ?s) = slot_pending ?s" by simp
  then show ?case using tcp_flush.prems F d
    by (intro exI [of _ rest] exI [of _ warn]) (auto simp: link_inv_def in_flight_def io)
next
  case (tcp_poll l r w' rc rec c')
  let ?c = "lk_client l" and ?bs = "case r of Recv bs \<Rightarrow> bs | _ \<Rightarrow> []"
  have I: "client_ok ?c" "0 \<le> tl_fd ?c" "client_pending ?c @ lk_wire l @ slot_pending (lk_slot l) = concat (map frame rest) @ warn"
    "\<forall>r \<in> set rest. tcp_ok r" "warn = [] \<or> is_warning warn"
    using tcp_poll.prems by (auto simp: link_inv_def in_flight_def)
  note C = client_compact_ok [OF I(1)]
  have "case r of Recv bs \<Rightarrow> unat (tl_recv_used (client_compact ?c)) + length bs \<le> unat (tl_recv_buf_size (client_compact ?c)) | _ \<Rightarrow> True"
    using tcp_poll.hyps(2) C(3) window_okD(3) [OF C(1) [unfolded client_ok_def]] by (cases r) (simp_all add: recv_room_def)
  note R = client_recv_ok [OF C(1) this]
  obtain closed c1 where c1: "client_recv r (client_compact ?c) = (closed, c1)" by (meson surj_pair)
  have fd: "tl_fd c1 = tl_fd ?c" using c1 by (auto simp: client_recv_def client_compact_def Let_def split: if_splits recv_result.splits)
  have s: "client_pending c1 @ w' @ slot_pending (lk_slot l) = concat (map frame rest) @ warn"
    using R(2) c1 C(2) I(3) tcp_poll.hyps(1) by simp
  have "client_parse closed c1 = (rc, rec, c')" using tcp_poll.hyps(3) I(2) c1 by (simp add: om_bus_tcp_client_poll_def)
  note P = client_parse_next [OF _ s I(4,5) this]
  have ok1: "client_ok c1" using R(1) c1 by simp
  from P(3) [OF ok1] obtain rest' warn' where x: "rest = delivered rc rec @ rest'" "client_pending c' @ w' @ slot_pending (lk_slot l) = concat (map frame rest') @ warn'"
    "warn' = [] \<or> warn' = warn" by blast
  then show ?case using tcp_poll.prems P(1,2) [OF ok1] fd
    by (intro exI [of _ rest'] exI [of _ warn']) (auto simp: link_inv_def in_flight_def)
qed

lemma tcp_reach_inv:
  assumes "tcp_reach l"
  shows "\<exists>rest warn. link_inv l rest warn"
  using assms
proof (induction rule: tcp_reach.induct)
  case (tcp_start os cfg c s fd b sz)
  have "client_ok c" "client_pending c = []" "0 \<le> tl_fd c"
    using tcp_start.hyps(1,2)
    by (auto simp: om_bus_tcp_client_connect_def Let_def client_ok_def client_pending_def window_ok_def window_def split: if_splits option.splits)
  then show ?case using tcp_start.hyps(3-5)
    by (intro exI [of _ "[]"] exI [of _ "[]"]) (auto simp: link_inv_def in_flight_def slot_ok_def slot_pending_def window_ok_def window_def)
next
  case (tcp_more l l')
  then show ?case using tcp_step_inv by blast
qed


definition demo_slot :: OmBusTcpClientSlot where
  "demo_slot = \<lparr>cs_fd = 7, cs_send_buf = replicate 64 0, cs_send_buf_size = 64, cs_send_used = 0, cs_send_offset = 0, cs_disconnect_pending = False\<rparr>"

definition demo_tcp_rec :: OmBusRecord where
  "demo_tcp_rec = \<lparr>r_wal_seq = 9, r_wal_type = 1, r_payload_len = 1, r_payload = PayloadBytes [3]\<rparr>"

definition demo_connect :: "u8 list \<Rightarrow> tcp_connect_os" where
  "demo_connect b = \<lparr>tn_socket = 5, tn_inet_pton = True, tn_connect = True, tn_calloc = True, tn_malloc = Some b\<rparr>"

definition demo_client_cfg :: "u32 \<Rightarrow> OmBusTcpClientConfig" where
  "demo_client_cfg n = \<lparr>lc_host = ''127.0.0.1'', lc_port = 9000, lc_recv_buf_size = n, lc_flags = 0\<rparr>"

lemma demo_tcp_rec_ok: "tcp_ok demo_tcp_rec"
  by (simp add: tcp_ok_def demo_tcp_rec_def payload_bytes_def tcp_consts)


section \<open>Defects of the clients\<close>

lemma buf_put_all: "length bs = length buf \<Longrightarrow> buf_put 0 bs buf = bs"
  by (simp add: buf_put_def)



lemma client_poll_last:
  assumes "om_bus_tcp_client_poll x c = (PollError e, Some r, c')" "e = OM_ERR_BUS_GAP_DETECTED \<or> e = OM_ERR_BUS_REORDER_DETECTED"
  shows "tl_last_wal_seq c' = r_wal_seq r"
  using assms by (auto simp: om_bus_tcp_client_poll_def client_parse_def Let_def split: prod.splits if_splits)

text \<open>
  C37: the last sequence number of a reconnecting client goes backwards.  A record delivered together with a gap or reorder
  report is acknowledged while the connection lasts; when the connection is lost the client falls back to the last record
  delivered without such a report.
\<close>

theorem tcp_auto_seq_regresses:
  assumes "om_bus_tcp_auto_client_poll t0 t1 os x a = (PollError e, Some r, a1)" "e = OM_ERR_BUS_GAP_DETECTED \<or> e = OM_ERR_BUS_REORDER_DETECTED"
    and "om_bus_tcp_auto_client_poll t2 t3 os' y a1 = (PollEmpty, None, a2)" "at_disconnected a2"
  shows "om_bus_tcp_auto_client_wal_seq a1 = r_wal_seq r \<and> om_bus_tcp_auto_client_wal_seq a2 = at_last_wal_seq a"
proof -
  obtain a0 where a0: "auto_poll_inner t1 x a0 = (PollError e, Some r, a1)" "at_last_wal_seq a0 = at_last_wal_seq a" "\<not> at_disconnected a0"
    using assms(1) by (auto simp: om_bus_tcp_auto_client_poll_def split: if_splits sum.splits)
  then obtain c c' where c: "at_inner a0 = Some c" "om_bus_tcp_client_poll x c = (PollError e, Some r, c')" "a1 = a0\<lparr>at_inner := Some c'\<rparr>"
    using assms(2) by (auto simp: auto_poll_inner_def Let_def split: option.splits prod.splits if_splits)
  from a0(3) c(3) assms(3) have "auto_poll_inner t3 y a1 = (PollEmpty, None, a2)" by (simp add: om_bus_tcp_auto_client_poll_def)
  then have "at_inner a2 = None \<and> at_last_wal_seq a2 = at_last_wal_seq a"
    using assms(4) a0(2,3) c(3) by (auto simp: auto_poll_inner_def Let_def split: option.splits prod.splits if_splits)
  then show ?thesis using client_poll_last [OF c(2) assms(2)] c(3) by (simp add: om_bus_tcp_auto_client_wal_seq_def om_bus_tcp_client_wal_seq_def)
qed

definition demo_auto :: OmBusTcpAutoClient where
  "demo_auto = \<lparr>at_inner = Some \<lparr>tl_fd = 5, tl_recv_buf = frame demo_tcp_rec, tl_recv_buf_size = 17, tl_recv_used = 17, tl_recv_offset = 0, tl_flags = 0,
       tl_expected_wal_seq = 4, tl_last_wal_seq = 3\<rparr>,
     at_cfg = \<lparr>ac_base = demo_client_cfg 17, ac_max_retries = 0, ac_retry_base_ms = 100, ac_retry_max_ms = 5000\<rparr>,
     at_last_wal_seq = 3, at_retry_count = 0, at_current_backoff_ms = 0, at_next_retry_ms = 0, at_disconnected = False\<rparr>"

theorem tcp_auto_seq_regresses_witness:
  "\<exists>a1 a2. om_bus_tcp_auto_client_poll 0 0 (demo_connect []) RecvAgain demo_auto = (PollError OM_ERR_BUS_GAP_DETECTED, Some demo_tcp_rec, a1) \<and>
     om_bus_tcp_auto_client_poll 0 0 (demo_connect []) (Recv []) a1 = (PollEmpty, None, a2) \<and>
     om_bus_tcp_auto_client_wal_seq a1 = 9 \<and> om_bus_tcp_auto_client_wal_seq a2 = 3"
proof -
  let ?c = "the (at_inner demo_auto)" and ?h = "record_header demo_tcp_rec" and ?p = "[3] :: u8 list"
  have ok: "client_ok ?c" "client_pending ?c = frame demo_tcp_rec"
    using length_frame [OF demo_tcp_rec_ok] by (simp_all add: demo_auto_def client_ok_def client_pending_def window_ok_def window_def demo_tcp_rec_def)
  have s: "client_pending ?c @ [] = frame_header_bytes ?h @ ?p @ []" by (simp add: ok(2) frame_def demo_tcp_rec_def payload_bytes_def)
  have h: "fh_magic ?h = OM_BUS_TCP_FRAME_MAGIC" "length ?p = unat (fh_payload_len ?h)" by (simp_all add: record_header_def demo_tcp_rec_def)
  have l: "16 + length ?p \<le> length (client_pending ?c)" unfolding ok(2) using length_frame [OF demo_tcp_rec_ok] by (simp add: demo_tcp_rec_def)
  let ?c' = "?c\<lparr>tl_recv_offset := 17, tl_expected_wal_seq := 10, tl_last_wal_seq := 9\<rparr>"
  have "client_parse False ?c = (PollError OM_ERR_BUS_GAP_DETECTED, Some demo_tcp_rec, ?c')"
    using client_parse_frame(2) [OF ok(1) s h l, of False]
    by (simp add: record_header_def demo_tcp_rec_def demo_auto_def client_gap_def tcp_consts)
  then have 1: "om_bus_tcp_auto_client_poll 0 0 (demo_connect []) RecvAgain demo_auto = (PollError OM_ERR_BUS_GAP_DETECTED, Some demo_tcp_rec, demo_auto\<lparr>at_inner := Some ?c'\<rparr>)"
    by (simp add: om_bus_tcp_auto_client_poll_def auto_poll_inner_def om_bus_tcp_client_poll_def client_compact_def client_recv_def demo_auto_def)
  let ?a1 = "demo_auto\<lparr>at_inner := Some ?c'\<rparr>"
  obtain a2 where 2: "om_bus_tcp_auto_client_poll 0 0 (demo_connect []) (Recv []) ?a1 = (PollEmpty, None, a2)" "at_disconnected a2"
    by (simp add: om_bus_tcp_auto_client_poll_def auto_poll_inner_def om_bus_tcp_client_poll_def client_compact_def client_recv_def client_parse_def
      demo_auto_def tcp_consts Let_def)
  from tcp_auto_seq_regresses [OF 1 _ 2] 1 2(1) show ?thesis by (auto simp: demo_auto_def demo_tcp_rec_def)
qed

section \<open>Batches\<close>

lemma append_frame_fd: "cs_fd (snd (server_append_frame r s)) = cs_fd s"
  by (simp add: server_append_frame_def Let_def slot_put_def slot_compact_def)

fun broadcast_slots :: "OmBusRecord list \<Rightarrow> OmBusTcpClientSlot \<Rightarrow> nat \<times> OmBusTcpClientSlot" where
  "broadcast_slots [] s = (0, s)"
| "broadcast_slots (r # rs) s =
     (case broadcast_slot r s of (slow, s') \<Rightarrow> case broadcast_slots rs s' of (n, s'') \<Rightarrow> (if slow then Suc n else n, s''))"

lemma broadcast_slots_skip: "cs_fd s < 0 \<or> cs_disconnect_pending s \<Longrightarrow> broadcast_slots rs s = (0, s)"
  by (induction rs) (simp_all add: broadcast_slot_def)

lemma append_batch_slots: "0 \<le> cs_fd s \<Longrightarrow> append_batch rs s = broadcast_slots rs s"
proof (induction rs arbitrary: s)
  case (Cons r rs)
  obtain slow s' where a: "server_append_frame r s = (slow, s')" by (meson surj_pair)
  then have "cs_fd s' = cs_fd s" using append_frame_fd [of r s] by simp
  with Cons a show ?case by (cases "cs_disconnect_pending s") (simp_all add: broadcast_slots_skip broadcast_slot_def)
qed simp

lemma slow_count:
  "length (filter fst (map (broadcast_slot r) ss)) + sum_list (map (fst \<circ> broadcast_slots rs \<circ> snd \<circ> broadcast_slot r) ss) =
   sum_list (map (fst \<circ> broadcast_slots (r # rs)) ss)"
  by (induction ss) (auto split: prod.splits)

lemma fold_broadcast:
  "fold om_bus_tcp_server_broadcast rs srv =
     srv\<lparr>ts_clients := map (snd \<circ> broadcast_slots rs) (ts_clients srv),
       ts_slow_client_drops := ts_slow_client_drops srv + of_nat (sum_list (map (fst \<circ> broadcast_slots rs) (ts_clients srv))),
       ts_records_broadcast := ts_records_broadcast srv + of_nat (length rs),
       ts_bytes_broadcast := ts_bytes_broadcast srv + sum_list (map (\<lambda>r. ucast (r_payload_len r)) rs)\<rparr>"
proof (induction rs arbitrary: srv)
  case Nil
  have "map (snd \<circ> broadcast_slots []) ss = ss" "sum_list (map (fst \<circ> broadcast_slots []) ss) = 0" for ss by (induction ss) simp_all
  then show ?case by simp
next
  case (Cons r rs)
  let ?ss = "ts_clients srv"
  have 1: "map (snd \<circ> broadcast_slots rs) (map snd (map (broadcast_slot r) ?ss)) = map (snd \<circ> broadcast_slots (r # rs)) ?ss"
    by (auto split: prod.splits)
  have 2: "of_nat (length (filter fst (map (broadcast_slot r) ?ss))) + of_nat (sum_list (map (fst \<circ> broadcast_slots rs) (map snd (map (broadcast_slot r) ?ss)))) =
      (of_nat (sum_list (map (fst \<circ> broadcast_slots (r # rs)) ?ss)) :: u64)"
    unfolding slow_count [symmetric] by (simp add: comp_assoc)
  have "fold om_bus_tcp_server_broadcast (r # rs) srv = fold om_bus_tcp_server_broadcast rs (om_bus_tcp_server_broadcast r srv)" by simp
  also have "\<dots> = srv\<lparr>ts_clients := map (snd \<circ> broadcast_slots (r # rs)) ?ss,
       ts_slow_client_drops := ts_slow_client_drops srv + (of_nat (length (filter fst (map (broadcast_slot r) ?ss))) +
         of_nat (sum_list (map (fst \<circ> broadcast_slots rs) (map snd (map (broadcast_slot r) ?ss))))),
       ts_records_broadcast := ts_records_broadcast srv + of_nat (length (r # rs)),
       ts_bytes_broadcast := ts_bytes_broadcast srv + sum_list (map (\<lambda>r. ucast (r_payload_len r)) (r # rs))\<rparr>"
    unfolding Cons.IH 1 [symmetric] by (simp add: om_bus_tcp_server_broadcast_def Let_def add.assoc)
  finally show ?case unfolding 2 .
qed

lemma batch_fold: "om_bus_tcp_server_broadcast_batch rs srv = fold om_bus_tcp_server_broadcast rs srv"
proof -
  have "(\<lambda>s. if cs_fd s < 0 \<or> cs_disconnect_pending s then (0, s) else append_batch rs s) = broadcast_slots rs"
    by (rule ext) (simp add: broadcast_slots_skip append_batch_slots)
  then show ?thesis
    by (cases "rs = []") (simp_all add: om_bus_tcp_server_broadcast_batch_def fold_broadcast Let_def)
qed

text \<open>
  C25: broadcasting a batch leaves the server as broadcasting its records one after the other does: the same bytes in every send
  buffer, the same clients marked for disconnection, the same statistics.
\<close>

theorem tcp_batch_is_broadcasts: "om_bus_tcp_server_broadcast_batch rs srv = fold om_bus_tcp_server_broadcast rs srv"
  by (rule batch_fold)

section \<open>The number of clients\<close>

definition open_slots :: "OmBusTcpClientSlot list \<Rightarrow> nat" where
  "open_slots ss = length (filter (\<lambda>s. 0 \<le> cs_fd s) ss)"

definition server_inv :: "OmBusTcpServer \<Rightarrow> bool" where
  "server_inv srv \<longleftrightarrow> length (ts_clients srv) = unat (ts_max_clients srv) \<and> ts_client_count srv = of_nat (open_slots (ts_clients srv)) \<and>
     ts_clients_accepted srv - ts_clients_disconnected srv = of_nat (open_slots (ts_clients srv)) \<and>
     (\<forall>s \<in> set (ts_clients srv). cs_disconnect_pending s \<longrightarrow> 0 \<le> cs_fd s)"

lemma server_inv_map:
  assumes "server_inv srv" "\<And>s. s \<in> set (ts_clients srv) \<Longrightarrow> cs_fd (f s) = cs_fd s \<and> (cs_disconnect_pending (f s) \<longrightarrow> 0 \<le> cs_fd s)"
    and "ts_clients srv' = map f (ts_clients srv)" "ts_max_clients srv' = ts_max_clients srv" "ts_client_count srv' = ts_client_count srv"
    "ts_clients_accepted srv' = ts_clients_accepted srv" "ts_clients_disconnected srv' = ts_clients_disconnected srv"
  shows "server_inv srv'"
proof -
  have "open_slots (map f (ts_clients srv)) = open_slots (ts_clients srv)"
    unfolding open_slots_def filter_map length_map using assms(2) by (intro arg_cong [of _ _ length] filter_cong) simp_all
  then show ?thesis using assms by (auto simp: server_inv_def)
qed

lemma client_io_fd: "cs_fd (client_io ev s) = cs_fd s" "cs_disconnect_pending (client_io ev s) \<Longrightarrow> cs_disconnect_pending s \<or> 0 \<le> cs_fd s"
  by (auto simp: client_io_def client_flush_def Let_def split: if_splits)

lemma upd_client_inv:
  assumes "server_inv srv" "i < length (ts_clients srv)"
  shows "server_inv (upd_client evs i srv)" "length (ts_clients (upd_client evs i srv)) = length (ts_clients srv)"
proof -
  let ?ss = "ts_clients srv" and ?s = "client_io (evs i) (ts_clients srv ! i)"
  have "map (\<lambda>s. 0 \<le> cs_fd s) (?ss[i := ?s]) = map (\<lambda>s. 0 \<le> cs_fd s) ?ss"
    using assms(2) by (intro nth_equalityI) (auto simp: nth_list_update client_io_fd)
  then have "length (filter id (map (\<lambda>s. 0 \<le> cs_fd s) (?ss[i := ?s]))) = length (filter id (map (\<lambda>s. 0 \<le> cs_fd s) ?ss))" by simp
  then have "open_slots (?ss[i := ?s]) = open_slots ?ss" by (simp add: open_slots_def filter_map comp_def)
  moreover have "cs_disconnect_pending s \<longrightarrow> 0 \<le> cs_fd s" if "s \<in> set (?ss[i := ?s])" for s
  proof -
    have old: "\<forall>s \<in> set ?ss. cs_disconnect_pending s \<longrightarrow> 0 \<le> cs_fd s" using assms(1) by (simp add: server_inv_def)
    have "s = ?s \<or> s \<in> set ?ss" using that set_update_subset_insert [of ?ss i ?s] by auto
    then show ?thesis using old nth_mem [OF assms(2)] client_io_fd [of "evs i" "?ss ! i"] by metis
  qed
  ultimately show "server_inv (upd_client evs i srv)" using assms(1) by (simp add: server_inv_def upd_client_def)
  show "length (ts_clients (upd_client evs i srv)) = length (ts_clients srv)" by (simp add: upd_client_def)
qed

lemma free_slot_Some: "free_slot ss = Some i \<Longrightarrow> i < length ss \<and> cs_fd (ss ! i) < 0"
  by (induction ss arbitrary: i) (auto split: if_splits)

lemma open_slots_update:
  "i < length ss \<Longrightarrow> cs_fd (ss ! i) < 0 \<Longrightarrow> open_slots (ss[i := s]) = (if 0 \<le> cs_fd s then Suc (open_slots ss) else open_slots ss)"
  by (induction ss arbitrary: i) (auto simp: open_slots_def nth_Cons list_update.simps split: nat.splits)

lemma accept_loop_inv:
  assumes "server_inv srv" "\<forall>(fd, b) \<in> set as. 0 \<le> fd"
  shows "server_inv (accept_loop as srv) \<and> length (ts_clients (accept_loop as srv)) = length (ts_clients srv)"
  using assms
proof (induction as srv rule: accept_loop.induct)
  case (2 cfd buf as srv)
  show ?case
  proof (cases "free_slot (ts_clients srv)")
    case None
    then show ?thesis using 2 by simp
  next
    case (Some i)
    note F = free_slot_Some [OF Some]
    have q: "\<not> cs_disconnect_pending (ts_clients srv ! i)" using F "2.prems"(1) nth_mem [of i "ts_clients srv"] by (auto simp: server_inv_def)
    have u: "s \<in> set ((ts_clients srv)[i := x]) \<Longrightarrow> s = x \<or> s \<in> set (ts_clients srv)" for s x
      using set_update_subset_insert [of "ts_clients srv" i x] by auto
    show ?thesis
    proof (cases buf)
      case None
      have "server_inv (srv\<lparr>ts_clients := (ts_clients srv)[i := (ts_clients srv ! i)\<lparr>cs_fd := -1, cs_send_buf := []\<rparr>]\<rparr>)"
        using "2.prems"(1) F q by (auto simp: server_inv_def open_slots_update dest!: u)
      then show ?thesis using "2.IH"(2) [OF Some None] "2.prems"(2) Some None by simp
    next
      case (Some b)
      let ?s = "\<lparr>cs_fd = cfd, cs_send_buf = b, cs_send_buf_size = ts_send_buf_size srv, cs_send_used = 0, cs_send_offset = 0, cs_disconnect_pending = False\<rparr>"
      have "0 \<le> cfd" using "2.prems"(2) by simp
      then have "server_inv (srv\<lparr>ts_clients := (ts_clients srv)[i := ?s], ts_client_count := ts_client_count srv + 1, ts_clients_accepted := ts_clients_accepted srv + 1\<rparr>)"
        using "2.prems"(1) F by (auto simp: server_inv_def open_slots_update algebra_simps dest!: u)
      then show ?thesis using "2.IH"(3) [OF \<open>free_slot (ts_clients srv) = Some i\<close> Some] "2.prems"(2) \<open>free_slot (ts_clients srv) = Some i\<close> Some by simp
    qed
  qed
qed simp

lemma close_pending_inv:
  assumes "server_inv srv"
  shows "server_inv (close_pending srv)"
proof -
  let ?ss = "ts_clients srv" and ?f = "\<lambda>s. if cs_disconnect_pending s then close_slot s else s"
  have "(\<forall>s \<in> set ss. cs_disconnect_pending s \<longrightarrow> 0 \<le> cs_fd s) \<Longrightarrow> open_slots (map ?f ss) + length (filter cs_disconnect_pending ss) = open_slots ss" for ss
    by (induction ss) (auto simp: open_slots_def close_slot_def)
  then have n: "open_slots (map ?f ?ss) + length (filter cs_disconnect_pending ?ss) = open_slots ?ss" using assms unfolding server_inv_def by blast
  have e: "of_nat (open_slots ?ss) - of_nat (length (filter cs_disconnect_pending ?ss)) = (of_nat (open_slots (map ?f ?ss)) :: u32)"
    "of_nat (open_slots ?ss) - of_nat (length (filter cs_disconnect_pending ?ss)) = (of_nat (open_slots (map ?f ?ss)) :: u64)"
    unfolding n [symmetric] of_nat_add by (rule add_diff_cancel_right')+
  have a: "ts_clients_accepted srv - (ts_clients_disconnected srv + of_nat (length (filter cs_disconnect_pending ?ss))) = of_nat (open_slots (map ?f ?ss))"
    using assms unfolding e(2) [symmetric] diff_diff_add [symmetric] by (simp add: server_inv_def)
  have f: "ts_clients (close_pending srv) = map ?f ?ss" "ts_max_clients (close_pending srv) = ts_max_clients srv"
    "ts_client_count (close_pending srv) = ts_client_count srv - of_nat (length (filter cs_disconnect_pending ?ss))"
    "ts_clients_accepted (close_pending srv) = ts_clients_accepted srv"
    "ts_clients_disconnected (close_pending srv) = ts_clients_disconnected srv + of_nat (length (filter cs_disconnect_pending ?ss))"
    by (simp_all add: close_pending_def Let_def)
  have p: "\<not> cs_disconnect_pending s" if "s \<in> set (map ?f ?ss)" for s using that by (auto simp: close_slot_def)
  have c: "length ?ss = unat (ts_max_clients srv)" "ts_client_count srv = of_nat (open_slots ?ss)" using assms unfolding server_inv_def by blast+
  show ?thesis unfolding server_inv_def f a length_map c e(1) using p by blast
qed

text \<open>The server after any sequence of calls; \<^verbatim>\<open>accept\<close> returns descriptors that are not negative.\<close>

inductive server_reach :: "OmBusTcpServer \<Rightarrow> bool" where
  server_start: "om_bus_tcp_server_create os cfg = Inr srv \<Longrightarrow> server_reach srv"
| server_broadcast: "server_reach srv \<Longrightarrow> server_reach (om_bus_tcp_server_broadcast r srv)"
| server_batch: "server_reach srv \<Longrightarrow> server_reach (om_bus_tcp_server_broadcast_batch rs srv)"
| server_io: "server_reach srv \<Longrightarrow> (\<forall>(fd, b) \<in> set (io_accepts io). 0 \<le> fd) \<Longrightarrow> server_reach (snd (om_bus_tcp_server_poll_io io srv))"

lemma broadcast_inv:
  assumes "server_inv srv"
  shows "server_inv (om_bus_tcp_server_broadcast r srv)"
proof (rule server_inv_map [OF assms, of "snd \<circ> broadcast_slot r"])
  show "cs_fd ((snd \<circ> broadcast_slot r) s) = cs_fd s \<and> (cs_disconnect_pending ((snd \<circ> broadcast_slot r) s) \<longrightarrow> 0 \<le> cs_fd s)"
    if "s \<in> set (ts_clients srv)" for s
    using that assms append_frame_fd [of r s] by (auto simp: broadcast_slot_def server_inv_def)
qed (simp_all add: om_bus_tcp_server_broadcast_def Let_def)

lemma server_reach_inv:
  assumes "server_reach srv"
  shows "server_inv srv"
  using assms
proof (induction rule: server_reach.induct)
  case (server_start os cfg srv)
  then show ?case
    by (auto simp: om_bus_tcp_server_create_def Let_def server_inv_def open_slots_def split: if_splits)
next
  case (server_batch srv rs)
  have "server_inv (fold om_bus_tcp_server_broadcast rs s)" if "server_inv s" for s
    using that by (induction rs arbitrary: s) (simp_all add: broadcast_inv)
  then show ?case using server_batch.IH by (simp add: batch_fold)
next
  case (server_io srv io)
  let ?a = "if io_listen io then accept_loop (io_accepts io) srv else srv"
  have a: "server_inv ?a" "length (ts_clients ?a) = length (ts_clients srv)" using accept_loop_inv [OF server_io.IH server_io.hyps(2)] server_io.IH by simp_all
  have "server_inv (fold (upd_client evs) js s)" if "server_inv s" "\<forall>i \<in> set js. i < length (ts_clients s)" for evs js s
    using that by (induction js arbitrary: s) (simp_all add: upd_client_inv)
  then have "server_inv (fold (upd_client (io_clients io)) (filter (\<lambda>i. 0 \<le> cs_fd (ts_clients srv ! i)) [0..<length (ts_clients srv)]) ?a)"
    using a by simp
  then show ?case using server_io.IH close_pending_inv by (simp add: om_bus_tcp_server_poll_io_def Let_def)
qed (rule broadcast_inv)

text \<open>
  C22: after every sequence of calls the server's client count is the number of slots with an open connection, never more than the maximum, and equals the number
  of accepted minus the number of disconnected clients.
\<close>

theorem tcp_client_count_exact:
  assumes "server_reach srv"
  shows "unat (om_bus_tcp_server_client_count (Some srv)) = length (filter (\<lambda>s. 0 \<le> cs_fd s) (ts_clients srv)) \<and>
    om_bus_tcp_server_client_count (Some srv) \<le> ts_max_clients srv \<and>
    to_clients_accepted (om_bus_tcp_server_stats srv) - to_clients_disconnected (om_bus_tcp_server_stats srv) = ucast (om_bus_tcp_server_client_count (Some srv))"
proof -
  have I: "server_inv srv" by (rule server_reach_inv [OF assms])
  have "open_slots (ts_clients srv) \<le> length (ts_clients srv)" by (simp add: open_slots_def)
  then have le: "open_slots (ts_clients srv) \<le> unat (ts_max_clients srv)" using I by (simp add: server_inv_def)
  then have u: "unat (of_nat (open_slots (ts_clients srv)) :: u32) = open_slots (ts_clients srv)"
    using unsigned_less [of "ts_max_clients srv", where 'a = nat] by (simp add: unat_of_nat)
  then have "ucast (of_nat (open_slots (ts_clients srv)) :: u32) = (of_nat (open_slots (ts_clients srv)) :: u64)"
    using le unsigned_less [of "ts_max_clients srv", where 'a = nat] by (simp add: word_unat_eq_iff unat_ucast_up unat_of_nat)
  then show ?thesis using I u le
    by (simp add: server_inv_def om_bus_tcp_server_client_count_def om_bus_tcp_server_stats_def word_le_nat_alt open_slots_def)
qed

theorem tcp_client_count_exact_witness:
  "\<exists>srv srv'. om_bus_tcp_server_create \<lparr>tk_calloc = True, tk_calloc_clients = True, tk_calloc_pollfds = True, tk_calloc_map = True, tk_socket = 3, tk_bind = True, tk_listen = True,
        tk_bound_port = 9000, tk_nonblocking = True\<rparr> \<lparr>tc_port = 9000, tc_max_clients = 2, tc_send_buf_size = 64\<rparr> = Inr srv \<and>
     server_reach srv' \<and> srv' = snd (om_bus_tcp_server_poll_io \<lparr>io_ret = 1, io_eintr = False, io_listen = True, io_accepts = [(8, Some (replicate 64 0))], io_clients = (\<lambda>_. undefined)\<rparr> srv) \<and>
     om_bus_tcp_server_client_count (Some srv') = 1 \<and> length (filter (\<lambda>s. 0 \<le> cs_fd s) (ts_clients srv')) = 1"
proof -
  let ?os = "\<lparr>tk_calloc = True, tk_calloc_clients = True, tk_calloc_pollfds = True, tk_calloc_map = True, tk_socket = 3, tk_bind = True, tk_listen = True,
        tk_bound_port = 9000, tk_nonblocking = True\<rparr>"
  obtain srv where c: "om_bus_tcp_server_create ?os \<lparr>tc_port = 9000, tc_max_clients = 2, tc_send_buf_size = 64\<rparr> = Inr srv"
    by (simp add: om_bus_tcp_server_create_def Let_def)
  let ?io = "\<lparr>io_ret = 1, io_eintr = False, io_listen = True, io_accepts = [(8, Some (replicate 64 0))], io_clients = (\<lambda>_. undefined)\<rparr>"
  let ?srv = "snd (om_bus_tcp_server_poll_io ?io srv)"
  have r: "server_reach ?srv" by (rule server_io [OF server_start [OF c]]) simp
  let ?e = "\<lparr>cs_fd = -1, cs_send_buf = [], cs_send_buf_size = 0, cs_send_used = 0, cs_send_offset = 0, cs_disconnect_pending = False\<rparr>"
  have "replicate 2 x = [x, x]" for x :: OmBusTcpClientSlot by (simp add: numeral_2_eq_2)
  then have s: "ts_clients srv = [?e, ?e]" "ts_client_count srv = 0" using c by (auto simp: om_bus_tcp_server_create_def Let_def)
  then have "filter (\<lambda>i. 0 \<le> cs_fd (ts_clients srv ! i)) [0..<length (ts_clients srv)] = []"
    by (simp add: filter_empty_conv nth_Cons split: nat.splits)
  then have "om_bus_tcp_server_client_count (Some ?srv) = 1"
    unfolding om_bus_tcp_server_poll_io_def Let_def om_bus_tcp_server_client_count_def close_pending_def by (simp add: s)
  then show ?thesis using c r tcp_client_count_exact [OF r] by auto
qed

end
