(* ===== verification/Bus_Shm_Props.thy ===== *)
theory Bus_Shm_Props
  imports Bus_Shm
begin

text \<open>
  Properties of the shared-memory stream: what is published is what endpoints receive, what happens to an endpoint that the producer
  has overrun, batches against single publications, cursor files, and the side effect of peeking.
\<close>

section \<open>Publishing a list\<close>

fun publish_list :: "u64 \<Rightarrow> OmBusStream \<Rightarrow> OmBusRecord list \<Rightarrow> OmBusShm \<Rightarrow> (OmBusStream \<times> OmBusShm) option" where
  "publish_list now st [] m = Some (st, m)"
| "publish_list now st (r # rs) m =
     (case om_bus_stream_publish now st r m of Some (None, st', m') \<Rightarrow> publish_list now st' rs m' | _ \<Rightarrow> None)"

text \<open>The producer will not wait for the next \<open>k\<close> records.\<close>

definition no_wait :: "u64 \<Rightarrow> OmBusStream \<Rightarrow> nat \<Rightarrow> OmBusShm \<Rightarrow> bool" where
  "no_wait now st k m \<longleftrightarrow> bus_is_broadcast (st_flags st) \<or> all_stale now st m \<or>
     min_tail (hdr m) = 0 \<and> unat (head (hdr m)) + k \<le> unat (st_capacity st)"

definition same_layout :: "OmBusShm \<Rightarrow> OmBusShm \<Rightarrow> bool" where
  "same_layout m m' \<longleftrightarrow> tails m' = tails m \<and> capacity (hdr m') = capacity (hdr m) \<and> slot_size (hdr m') = slot_size (hdr m) \<and>
     flags (hdr m') = flags (hdr m) \<and> max_consumers (hdr m') = max_consumers (hdr m) \<and> producer_epoch (hdr m') = producer_epoch (hdr m)"

lemma fits_len:
  assumes "fits sz r" "25 \<le> unat sz"
  shows "\<not> sz - OM_BUS_SLOT_HEADER_SIZE < ucast (r_payload_len r)"
proof -
  have "unat (sz - OM_BUS_SLOT_HEADER_SIZE) = unat sz - 24" using assms(2) by (simp add: unat_sub_le bus_consts word_le_nat_alt)
  moreover have "unat (ucast (r_payload_len r) :: u32) = unat (r_payload_len r)"
    using unsigned_less [of "r_payload_len r", where 'a = nat] by (simp add: unsigned_ucast_eq take_bit_nat_eq_self)
  ultimately show ?thesis using assms(1) by (auto simp: word_less_nat_alt fits_def)
qed

lemma publish_goes:
  assumes w: "no_wait now st (Suc k) m" and c: "0 < st_capacity st"
  obtains v where "(if bus_is_broadcast (st_flags st) then Some m else pressure_loop now st (head (hdr m)) 0 m) = Some (set_min_tail v m)"
    "min_tail (hdr m) = 0 \<and> unat (head (hdr m)) + Suc k \<le> unat (st_capacity st) \<longrightarrow> v = 0"
proof (cases "min_tail (hdr m) = 0 \<and> unat (head (hdr m)) + Suc k \<le> unat (st_capacity st)")
  case True
  then have "head (hdr m) - min_tail (hdr m) < ucast (st_capacity st)" by (simp add: word_less_nat_alt unat_ucast_up)
  then have "pressure_loop now st (head (hdr m)) 0 m = Some m" by (subst pressure_loop.simps) (simp add: pressure_turn_def)
  moreover have "m = set_min_tail 0 m" using True by (simp add: set_min_tail_def)
  ultimately show ?thesis using that [of 0] by (cases "bus_is_broadcast (st_flags st)") auto
next
  case False
  have "m = set_min_tail (min_tail (hdr m)) m" by (simp add: set_min_tail_def)
  with False w pressure_loop_stale [OF _ c, of now m] that show ?thesis
    by (cases "bus_is_broadcast (st_flags st)") (auto simp: no_wait_def)
qed

lemma publish_one:
  assumes ok: "shm_ok m rs" and st: "stream_of st m" and f: "fits (slot_size (hdr m)) r" and b: "Suc (length rs) < 2 ^ 63"
    and w: "no_wait now st (Suc k) m"
  obtains m' where "om_bus_stream_publish now st r m = Some (None, st\<lparr>st_records_published := st_records_published st + 1\<rparr>, m')"
    "shm_ok m' (rs @ [r])" "same_layout m m'" "no_wait now (st\<lparr>st_records_published := st_records_published st + 1\<rparr>) k m'"
proof -
  note D = shm_okD [OF ok]
  have c: "0 < st_capacity st" using st D(6) by (simp add: stream_of_def word_gt_0 unat_gt_0)
  obtain v where v: "(if bus_is_broadcast (st_flags st) then Some m else pressure_loop now st (head (hdr m)) 0 m) = Some (set_min_tail v m)"
    "min_tail (hdr m) = 0 \<and> unat (head (hdr m)) + Suc k \<le> unat (st_capacity st) \<longrightarrow> v = 0"
    using publish_goes [OF w c] .
  let ?m = "set_min_tail v m"
  let ?m' = "set_head (head (hdr m) + 1) (bus_publish_slot st (head (hdr m)) r ?m)"
  have h: "head (hdr ?m) = head (hdr m)" "slot_size (hdr ?m) = slot_size (hdr m)" by (simp_all add: set_min_tail_def)
  have ok': "shm_ok ?m rs" using ok by (subst shm_ok_cong [of _ m]) (simp_all add: set_min_tail_def)
  have st': "stream_of st ?m" using st by (simp add: stream_of_def set_min_tail_def)
  have "shm_ok ?m' (rs @ [r])" using shm_publish_ok [OF ok' st' _ b] f h by simp
  moreover have len: "\<not> st_slot_size st - OM_BUS_SLOT_HEADER_SIZE < ucast (r_payload_len r)"
    using fits_len [OF f D(3)] st by (simp add: stream_of_def)
  have "om_bus_stream_publish now st r m = Some (None, st\<lparr>st_records_published := st_records_published st + 1\<rparr>, ?m')"
    using len v(1) by (simp add: om_bus_stream_publish_def Let_def)
  moreover have lay: "same_layout m ?m'" by (simp add: same_layout_def set_head_def bus_publish_slot_def set_min_tail_def Let_def)
  moreover have "no_wait now (st\<lparr>st_records_published := st_records_published st + 1\<rparr>) k ?m'"
  proof -
    have "unat (head (hdr m) + 1) = Suc (length rs)" using b D(4) by (simp add: unat_add_no_wrap)
    then show ?thesis using w v(2) D(4)
      by (auto simp: no_wait_def all_stale_def set_head_def bus_publish_slot_def set_min_tail_def Let_def)
  qed
  ultimately show ?thesis by (intro that)
qed

lemma publish_list_ok:
  assumes "shm_ok m rs" "stream_of st m" "\<forall>r \<in> set xs. fits (slot_size (hdr m)) r" "length rs + length xs < 2 ^ 63"
    "no_wait now st (length xs) m"
  shows "\<exists>st' m'. publish_list now st xs m = Some (st', m') \<and> shm_ok m' (rs @ xs) \<and> same_layout m m'"
  using assms
proof (induction xs arbitrary: rs st m)
  case Nil
  then show ?case by (simp add: same_layout_def)
next
  case (Cons x xs)
  let ?st = "st\<lparr>st_records_published := st_records_published st + 1\<rparr>"
  have p: "fits (slot_size (hdr m)) x" "Suc (length rs) < 2 ^ 63" "no_wait now st (Suc (length xs)) m" using Cons.prems(3-5) by simp_all
  obtain m1 where m1: "om_bus_stream_publish now st x m = Some (None, ?st, m1)" "shm_ok m1 (rs @ [x])" "same_layout m m1"
    "no_wait now ?st (length xs) m1"
    using publish_one [OF Cons.prems(1,2) p] .
  have "stream_of ?st m1" "\<forall>r \<in> set xs. fits (slot_size (hdr m1)) r" "length (rs @ [x]) + length xs < 2 ^ 63"
    using Cons.prems(2-4) m1(3) by (simp_all add: stream_of_def same_layout_def)
  from Cons.IH [OF m1(2) this m1(4)] obtain st' m' where "publish_list now ?st xs m1 = Some (st', m')" "shm_ok m' ((rs @ [x]) @ xs)" "same_layout m1 m'"
    by (elim exE conjE)
  with m1(1,3) show ?case by (intro exI [of _ st'] exI [of _ m']) (simp add: same_layout_def)
qed

section \<open>Polling a list\<close>

fun poll_list :: "u64 \<Rightarrow> nat \<Rightarrow> OmBusEndpoint \<Rightarrow> OmBusShm \<Rightarrow> OmBusRecord list \<times> OmBusEndpoint \<times> OmBusShm" where
  "poll_list now 0 ep m = ([], ep, m)"
| "poll_list now (Suc n) ep m =
     (case om_bus_endpoint_poll now id ep m of (_, None, ep', m') \<Rightarrow> ([], ep', m')
      | (_, Some r, ep', m') \<Rightarrow> (case poll_list now n ep' m' of (rs, x) \<Rightarrow> (r # rs, x)))"

definition attached :: "OmBusEndpoint \<Rightarrow> OmBusShm \<Rightarrow> OmBusRecord list \<Rightarrow> nat \<Rightarrow> bool" where
  "attached ep m rs t \<longleftrightarrow> shm_ok m rs \<and> ep_of ep m \<and> \<not> ep_zero_copy ep \<and> unat (ep_tail ep m) = t \<and> t \<le> length rs"

lemma attached_poll:
  assumes a: "attached ep m rs t" and t: "t < length rs" "length rs \<le> t + unat (capacity (hdr m))"
  obtains ep' m' where "om_bus_endpoint_poll now id ep m = (fst (bus_gap_result ep (r_wal_seq (rs ! t))), Some (rs ! t), ep', m')"
    "attached ep' m' rs (Suc t)" "capacity (hdr m') = capacity (hdr m)" "om_bus_endpoint_wal_seq ep' m' = r_wal_seq (rs ! t)"
proof -
  have ok: "shm_ok m rs" and ep: "ep_of ep m" and zc: "\<not> ep_zero_copy ep" and tt: "unat (ep_tail ep m) = t" "t \<le> length rs"
    using a by (simp_all add: attached_def)
  let ?e = "ep\<lparr>ep_expected_wal_seq := r_wal_seq (rs ! t) + 1\<rparr>"
  let ?m = "bus_endpoint_advance now ?e (ep_tail ep m) (ep_tail ep m + 1) (r_wal_seq (rs ! t)) m"
  note P = shm_poll_outcome(3) [OF ok ep zc refl tt t, of now]
  have i: "unat (ep_consumer_index ep) < length (tails m)" using ep shm_okD(7) [OF ok] by (simp add: ep_of_def word_less_nat_alt)
  have "shm_ok ?m rs" using ok by (subst shm_ok_cong [of _ m]) simp_all
  moreover have "unat (ep_tail ep m + 1) = Suc t" using tt t(1) shm_okD(5) [OF ok] by (simp add: unat_add_no_wrap)
  ultimately have "attached ?e ?m rs (Suc t)" using ep zc i t(1) by (simp add: attached_def ep_of_def ep_tail_def)
  with P i show ?thesis by (intro that [of ?e ?m]) (simp_all add: om_bus_endpoint_wal_seq_def)
qed

lemma poll_list_ok:
  assumes "attached ep m rs t" "t + n \<le> length rs" "length rs \<le> t + unat (capacity (hdr m))"
  shows "\<exists>ep' m'. poll_list now n ep m = (take n (drop t rs), ep', m') \<and> attached ep' m' rs (t + n) \<and> capacity (hdr m') = capacity (hdr m)"
  using assms
proof (induction n arbitrary: ep m t)
  case (Suc n)
  have lt: "t < length rs" using Suc.prems(2) by simp
  obtain ep1 m1 where 1: "om_bus_endpoint_poll now id ep m = (fst (bus_gap_result ep (r_wal_seq (rs ! t))), Some (rs ! t), ep1, m1)"
    "attached ep1 m1 rs (Suc t)" "capacity (hdr m1) = capacity (hdr m)"
    using attached_poll [OF Suc.prems(1) lt Suc.prems(3), of now] .
  have "Suc t + n \<le> length rs" "length rs \<le> Suc t + unat (capacity (hdr m1))" using Suc.prems(2,3) 1(3) by simp_all
  from Suc.IH [OF 1(2) this] obtain ep' m' where "poll_list now n ep1 m1 = (take n (drop (Suc t) rs), ep', m')" "attached ep' m' rs (Suc t + n)"
    "capacity (hdr m') = capacity (hdr m1)"
    by (elim exE conjE)
  with 1(1,3) lt show ?case by (intro exI [of _ ep'] exI [of _ m']) (simp add: Cons_nth_drop_Suc [symmetric])
qed simp

section \<open>Creation and attachment\<close>

lemma create_ok:
  assumes c: "om_bus_stream_create os cfg = Inr (st, m)"
  shows "shm_ok m []" "stream_of st m" "min_tail (hdr m) = 0" "head (hdr m) = 0" "st_flags st = sc_flags cfg" "st_staleness_ns st = sc_staleness_ns cfg"
proof -
  obtain cap sz mc where d: "bus_defaults cfg = (cap, sz, mc)" by (cases "bus_defaults cfg")
  have m: "st = bus_stream_of cfg" "m = bus_fresh (co_epoch os) cfg" and v: "bus_is_power_of_two cap" "\<not> sz < OM_BUS_SLOT_HEADER_SIZE + 1"
    using c by (auto simp: om_bus_stream_create_def d Let_def split: if_splits)
  have sz: "25 \<le> unat sz" using v(2) by (simp add: bus_consts word_less_nat_alt)
  have "unat (of_nat i :: u64) = i" if "i < unat cap" for i
    using that unsigned_less [of cap, where 'a = nat] by (simp add: unat_of_nat)
  then show "shm_ok m []" using v(1) sz by (simp add: shm_ok_def m bus_fresh_def d on_slot_def bus_consts)
  show "stream_of st m" "min_tail (hdr m) = 0" "head (hdr m) = 0" "st_flags st = sc_flags cfg" "st_staleness_ns st = sc_staleness_ns cfg"
    by (simp_all add: stream_of_def m bus_stream_of_def bus_fresh_def d)
qed

lemma open_ok:
  assumes o: "om_bus_endpoint_open os cfg m = Inr (ep, m')" and ok: "shm_ok m rs" and zc: "\<not> ec_zero_copy cfg"
  shows "attached ep m' rs (length rs)" "hdr m' = hdr m" "slots m' = slots m"
    "tails m' = (tails m)[unat (ec_consumer_index cfg) := \<lparr>tail = head (hdr m), t_wal_seq = 0, last_poll_ns = oo_now os\<rparr>]"
    "ep_consumer_index ep = ec_consumer_index cfg"
proof -
  have m': "m' = upd_tail (unat (ec_consumer_index cfg)) (\<lambda>t. \<lparr>tail = head (hdr m), t_wal_seq = 0, last_poll_ns = oo_now os\<rparr>) m"
    and ep: "ep = \<lparr>ep_consumer_index = ec_consumer_index cfg, ep_slot_size = slot_size (hdr m), ep_capacity = capacity (hdr m),
       ep_mask = capacity (hdr m) - 1, ep_max_consumers = max_consumers (hdr m), ep_flags = flags (hdr m),
       ep_zero_copy = ec_zero_copy cfg, ep_expected_wal_seq = 0, ep_producer_epoch = producer_epoch (hdr m)\<rparr>"
    and i: "\<not> max_consumers (hdr m) \<le> ec_consumer_index cfg"
    using o by (auto simp: om_bus_endpoint_open_def split: if_splits option.splits)
  note D = shm_okD [OF ok]
  have il: "unat (ec_consumer_index cfg) < length (tails m)" using i D(7) by (simp add: word_less_nat_alt not_le)
  show h: "hdr m' = hdr m" "slots m' = slots m"
    "tails m' = (tails m)[unat (ec_consumer_index cfg) := \<lparr>tail = head (hdr m), t_wal_seq = 0, last_poll_ns = oo_now os\<rparr>]"
    "ep_consumer_index ep = ec_consumer_index cfg" by (simp_all add: m' upd_tail_def ep)
  have "shm_ok m' rs" using ok h by (subst shm_ok_cong [of _ m]) simp_all
  then show "attached ep m' rs (length rs)" using h i il D(4) zc by (simp add: attached_def ep_of_def ep ep_tail_def not_le)
qed

section \<open>Properties\<close>


definition demo_create :: create_os where
  "demo_create = \<lparr>co_shm_open = True, co_fstat_size = None, co_ftruncate = True, co_mmap = True, co_calloc = True, co_epoch = 77\<rparr>"

definition demo_open :: open_os where
  "demo_open = \<lparr>oo_shm_open = True, oo_fstat_size = Some 8192, oo_mmap = True, oo_calloc = True, oo_malloc = True, oo_now = 10\<rparr>"

definition demo_bus :: "u32 \<Rightarrow> OmBusStreamConfig" where
  "demo_bus f = \<lparr>sc_stream_name = ''/om'', sc_capacity = 2, sc_slot_size = 64, sc_max_consumers = 1, sc_flags = f, sc_staleness_ns = 5\<rparr>"

definition demo_ec :: OmBusEndpointConfig where
  "demo_ec = \<lparr>ec_consumer_index = 0, ec_zero_copy = False\<rparr>"

definition demo_rec :: "u64 \<Rightarrow> OmBusRecord" where
  "demo_rec n = \<lparr>r_wal_seq = n, r_wal_type = 1, r_payload_len = 1, r_payload = PayloadBytes [3]\<rparr>"

lemma demo_bus_create: "om_bus_stream_create demo_create (demo_bus f) = Inr (bus_stream_of (demo_bus f), bus_fresh 77 (demo_bus f))"
  by (simp add: om_bus_stream_create_def demo_create_def demo_bus_def bus_defaults_def bus_is_power_of_two_def bus_consts)

lemma demo_bus_open: "\<exists>ep m. om_bus_endpoint_open demo_open demo_ec (bus_fresh 77 (demo_bus f)) = Inr (ep, m)"
  by (simp add: om_bus_endpoint_open_def demo_open_def demo_ec_def bus_fresh_def demo_bus_def bus_defaults_def bus_consts)

lemma demo_bus_simps [simp]:
  "slot_size (hdr (bus_fresh 77 (demo_bus f))) = 64" "capacity (hdr (bus_fresh 77 (demo_bus f))) = 2"
  "tails (bus_fresh 77 (demo_bus f)) = [\<lparr>tail = 0, t_wal_seq = 0, last_poll_ns = 0\<rparr>]" "fits 64 (demo_rec n)" "\<not> ec_zero_copy demo_ec"
  by (simp_all add: bus_fresh_def demo_bus_def bus_defaults_def fits_def demo_rec_def payload_bytes_def demo_ec_def)


text \<open>
  C34: an endpoint that does not poll while more than \<open>capacity\<close> records are published is told so in broadcast mode: the poll returns
  the lapped error.  Without broadcast, when the endpoint has not polled for longer than the staleness
  threshold, the producer overwrites its records as well, and from then on every poll of that endpoint, at any time,
  finds the stream empty and moves nothing: it is cut off without an error.
\<close>

theorem shm_overrun:
  assumes "om_bus_stream_create os cfg = Inr (st, m0)" "om_bus_endpoint_open oos ecfg m0 = Inr (ep, m1)" "\<not> ec_zero_copy ecfg"
    and "\<forall>r \<in> set rs. fits (slot_size (hdr m0)) r" "unat (capacity (hdr m0)) < length rs" "length rs < 2 ^ 63"
    and "bus_is_broadcast (sc_flags cfg) \<or> sc_staleness_ns cfg \<noteq> 0 \<and> sc_staleness_ns cfg < now - oo_now oos"
  shows "\<exists>st' m2. publish_list now st rs m1 = Some (st', m2) \<and>
    (\<forall>later. om_bus_endpoint_poll later id ep m2 =
       (if bus_is_broadcast (sc_flags cfg) then PollError OM_ERR_BUS_LAPPED else PollEmpty, None, ep, m2))"
proof -
  note C = create_ok [OF assms(1)]
  note O = open_ok [OF assms(2) C(1) assms(3)]
  have st: "stream_of st m1" using C(2) O(2) by (simp add: stream_of_def)
  have t0: "\<forall>t \<in> set (tails m0). last_poll_ns t = 0"
    using assms(1) by (auto simp: om_bus_stream_create_def bus_fresh_def Let_def split: if_splits prod.splits)
  have "all_stale now st m1" if "\<not> bus_is_broadcast (sc_flags cfg)"
    using t0 assms(7) that C(6) set_update_subset_insert [of "tails m0"] unfolding all_stale_def O(4) by fastforce
  then have "no_wait now st (length rs) m1" using C(5) by (auto simp: no_wait_def)
  moreover have "\<forall>r \<in> set rs. fits (slot_size (hdr m1)) r" "length [] + length rs < 2 ^ 63" using assms(4,6) O(2) by simp_all
  moreover have "shm_ok m1 []" using O(1) by (simp add: attached_def)
  ultimately obtain st' m2 where 2: "publish_list now st rs m1 = Some (st', m2)" "shm_ok m2 rs" "same_layout m1 m2"
    using publish_list_ok [of m1 "[]" st rs now] st by auto
  have a: "attached ep m2 rs 0" using O(1) 2(2,3) by (simp add: attached_def ep_of_def ep_tail_def same_layout_def)
  have f: "flags (hdr m2) = sc_flags cfg" using 2(3) O(2) C(2,5) by (simp add: same_layout_def stream_of_def)
  have "0 + unat (capacity (hdr m2)) < length rs" using 2(3) O(2) assms(5) by (simp add: same_layout_def)
  then have "om_bus_endpoint_poll later id ep m2 =
       (if bus_is_broadcast (sc_flags cfg) then PollError OM_ERR_BUS_LAPPED else PollEmpty, None, ep, m2)" for later
    using a shm_poll_outcome(2) [of m2 rs ep id 0 later] by (simp add: attached_def f)
  with 2(1) show ?thesis by blast
qed

theorem shm_overrun_witness:
  "\<exists>ep m1 st' m2. om_bus_endpoint_open demo_open demo_ec (bus_fresh 77 (demo_bus 0)) = Inr (ep, m1) \<and>
     publish_list 100 (bus_stream_of (demo_bus 0)) [demo_rec 1, demo_rec 2, demo_rec 3] m1 = Some (st', m2) \<and>
     om_bus_endpoint_poll 200 id ep m2 = (PollEmpty, None, ep, m2)"
proof -
  obtain ep m1 where o: "om_bus_endpoint_open demo_open demo_ec (bus_fresh 77 (demo_bus 0)) = Inr (ep, m1)"
    using demo_bus_open by blast
  have "sc_staleness_ns (demo_bus 0) \<noteq> 0 \<and> sc_staleness_ns (demo_bus 0) < 100 - oo_now demo_open" "\<not> bus_is_broadcast (sc_flags (demo_bus 0))"
    by (simp_all add: demo_bus_def demo_open_def bus_is_broadcast_def)
  with shm_overrun [OF demo_bus_create o, of "[demo_rec 1, demo_rec 2, demo_rec 3]" 100] o show ?thesis by auto
qed

section \<open>Batches\<close>

lemma bus_publish_slot_stats [simp]: "bus_publish_slot (st\<lparr>st_records_published := n\<rparr>) pos r m = bus_publish_slot st pos r m"
  by (simp add: bus_publish_slot_def bus_write_def)

lemma publish_slot_set_head: "bus_publish_slot st pos r (set_head h m) = set_head h (bus_publish_slot st pos r m)"
  by (simp add: bus_publish_slot_def set_head_def Let_def)

lemma publish_chunk_set_head: "publish_chunk st pos rs (set_head h m) = set_head h (publish_chunk st pos rs m)"
  by (induction rs arbitrary: pos m) (simp_all add: publish_slot_set_head)

lemma publish_chunk_stats: "publish_chunk (st\<lparr>st_records_published := n\<rparr>) pos rs m = publish_chunk st pos rs m"
  by (induction rs arbitrary: pos m) simp_all

lemma set_head_simps [simp]: "set_head a (set_head b m) = set_head a m" "head (hdr (set_head a m)) = a" "set_head (head (hdr m)) m = m"
  by (simp_all add: set_head_def)

definition too_large :: "OmBusStream \<Rightarrow> OmBusRecord \<Rightarrow> bool" where
  "too_large st r \<longleftrightarrow> st_slot_size st - OM_BUS_SLOT_HEADER_SIZE < ucast (r_payload_len r)"

lemma publish_list_broadcast:
  assumes "bus_is_broadcast (st_flags st)"
  shows "publish_list now st rs m =
    (if \<exists>r \<in> set rs. too_large st r then None
     else Some (st\<lparr>st_records_published := st_records_published st + of_nat (length rs)\<rparr>,
                set_head (head (hdr m) + of_nat (length rs)) (publish_chunk st (head (hdr m)) rs m)))"
  using assms
proof (induction rs arbitrary: st m)
  case (Cons r rs)
  let ?st = "st\<lparr>st_records_published := st_records_published st + 1\<rparr>"
  have tl: "too_large (st\<lparr>st_records_published := n\<rparr>) x = too_large st x" for n x by (simp add: too_large_def)
  have "bus_is_broadcast (st_flags ?st)" using Cons.prems by simp
  note IH = Cons.IH [OF this, of "set_head (head (hdr m) + 1) (bus_publish_slot st (head (hdr m)) r m)", unfolded tl]
  show ?case using Cons.prems
    by (simp add: om_bus_stream_publish_def too_large_def [symmetric] IH Let_def publish_chunk_set_head publish_chunk_stats add.assoc)
qed simp

text \<open>
  C24: in broadcast mode a batch is its records published one after the other, with one difference: when a record is too large the
  batch writes nothing and reports the error.
\<close>

theorem shm_batch_is_list:
  assumes "bus_is_broadcast (st_flags st)"
  shows "om_bus_stream_publish_batch now st rs m =
    (case publish_list now st rs m of Some (st', m') \<Rightarrow> Some (None, st', m') | None \<Rightarrow> Some (Some OM_ERR_BUS_RECORD_TOO_LARGE, st, m))"
proof -
  have "publish_batch_loop now st h [] m' = Some (h, m')" for h m' by (subst publish_batch_loop.simps) simp
  then have "publish_batch_loop now st (head (hdr m)) rs m = Some (head (hdr m) + of_nat (length rs), publish_chunk st (head (hdr m)) rs m)"
    using assms by (cases "rs = []") (simp_all add: publish_batch_loop.simps [of now st "head (hdr m)" rs m])
  then show ?thesis using assms
    by (simp add: om_bus_stream_publish_batch_def publish_list_broadcast too_large_def)
qed

theorem shm_batch_is_list_witness:
  "\<exists>st' m'. om_bus_stream_publish_batch 0 (bus_stream_of (demo_bus 4)) [demo_rec 1, demo_rec 2, demo_rec 3] (bus_fresh 77 (demo_bus 4)) = Some (None, st', m') \<and>
     publish_list 0 (bus_stream_of (demo_bus 4)) [demo_rec 1, demo_rec 2, demo_rec 3] (bus_fresh 77 (demo_bus 4)) = Some (st', m')"
proof -
  have b: "bus_is_broadcast (st_flags (bus_stream_of (demo_bus 4)))"
    by (simp add: bus_stream_of_def demo_bus_def bus_defaults_def bus_is_broadcast_def bus_consts)
  have "\<not> too_large (bus_stream_of (demo_bus 4)) (demo_rec n)" for n
    by (simp add: too_large_def bus_stream_of_def demo_bus_def bus_defaults_def demo_rec_def bus_consts)
  then show ?thesis using shm_batch_is_list [OF b, of 0 "[demo_rec 1, demo_rec 2, demo_rec 3]" "bus_fresh 77 (demo_bus 4)"]
    publish_list_broadcast [OF b, of 0 "[demo_rec 1, demo_rec 2, demo_rec 3]"] by simp
qed

section \<open>Rewinding and peeking\<close>

lemma attached_index: "attached ep m rs t \<Longrightarrow> unat (ep_consumer_index ep) < length (tails m)"
  using shm_okD(7) [of m rs] by (simp add: attached_def ep_of_def word_less_nat_alt)

lemma attached_set_tail:
  assumes "attached ep m rs t" "unat v = k" "k \<le> length rs"
  shows "attached (ep\<lparr>ep_expected_wal_seq := e\<rparr>) (set_ep_tail ep v m) rs k"
proof -
  have "shm_ok (set_ep_tail ep v m) rs" using assms(1) by (subst shm_ok_cong [of _ m]) (simp_all add: set_ep_tail_def upd_tail_def attached_def)
  then show ?thesis using assms attached_index [OF assms(1)] by (simp add: attached_def ep_of_def ep_tail_def set_ep_tail_def upd_tail_def)
qed

lemma demo_attached:
  assumes "length rs < 2 ^ 63" "\<forall>r \<in> set rs. fits 64 r"
  shows "\<exists>ep m. attached ep m rs 0 \<and> capacity (hdr m) = 2"
proof -
  obtain ep m1 where o: "om_bus_endpoint_open demo_open demo_ec (bus_fresh 77 (demo_bus 4)) = Inr (ep, m1)"
    using demo_bus_open by blast
  note C = create_ok [OF demo_bus_create [of 4]]
  note O = open_ok [OF o C(1) demo_bus_simps(5)]
  have "stream_of (bus_stream_of (demo_bus 4)) m1" using C(2) O(2) by (simp add: stream_of_def)
  moreover have "no_wait 0 (bus_stream_of (demo_bus 4)) (length rs) m1"
    using C(5) by (simp add: no_wait_def demo_bus_def bus_is_broadcast_def bus_consts)
  moreover have "shm_ok m1 []" using O(1) by (simp add: attached_def)
  ultimately obtain st' m2 where "shm_ok m2 rs" "same_layout m1 m2"
    using publish_list_ok [of m1 "[]" "bus_stream_of (demo_bus 4)" rs 0] assms O(2) by auto
  then have "attached ep m2 rs 0 \<and> capacity (hdr m2) = 2"
    using O(1,2) by (simp add: attached_def ep_of_def ep_tail_def same_layout_def)
  then show ?thesis by blast
qed



text \<open>
  C35: peeking at a retained record \<open>d\<close> places back returns that record and leaves the endpoint's position and the sequence number it
  expects next unchanged.  It does change the endpoint's acknowledged sequence number, which becomes that of the record peeked at: a
  cursor saved after a peek names the older record.
\<close>

theorem shm_peek_moves_cursor:
  assumes "attached ep m rs t" "0 < d" "unat d \<le> t" "length rs \<le> t - unat d + unat (capacity (hdr m))"
    and "om_bus_endpoint_peek_previous now id ep d m = (rc, r, ep', m')"
  shows "rc = PollRecord \<and> r = Some (rs ! (t - unat d)) \<and> ep' = ep \<and> om_bus_endpoint_position ep m' = om_bus_endpoint_position ep m \<and>
    om_bus_endpoint_wal_seq ep m' = r_wal_seq (rs ! (t - unat d)) \<and>
    om_bus_endpoint_save_cursor True 16 ep m' = (None, Some (cursor_bytes (r_wal_seq (rs ! (t - unat d)))))"
proof -
  have ok: "shm_ok m rs" and ep: "ep_of ep m" and t: "unat (ep_tail ep m) = t" "t \<le> length rs" using assms(1) by (simp_all add: attached_def)
  let ?t = "ep_tail ep m" and ?e = "ep\<lparr>ep_expected_wal_seq := 0\<rparr>" and ?k = "t - unat d"
  let ?m = "set_ep_tail ep (?t - d) m"
  have d: "0 < unat d" and nz: "d \<noteq> 0" using assms(2) by (auto simp: word_less_nat_alt)
  have dt: "d \<le> ?t" using assms(3) t(1) by (simp add: word_le_nat_alt)
  have u: "unat (?t - d) = ?k" using t(1) dt by (simp add: unat_sub_le)
  have a: "attached ?e ?m rs ?k" using attached_set_tail [OF assms(1) u] t(2) by simp
  have "unat (ucast (ep_capacity ep) :: u64) = unat (capacity (hdr m))" using ep by (simp add: ep_of_def unat_ucast_up)
  then have dc: "\<not> ucast (ep_capacity ep) < d" using assms(3,4) t(2) by (simp add: word_less_nat_alt)
  have cap: "capacity (hdr ?m) = capacity (hdr m)" by (simp add: set_ep_tail_def upd_tail_def)
  have k: "?k < length rs" "length rs \<le> ?k + unat (capacity (hdr ?m))" using d assms(3,4) t(2) cap by simp_all
  note P = shm_poll_outcome(3) [of ?m rs ?e id ?k now]
  have P': "om_bus_endpoint_poll now id ?e ?m = (PollRecord, Some (rs ! ?k), ep\<lparr>ep_expected_wal_seq := r_wal_seq (rs ! ?k) + 1\<rparr>,
      bus_endpoint_advance now (ep\<lparr>ep_expected_wal_seq := r_wal_seq (rs ! ?k) + 1\<rparr>) (ep_tail ?e ?m) (ep_tail ?e ?m + 1) (r_wal_seq (rs ! ?k)) ?m)"
    using P a k by (simp add: attached_def bus_gap_result_def)
  have i: "unat (ep_consumer_index ep) < length (tails ?m)" using attached_index [OF a] by simp
  have m': "rc = PollRecord" "r = Some (rs ! ?k)" "ep' = ep"
    "m' = set_ep_tail ep ?t (bus_endpoint_advance now (ep\<lparr>ep_expected_wal_seq := r_wal_seq (rs ! ?k) + 1\<rparr>) (ep_tail ?e ?m) (ep_tail ?e ?m + 1) (r_wal_seq (rs ! ?k)) ?m)"
    using assms(5) P' dt dc nz by (auto simp: om_bus_endpoint_peek_previous_def Let_def not_less [symmetric])
  have R: "rc = PollRecord" "r = Some (rs ! ?k)" "ep' = ep" "om_bus_endpoint_position ep m' = ?t" "om_bus_endpoint_wal_seq ep m' = r_wal_seq (rs ! ?k)"
    using i unfolding m'
    by (simp_all add: om_bus_endpoint_position_def om_bus_endpoint_wal_seq_def ep_tail_def set_ep_tail_def upd_tail_def)
  then show ?thesis by (simp add: om_bus_endpoint_save_cursor_def om_bus_endpoint_position_def)
qed

theorem shm_peek_moves_cursor_witness:
  "\<exists>ep m ep' m'. attached ep m [demo_rec 4, demo_rec 9] 2 \<and> om_bus_endpoint_peek_previous 5 id ep 2 m = (PollRecord, Some (demo_rec 4), ep', m') \<and>
     om_bus_endpoint_wal_seq ep m' = 4"
proof -
  obtain ep0 m0 where a: "attached ep0 m0 [demo_rec 4, demo_rec 9] 0" "capacity (hdr m0) = 2"
    using demo_attached [of "[demo_rec 4, demo_rec 9]"] by auto
  obtain ep m where e: "poll_list 5 2 ep0 m0 = ([demo_rec 4, demo_rec 9], ep, m)" "attached ep m [demo_rec 4, demo_rec 9] (0 + 2)" "capacity (hdr m) = 2"
    using poll_list_ok [OF a(1), of 2 5] a(2) by auto
  obtain rc r ep' m' where p: "om_bus_endpoint_peek_previous 5 id ep 2 m = (rc, r, ep', m')" by (rule prod_cases4)
  from shm_peek_moves_cursor [OF e(2) _ _ _ p] e(3) have "rc = PollRecord" "r = Some (demo_rec 4)" "om_bus_endpoint_wal_seq ep m' = r_wal_seq (demo_rec 4)"
    by simp_all
  moreover have "r_wal_seq (demo_rec 4) = 4" "0 + 2 = (2 :: nat)" by (simp_all add: demo_rec_def)
  ultimately show ?thesis using e(2) p by metis
qed

section \<open>Cursor files\<close>

text \<open>
  C28: a cursor file that was written completely loads as the acknowledged sequence number of the endpoint; a
  write that was cut short is reported as an error of \<^verbatim>\<open>save\<close> and of the following \<^verbatim>\<open>load\<close>.
\<close>

theorem shm_cursor_roundtrip:
  assumes "written \<le> 16" "om_bus_endpoint_save_cursor True written ep m = (rc, content)"
  shows "if written = 16 then rc = None \<and> om_bus_endpoint_load_cursor content = Inr (om_bus_endpoint_wal_seq ep m)
    else rc = Some OM_ERR_BUS_SHM_OPEN \<and> om_bus_endpoint_load_cursor content = Inl OM_ERR_BUS_SHM_OPEN"
proof (cases "written = 16")
  case True
  let ?w = "om_bus_endpoint_wal_seq ep m"
  have "rc = None" "content = Some (cursor_bytes ?w)" using assms(2) True by (simp_all add: om_bus_endpoint_save_cursor_def)
  moreover have "unat ?w < 256 ^ 8" "unat (bus_crc32 bs) < 256 ^ 4" "unat OM_BUS_CURSOR_MAGIC < 256 ^ 4" for bs
    using unsigned_less [of ?w, where 'a = nat] unsigned_less [of "bus_crc32 bs", where 'a = nat]
      unsigned_less [of OM_BUS_CURSOR_MAGIC, where 'a = nat] by simp_all
  ultimately show ?thesis using True by (simp add: om_bus_endpoint_load_cursor_def cursor_bytes_def Let_def)
next
  case False
  then have "nat written < 16" using assms(1) by linarith
  then show ?thesis using assms(2) False
    by (auto simp: om_bus_endpoint_save_cursor_def om_bus_endpoint_load_cursor_def cursor_bytes_def Let_def)
qed

theorem shm_cursor_roundtrip_witness:
  "\<exists>ep m content. attached ep m [demo_rec 4] 0 \<and> om_bus_endpoint_save_cursor True 16 ep m = (None, content) \<and>
     om_bus_endpoint_load_cursor content = Inr (om_bus_endpoint_wal_seq ep m)"
proof -
  obtain ep m where a: "attached ep m [demo_rec 4] 0" using demo_attached [of "[demo_rec 4]"] by auto
  obtain rc content where s: "om_bus_endpoint_save_cursor True 16 ep m = (rc, content)" by (meson surj_pair)
  from shm_cursor_roundtrip [OF _ s] a s show ?thesis by auto
qed

end
