(* ===== verification/Spec2Isabelle.thy ===== *)
theory Spec2Isabelle
  imports Engine_Props Worker Bus_Mp_Props Bus_Tcp_Props Bus_Shm_Props
begin

text \<open>
  A verification library for the VeloxMatch matching engine (C sources under \<^verbatim>\<open>src/\<close>).

  \<^bold>\<open>The program.\<close>  Orders live in the slots of a dual slab allocator (\<^verbatim>\<open>om_slab\<close>).  The order book (\<^verbatim>\<open>orderbook\<close>) threads
  price ladders, time queues and per-organisation lists through these slots, finds an order by its id through a
  hash table (\<^verbatim>\<open>om_hash\<close>), indexes price levels with an AVL tree, and appends every change to a write-ahead log (\<^verbatim>\<open>om_wal\<close>).
  The engine (\<^verbatim>\<open>om_engine\<close>) matches an incoming order against the book, calls user callbacks, logs trades and books the rest.
  Log records leave the process through rings and buses: a single-producer ring inside the process
  (\<^verbatim>\<open>om_worker\<close>), a many-producer ring (\<^verbatim>\<open>om_bus_mp\<close>), a shared-memory stream (\<^verbatim>\<open>om_bus_shm\<close>) and a TCP transport (\<^verbatim>\<open>om_bus_tcp\<close>).

  \<^bold>\<open>Theories and sources.\<close>
  \<^item> \<open>Prelude\<close>: machine words, little-endian scalars, intrusive doubly linked lists and their interface \<open>intrusive_queue\<close>.
  \<^item> \<open>Om_Error\<close>: \<^verbatim>\<open>om_error.h\<close>.  \<open>Bus_Error\<close>: \<^verbatim>\<open>om_bus_error.h\<close>.
  \<^item> \<open>Slab\<close>: \<^verbatim>\<open>om_slab.h\<close>, \<^verbatim>\<open>om_slab.c\<close>.  A slot pointer is a slot index; both free lists, the four link pairs, flags and order ids.
  \<^item> \<open>Hash\<close>: \<^verbatim>\<open>om_hash.h\<close>, \<^verbatim>\<open>om_hash_khash.c\<close>, over the hash table library as a parameter.
  \<^item> \<open>Wal\<close>: the writer half of \<^verbatim>\<open>om_wal.h\<close>, \<^verbatim>\<open>om_wal.c\<close>: record layouts, checksum, append, flush, rotation, close.
  \<^item> \<open>Orderbook\<close>: \<^verbatim>\<open>orderbook.h\<close>, \<^verbatim>\<open>orderbook.c\<close>.  \<open>Ladder_Links\<close>, \<open>Side_Inv\<close>, \<open>Book_Inv\<close>: what the links of one price ladder, one side and a whole
    book represent, as a list of levels with their queues.  \<open>Book_Ops\<close>: every operation that changes the book
    against that list.  \<open>Book_Query\<close>: queries and batch cancellation.
  \<^item> \<open>Engine\<close>: \<^verbatim>\<open>om_engine.h\<close>, \<^verbatim>\<open>om_engine.c\<close>.  \<open>Engine_Step\<close>, \<open>Engine_Match\<close>: one trade and the two loops.  \<open>Engine_Props\<close>: the properties.
  \<^item> \<open>Ring_Index\<close>: masks as remainders.  \<open>Worker\<close>: \<^verbatim>\<open>om_worker.h\<close>, \<^verbatim>\<open>om_worker.c\<close>.
  \<^item> \<open>Fifo_Spec\<close>: the interface of a bounded queue.  \<open>Bus_Mp\<close>, \<open>Bus_Mp_Props\<close>: \<^verbatim>\<open>om_bus_mp.h\<close>, \<^verbatim>\<open>om_bus_mp.c\<close>.
  \<^item> \<open>Bus_Shm\<close>, \<open>Bus_Shm_Props\<close>: \<^verbatim>\<open>om_bus.h\<close>, \<^verbatim>\<open>om_bus_shm.c\<close>.  \<open>Bus_Tcp\<close>, \<open>Bus_Tcp_Props\<close>: \<^verbatim>\<open>om_bus_tcp.h\<close>, \<^verbatim>\<open>om_bus_tcp.c\<close>.

  \<^bold>\<open>State and operations.\<close>  A C structure is a record with the source's fields, an operation a function from the old state to the result and the new
  state, an early return a branch.  Integers keep their width.  Loops that recurse on data are total functions; loops that
  may run forever (the match loops, the ladder walks, the spin loops) are partial functions whose value \<open>None\<close> is
  not returning, and their termination is proved where it holds.  The hash table, the AVL tree,
  system calls, allocation results, the clock and user callbacks are arguments.  The record \<open>env\<close> bundles those of the book and the
  engine; what is assumed of the two container libraries is their documented behaviour, and \<open>demo_env\<close> shows
  that these assumptions can be met.  Handles and output pointers are not NULL unless a definition takes an option.

  \<^bold>\<open>What is proved.\<close>
  \<^item> Engine: matching terminates and keeps the book invariant, conserves volume, and never trades
    beyond the taker's limit, for every callback and log.
  \<^item> Book: insertion, cancellation, removal and unlinking refine the corresponding changes of the list of levels; queries answer from that list;
    batch cancellation terminates and empties a side.
  \<^item> Slab: the allocator hands out every slot once, free slots are reused, order ids are distinct, flag fields do not interfere.
  \<^item> Rings and buses: delivery in order and without loss up to the capacity, as an invariant over all interleavings
    of the atomic steps for the worker ring and the many-producer bus, and over every cutting of the byte stream for TCP;
    batches equal repeated single operations; cursor files round trip; sizes do not wrap; counts are exact.
  \<^item> Defects of the code, each with the run that shows it: stale organisation heads after a removal, a worker ring that blocks after its first
    lap, a many-producer ring of capacity one, late writers, consumers cut off silently, a cursor moved by a peek, a client stalled by a large
    frame, and a reconnecting client whose sequence number goes back.

  \<^bold>\<open>Bounds.\<close>  Positions of the rings are 64-bit counters: the delivery theorems of the many-producer bus cover runs of fewer than \<open>2 ^ 62\<close> claims, those of
  the shared-memory stream fewer than \<open>2 ^ 63\<close> records, far beyond what a process can publish.  The TCP delivery theorem assumes send buffers of at most
  \<open>2 ^ 31\<close> bytes, so that the 32-bit overflow test of the server does not itself overflow.  No definition uses fuel.

  \<^bold>\<open>Atomicity.\<close>  A step of the interleaved models is one atomic access together with the plain accesses that it
  orders; memory is sequentially consistent.  The shared-memory stream is modelled call by call, with the second
  load of a slot's sequence number as an argument of a poll.

  \<^bold>\<open>Not modelled.\<close>
  \<^item> Reading the log back (\<^verbatim>\<open>om_wal_replay_*\<close>) and recovery (\<^verbatim>\<open>om_orderbook_recover_from_wal\<close>); opening the log and the scan for
    its last file, which are file system calls; initialisation and destruction of the engine.
  \<^item> Market data (\<^verbatim>\<open>om_market.c\<close>), the performance presets (\<^verbatim>\<open>om_perf.c\<close>), whose load factors are floating point, and the glue headers
    \<^verbatim>\<open>om_bus_relay.h\<close>, \<^verbatim>\<open>om_bus_replay.h\<close>, \<^verbatim>\<open>om_bus_market.h\<close>, \<^verbatim>\<open>om_bus_tcp_market.h\<close>, \<^verbatim>\<open>om_bus_wal.h\<close>.
  \<^item> \<^verbatim>\<open>om_wal_mock.c\<close> and the programs under \<^verbatim>\<open>tools/\<close>, which print and query logs.
  \<^item> \<^verbatim>\<open>om_hash_khashl.c\<close>, the same wrapper over another table; processor-specific checksum instructions, whose result is that of the table-driven code.
\<close>

end
